(* ===== verification/Go_Prelude.thy ===== *)
theory Go_Prelude
  imports Main "HOL-Library.Word" "HOL-Library.Monad_Syntax"
begin

text \<open>
  What every component uses of the Go language: machine integers, slices whose accesses
  may panic, and the counting loop.

  A Go computation that can panic (index out of range, negative \<open>make\<close>, integer division
  by zero) is an \<^typ>\<open>'a option\<close>: \<open>None\<close> is the panic. The \<open>do\<close> notation of
  the library sequences such computations. Go's \<open>int\<close> is 64 bits wide on every platform the
  repository builds for; it is an \<^typ>\<open>int\<close> here, and \<open>wrap64\<close> is written wherever a
  product of caller-supplied values may leave that range. The fixed-width integers of the
  messages are words.
\<close>

named_theorems go_simps \<open>unfolding equations of the Go primitives\<close>

type_synonym u8 = "8 word"
type_synonym i32 = "32 word"
type_synonym i64 = "64 word"
type_synonym bytes = "u8 list"

section \<open>Machine integers\<close>

text \<open>Two's complement wrap-around of Go's 64-bit \<open>int\<close>.\<close>

definition wrap64 :: "int \<Rightarrow> int" where
  "wrap64 x = (x + 2 ^ 63) mod 2 ^ 64 - 2 ^ 63"

definition in_i64 :: "int \<Rightarrow> bool" where
  "in_i64 x \<longleftrightarrow> - (2 ^ 63) \<le> x \<and> x < 2 ^ 63"

lemma wrap64_range [simp]: "in_i64 (wrap64 x)"
proof -
  have "0 \<le> (x + 2 ^ 63) mod (2 ^ 64 :: int)" and "(x + 2 ^ 63) mod (2 ^ 64 :: int) < 2 ^ 64"
    by simp_all
  then show ?thesis by (simp add: in_i64_def wrap64_def)
qed

lemma wrap64_id: "in_i64 x \<Longrightarrow> wrap64 x = x"
  by (simp add: in_i64_def wrap64_def)

lemma wrap64_eq_iff: "wrap64 x = wrap64 y \<longleftrightarrow> x mod 2 ^ 64 = y mod 2 ^ 64"
proof -
  have "wrap64 x = wrap64 y \<longleftrightarrow> (x + 2 ^ 63) mod 2 ^ 64 = (y + 2 ^ 63) mod 2 ^ 64"
    by (simp add: wrap64_def)
  also have "\<dots> \<longleftrightarrow> (2 ^ 64 :: int) dvd x - y"
    by (simp add: mod_eq_dvd_iff)
  finally show ?thesis by (simp add: mod_eq_dvd_iff)
qed

lemma sint_i32_range: "- (2 ^ 31) \<le> sint (w :: i32)" "sint (w :: i32) < 2 ^ 31"
  using sint_ge [of w] sint_lt [of w] by simp_all

lemma uint_u8_range: "0 \<le> uint (b :: u8)" "uint (b :: u8) \<le> 255"
  using uint_bounded [of b] by simp_all

lemma sint_plus_i64:
  fixes x y :: i64
  assumes "- (2 ^ 63) \<le> sint x + sint y" "sint x + sint y < 2 ^ 63"
  shows "sint (x + y) = sint x + sint y"
proof -
  have "sint (x + y) = signed_take_bit 63 (sint x + sint y)"
    by (simp add: sint_word_add)
  also have "\<dots> = sint x + sint y"
    using assms by (intro signed_take_bit_int_eq_self) simp_all
  finally show ?thesis .
qed

section \<open>Slices\<close>

text \<open>\<open>xs[i]\<close> as a value, \<open>xs[i] = v\<close>, \<open>make([]T, n)\<close> and \<open>xs[:n]\<close>.\<close>

definition get :: "'a list \<Rightarrow> int \<Rightarrow> 'a option" where
  "get xs i = (if 0 \<le> i \<and> i < int (length xs) then Some (xs ! nat i) else None)"

definition put :: "'a list \<Rightarrow> int \<Rightarrow> 'a \<Rightarrow> 'a list option" where
  "put xs i v = (if 0 \<le> i \<and> i < int (length xs) then Some (xs[nat i := v]) else None)"

definition make_slice :: "int \<Rightarrow> 'a \<Rightarrow> 'a list option" where
  "make_slice n z = (if 0 \<le> n then Some (replicate (nat n) z) else None)"

definition slice_to :: "'a list \<Rightarrow> int \<Rightarrow> 'a list option" where
  "slice_to xs n = (if 0 \<le> n \<and> n \<le> int (length xs) then Some (take (nat n) xs) else None)"

lemma get_Some [go_simps]: "0 \<le> i \<Longrightarrow> i < int (length xs) \<Longrightarrow> get xs i = Some (xs ! nat i)"
  by (simp add: get_def)

lemma put_Some [go_simps]:
  "0 \<le> i \<Longrightarrow> i < int (length xs) \<Longrightarrow> put xs i v = Some (xs[nat i := v])"
  by (simp add: put_def)

lemma get_eq_None: "get xs i = None \<longleftrightarrow> i < 0 \<or> int (length xs) \<le> i"
  by (auto simp: get_def)

lemma put_length: "put xs i v = Some ys \<Longrightarrow> length ys = length xs"
  by (auto simp: put_def split: if_splits)

lemma make_slice_Some [go_simps]: "0 \<le> n \<Longrightarrow> make_slice n z = Some (replicate (nat n) z)"
  by (simp add: make_slice_def)

section \<open>The counting loop\<close>

text \<open>\<open>for i := i; i < n; i++ { s = body(i, s) }\<close>, where the body may panic.\<close>

function for_loop :: "int \<Rightarrow> int \<Rightarrow> (int \<Rightarrow> 's \<Rightarrow> 's option) \<Rightarrow> 's \<Rightarrow> 's option" where
  "for_loop i n body s =
     (if i < n then do { s' \<leftarrow> body i s; for_loop (i + 1) n body s' } else Some s)"
  by pat_completeness auto
termination
  by (relation "measure (\<lambda>(i, n, _, _). nat (n - i))") auto

declare for_loop.simps [simp del]

lemma for_loop_done [simp]: "n \<le> i \<Longrightarrow> for_loop i n body s = Some s"
  by (simp add: for_loop.simps)

lemma for_loop_step:
  "i < n \<Longrightarrow> for_loop i n body s = do { s' \<leftarrow> body i s; for_loop (i + 1) n body s' }"
  by (simp add: for_loop.simps [of i n body s])

text \<open>
  Total correctness of a loop: an invariant indexed by the counter that every iteration
  establishes for the next counter, without panicking.
\<close>

lemma for_loop_rule:
  assumes "P i s"
    and "\<And>j s. i \<le> j \<Longrightarrow> j < n \<Longrightarrow> P j s \<Longrightarrow> \<exists>s'. body j s = Some s' \<and> P (j + 1) s'"
  shows "\<exists>s'. for_loop i n body s = Some s' \<and> P (max i n) s'"
  using assms
proof (induction i n body s rule: for_loop.induct)
  case (1 i n body s)
  show ?case
  proof (cases "i < n")
    case False
    with "1.prems"(1) show ?thesis by (simp add: max_def)
  next
    case True
    from "1.prems"(1) True "1.prems"(2) [of i s]
    obtain s' where s': "body i s = Some s'" "P (i + 1) s'"
      by auto
    have "\<exists>s''. for_loop (i + 1) n body s' = Some s'' \<and> P (max (i + 1) n) s''"
      using "1.IH" [OF True] s' True "1.prems"(2) by simp
    moreover have "max (i + 1) n = max i n" using True by simp
    ultimately show ?thesis using True s' by (simp add: for_loop_step)
  qed
qed

text \<open>A loop whose body never panics is a fold over the counters.\<close>

lemma for_loop_fold:
  assumes "\<And>j s. i \<le> j \<Longrightarrow> j < n \<Longrightarrow> body j s = Some (f j s)"
  shows "for_loop i n body s = Some (fold f [i..n - 1] s)"
  using assms
proof (induction i n body s rule: for_loop.induct)
  case (1 i n body s)
  show ?case
  proof (cases "i < n")
    case False
    then show ?thesis by simp
  next
    case True
    with 1 have "for_loop (i + 1) n body (f i s) = Some (fold f [i + 1..n - 1] (f i s))"
      by simp
    moreover have "[i..n - 1] = i # [i + 1..n - 1]"
      using True by (simp add: upto_rec1)
    ultimately show ?thesis
      using True "1.prems" [of i s] by (simp add: for_loop_step)
  qed
qed

lemma for_loop_cong:
  assumes "\<And>j s. i \<le> j \<Longrightarrow> j < n \<Longrightarrow> body j s = body' j s"
  shows "for_loop i n body s = for_loop i n body' s"
  using assms
proof (induction i n body s rule: for_loop.induct)
  case (1 i n body s)
  show ?case
  proof (cases "i < n")
    case True
    have "for_loop (i + 1) n body s' = for_loop (i + 1) n body' s'" if "body i s = Some s'" for s'
      using "1.IH" [OF True] that "1.prems" by simp
    then show ?thesis
      using True "1.prems" [of i s]
      by (simp add: for_loop_step cong: Option.bind_cong)
  qed simp
qed

text \<open>A loop that overwrites every cell in turn, reading at most the cell it overwrites.\<close>

lemma fill_loop:
  assumes body: "\<And>i xs. 0 \<le> i \<Longrightarrow> i < int n \<Longrightarrow> length xs = n \<Longrightarrow> xs ! nat i = out ! nat i \<Longrightarrow>
      body i xs = put xs i (g i)"
    and len: "length out = n"
  shows "for_loop 0 (int n) body out = Some (map g [0..int n - 1])"
proof -
  define P where "P j xs \<longleftrightarrow> length xs = n \<and>
    (\<forall>k < n. xs ! k = (if int k < j then g (int k) else out ! k))" for j xs
  have "P 0 out" using len by (simp add: P_def)
  moreover have "\<exists>xs'. body j xs = Some xs' \<and> P (j + 1) xs'"
    if j: "0 \<le> j" "j < int n" and P: "P j xs" for j xs
  proof -
    have "body j xs = Some (xs[nat j := g j])"
      using body [OF j] P j by (simp add: P_def go_simps)
    moreover have "P (j + 1) (xs[nat j := g j])"
      using P j by (auto simp: P_def nth_list_update)
    ultimately show ?thesis by blast
  qed
  ultimately obtain res where res: "for_loop 0 (int n) body out = Some res" "P (max 0 (int n)) res"
    using for_loop_rule [of P 0 out "int n" body] by blast
  have "res = map g [0..int n - 1]"
    using res(2) by (intro nth_equalityI) (auto simp: P_def)
  with res(1) show ?thesis by simp
qed

section \<open>Loops that fill an array of triples\<close>

text \<open>
  Images are byte arrays of RGB triples: pixel \<open>p\<close> occupies the cells \<open>3p\<close>, \<open>3p+1\<close> and \<open>3p+2\<close>.
\<close>

definition put3 :: "'a list \<Rightarrow> int \<Rightarrow> 'a \<Rightarrow> 'a \<Rightarrow> 'a \<Rightarrow> 'a list option" where
  "put3 xs i a b c = do { xs \<leftarrow> put xs i a; xs \<leftarrow> put xs (i + 1) b; put xs (i + 2) c }"

definition of3 :: "'a \<Rightarrow> 'a \<Rightarrow> 'a \<Rightarrow> int \<Rightarrow> 'a" where
  "of3 a b c k = (if k mod 3 = 0 then a else if k mod 3 = 1 then b else c)"

lemma put3_Some:
  assumes "0 \<le> p" and "3 * p + 2 < int (length xs)"
  shows "\<exists>ys. put3 xs (3 * p) a b c = Some ys \<and> length ys = length xs \<and>
    (\<forall>k. 0 \<le> k \<and> k < int (length xs) \<longrightarrow>
      ys ! nat k = (if k div 3 = p then of3 a b c k else xs ! nat k))"
proof -
  let ?ys = "xs[nat (3 * p) := a, nat (3 * p + 1) := b, nat (3 * p + 2) := c]"
  have "put3 xs (3 * p) a b c = Some ?ys"
    using assms by (simp add: put3_def go_simps)
  moreover have "?ys ! nat k = (if k div 3 = p then of3 a b c k else xs ! nat k)"
    if "0 \<le> k" "k < int (length xs)" for k
  proof -
    have "k div 3 = p \<Longrightarrow> k = 3 * p \<or> k = 3 * p + 1 \<or> k = 3 * p + 2" by presburger
    then consider "k = 3 * p" | "k = 3 * p + 1" | "k = 3 * p + 2" | "k div 3 \<noteq> p" by blast
    then show ?thesis
      using that assms by cases (auto simp: of3_def nth_list_update nat_eq_iff)
  qed
  ultimately show ?thesis by (intro exI [of _ ?ys]) simp
qed

text \<open>
  One row: the counter \<open>x\<close> writes the triple of pixel \<open>b + x\<close>, whose value does not depend on
  what has been written so far.
\<close>

lemma row_loop:
  assumes body: "\<And>x xs. lo \<le> x \<Longrightarrow> x < hi \<Longrightarrow> length xs = n \<Longrightarrow>
      body x xs = put3 xs (3 * (b + x)) (g x 0) (g x 1) (g x (2::int))"
    and len: "length out = n"
    and bounds: "\<And>x. lo \<le> x \<Longrightarrow> x < hi \<Longrightarrow> 0 \<le> b + x \<and> 3 * (b + x) + 2 < int n"
  shows "\<exists>res. for_loop lo hi body out = Some res \<and> length res = n \<and>
    (\<forall>k. 0 \<le> k \<and> k < int n \<longrightarrow>
      res ! nat k = (if lo \<le> k div 3 - b \<and> k div 3 - b < hi
        then g (k div 3 - b) (k mod 3) else out ! nat k))"
proof -
  define P where "P j xs \<longleftrightarrow> length xs = n \<and> (\<forall>k. 0 \<le> k \<and> k < int n \<longrightarrow>
      xs ! nat k = (if lo \<le> k div 3 - b \<and> k div 3 - b < j
        then g (k div 3 - b) (k mod 3) else out ! nat k))" for j xs
  have "P lo out" unfolding P_def using len by auto
  moreover have "\<exists>xs'. body j xs = Some xs' \<and> P (j + 1) xs'"
    if j: "lo \<le> j" "j < hi" and P: "P j xs" for j xs
  proof -
    have n: "length xs = n" using P by (simp add: P_def)
    obtain ys where ys: "put3 xs (3 * (b + j)) (g j 0) (g j 1) (g j 2) = Some ys"
      and len': "length ys = length xs"
      and cells: "\<And>k. 0 \<le> k \<Longrightarrow> k < int (length xs) \<Longrightarrow>
        ys ! nat k = (if k div 3 = b + j then of3 (g j 0) (g j 1) (g j 2) k else xs ! nat k)"
      using put3_Some [of "b + j" xs "g j 0" "g j 1" "g j 2"] bounds [OF j] n by auto
    have of3: "of3 (g j 0) (g j 1) (g j 2) k = g j (k mod 3)" for k
    proof -
      have "k mod 3 = 0 \<or> k mod 3 = 1 \<or> k mod 3 = 2" by presburger
      then consider "k mod 3 = 0" | "k mod 3 = 1" | "k mod 3 = 2" by blast
      then show ?thesis by cases (simp_all add: of3_def)
    qed
    have "ys ! nat k = (if lo \<le> k div 3 - b \<and> k div 3 - b < j + 1
        then g (k div 3 - b) (k mod 3) else out ! nat k)" if "0 \<le> k" "k < int n" for k
    proof (cases "k div 3 = b + j")
      case True
      then show ?thesis using cells [of k] that n j by (simp add: of3)
    next
      case False
      then have "k div 3 - b < j + 1 \<longleftrightarrow> k div 3 - b < j" by linarith
      then show ?thesis using False cells [of k] that n P by (simp add: P_def)
    qed
    then show ?thesis using body [OF j n] ys len' n by (simp add: P_def)
  qed
  ultimately obtain res where "for_loop lo hi body out = Some res" "P (max lo hi) res"
    using for_loop_rule [of P lo out hi body] by blast
  then show ?thesis by (auto simp: P_def)
qed

text \<open>The rows of an image of width \<open>w\<close>.\<close>

lemma image_loops:
  assumes body: "\<And>y x xs. y0 \<le> y \<Longrightarrow> y < y1 \<Longrightarrow> x0 \<le> x \<Longrightarrow> x < x1 \<Longrightarrow> length xs = n \<Longrightarrow>
      body y x xs = put3 xs ((y * w + x) * 3) (g y x 0) (g y x 1) (g y x (2::int))"
    and len: "length out = n" "int n = w * h * 3"
    and bounds: "0 \<le> y0" "y1 \<le> h" "0 \<le> x0" "x1 \<le> w"
  shows "\<exists>res. for_loop y0 y1 (\<lambda>y. for_loop x0 x1 (body y)) out = Some res \<and> length res = n \<and>
    (\<forall>k. 0 \<le> k \<and> k < int n \<longrightarrow>
      res ! nat k = (let y = k div 3 div w; x = k div 3 mod w in
        if y0 \<le> y \<and> y < y1 \<and> x0 \<le> x \<and> x < x1 then g y x (k mod 3) else out ! nat k))"
proof -
  define P where "P j xs \<longleftrightarrow> length xs = n \<and> (\<forall>k. 0 \<le> k \<and> k < int n \<longrightarrow>
      xs ! nat k = (let y = k div 3 div w; x = k div 3 mod w in
        if y0 \<le> y \<and> y < j \<and> x0 \<le> x \<and> x < x1 then g y x (k mod 3) else out ! nat k))" for j xs
  have "P y0 out" unfolding P_def using len by (auto simp: Let_def)
  moreover have "\<exists>xs'. for_loop x0 x1 (body j) xs = Some xs' \<and> P (j + 1) xs'"
    if j: "y0 \<le> j" "j < y1" and P: "P j xs" for j xs
  proof -
    have n: "length xs = n" using P by (simp add: P_def)
    have inside: "0 \<le> j * w + x \<and> 3 * (j * w + x) + 2 < int n" if x: "x0 \<le> x" "x < x1" for x
    proof -
      have w: "0 < w" using x bounds by linarith
      have "j * w + w \<le> h * w"
        using mult_right_mono [of "j + 1" h w] j bounds w by (simp add: algebra_simps)
      moreover have "0 \<le> j * w" using j bounds w by simp
      ultimately show ?thesis using x bounds len(2) by (simp add: mult.commute [of w h])
    qed
    obtain res where res: "for_loop x0 x1 (body j) xs = Some res" "length res = n"
      and cells: "\<And>k. 0 \<le> k \<Longrightarrow> k < int n \<Longrightarrow> res ! nat k =
        (if x0 \<le> k div 3 - j * w \<and> k div 3 - j * w < x1
         then g j (k div 3 - j * w) (k mod 3) else xs ! nat k)"
      using row_loop [of x0 x1 n "body j" "j * w" "g j" xs] body [OF j] n inside
      by (auto simp: mult.commute [of 3])
    have "res ! nat k = (let y = k div 3 div w; x = k div 3 mod w in
        if y0 \<le> y \<and> y < j + 1 \<and> x0 \<le> x \<and> x < x1 then g y x (k mod 3) else out ! nat k)"
      if k: "0 \<le> k" "k < int n" for k
    proof (cases "x0 \<le> k div 3 - j * w \<and> k div 3 - j * w < x1")
      case True
      then have "0 \<le> k div 3 - j * w" "k div 3 - j * w < w" using bounds by linarith+
      then have "k div 3 div w = j" "k div 3 mod w = k div 3 - j * w"
        using int_div_pos_eq [of "k div 3" w j "k div 3 - j * w"]
          int_mod_pos_eq [of "k div 3" w j "k div 3 - j * w"]
        by (simp_all add: mult.commute)
      then show ?thesis using True cells [OF k] j by (simp add: Let_def)
    next
      case False
      have "\<not> (k div 3 div w = j \<and> x0 \<le> k div 3 mod w \<and> k div 3 mod w < x1)"
        using False by (auto simp: minus_div_mult_eq_mod [symmetric])
      then have "(let y = k div 3 div w; x = k div 3 mod w in
          if y0 \<le> y \<and> y < j + 1 \<and> x0 \<le> x \<and> x < x1 then g y x (k mod 3) else out ! nat k)
        = (let y = k div 3 div w; x = k div 3 mod w in
          if y0 \<le> y \<and> y < j \<and> x0 \<le> x \<and> x < x1 then g y x (k mod 3) else out ! nat k)"
        by (auto simp: Let_def)
      moreover have "res ! nat k = xs ! nat k" using False cells [OF k] by auto
      ultimately show ?thesis using P k by (simp only: P_def)
    qed
    then show ?thesis using res by (simp add: P_def)
  qed
  ultimately obtain res where "for_loop y0 y1 (\<lambda>y. for_loop x0 x1 (body y)) out = Some res"
    "P (max y0 y1) res"
    using for_loop_rule [of P y0 out y1 "\<lambda>y. for_loop x0 x1 (body y)"] by blast
  then show ?thesis by (auto simp: P_def Let_def)
qed

text \<open>Channel \<open>c\<close> of pixel \<open>(y, x)\<close> in a frame of width \<open>w\<close>.\<close>

definition pixel :: "'a list \<Rightarrow> int \<Rightarrow> int \<Rightarrow> int \<Rightarrow> int \<Rightarrow> 'a" where
  "pixel xs w y x c = xs ! nat ((y * w + x) * 3 + c)"

lemma pixel_index:
  fixes x y w h :: int
  assumes "0 \<le> y" "y < h" "0 \<le> x" "x < w"
  shows "0 \<le> y * w + x" and "(y * w + x) * 3 + 2 < w * h * 3"
proof -
  show "0 \<le> y * w + x" using assms by simp
  have "(y + 1) * w \<le> h * w" using assms by (intro mult_right_mono) simp_all
  then have "y * w + x + 1 \<le> w * h" using assms by (simp add: algebra_simps)
  then have "(y * w + x + 1) * 3 \<le> w * h * 3" by (rule mult_right_mono) simp
  then show "(y * w + x) * 3 + 2 < w * h * 3" by (simp add: distrib_right)
qed

lemma pixel_decode:
  fixes x y w c :: int
  assumes "0 \<le> x" "x < w" "0 \<le> c" "c < 3"
  shows "((y * w + x) * 3 + c) mod 3 = c" and "((y * w + x) * 3 + c) div 3 div w = y"
    and "((y * w + x) * 3 + c) div 3 mod w = x"
proof -
  have d: "((y * w + x) * 3 + c) div 3 = y * w + x" using assms by simp
  show "((y * w + x) * 3 + c) mod 3 = c" using assms by presburger
  show "((y * w + x) * 3 + c) div 3 div w = y"
    unfolding d using assms by (intro int_div_pos_eq [of _ w y x]) (simp_all add: mult.commute)
  show "((y * w + x) * 3 + c) div 3 mod w = x"
    unfolding d using assms by (intro int_mod_pos_eq [of _ w y x]) (simp_all add: mult.commute)
qed

lemma image_pixels:
  assumes "\<And>y x xs. y0 \<le> y \<Longrightarrow> y < y1 \<Longrightarrow> x0 \<le> x \<Longrightarrow> x < x1 \<Longrightarrow> length xs = n \<Longrightarrow>
      body y x xs = put3 xs ((y * w + x) * 3) (g y x 0) (g y x 1) (g y x (2::int))"
    and "length out = n" "int n = w * h * 3"
    and "0 \<le> y0" "y1 \<le> h" "0 \<le> x0" "x1 \<le> w"
  shows "\<exists>res. for_loop y0 y1 (\<lambda>y. for_loop x0 x1 (body y)) out = Some res \<and> length res = n \<and>
    (\<forall>y x c. 0 \<le> y \<longrightarrow> y < h \<longrightarrow> 0 \<le> x \<longrightarrow> x < w \<longrightarrow> 0 \<le> c \<longrightarrow> c < 3 \<longrightarrow>
      pixel res w y x c = (if y0 \<le> y \<and> y < y1 \<and> x0 \<le> x \<and> x < x1 then g y x c else pixel out w y x c))"
proof -
  obtain res where res: "for_loop y0 y1 (\<lambda>y. for_loop x0 x1 (body y)) out = Some res" "length res = n"
    and cells: "\<And>k. 0 \<le> k \<Longrightarrow> k < int n \<Longrightarrow>
      res ! nat k = (let y = k div 3 div w; x = k div 3 mod w in
        if y0 \<le> y \<and> y < y1 \<and> x0 \<le> x \<and> x < x1 then g y x (k mod 3) else out ! nat k)"
    using image_loops [OF assms] by blast
  have "pixel res w y x c = (if y0 \<le> y \<and> y < y1 \<and> x0 \<le> x \<and> x < x1 then g y x c else pixel out w y x c)"
    if yx: "0 \<le> y" "y < h" "0 \<le> x" "x < w" "0 \<le> c" "c < 3" for y x c
  proof -
    have lo: "0 \<le> (y * w + x) * 3 + c"
      using pixel_index(1) [OF yx(1-4)] yx(5) by simp
    have hi: "(y * w + x) * 3 + c < int n"
      using pixel_index(2) [OF yx(1-4)] yx(6) assms(3) by simp
    from cells [OF lo hi] show ?thesis
      unfolding pixel_def pixel_decode [OF yx(3-6)] by (simp add: Let_def)
  qed
  with res show ?thesis by blast
qed

text \<open>Two frames of the same size are equal when all their pixels are.\<close>

lemma image_eqI:
  assumes "length xs = length ys" "int (length xs) = w * h * 3" "0 \<le> w" "0 \<le> h"
    and "\<And>y x c. 0 \<le> y \<Longrightarrow> y < h \<Longrightarrow> 0 \<le> x \<Longrightarrow> x < w \<Longrightarrow> 0 \<le> c \<Longrightarrow> c < 3 \<Longrightarrow>
      pixel xs w y x c = pixel ys w y x c"
  shows "xs = ys"
proof (rule nth_equalityI [OF assms(1)])
  fix i assume "i < length xs"
  then have i: "0 \<le> int i" "int i < w * h * 3" using assms(2) by linarith+
  then have w: "0 < w" using assms(3) by (cases "w = 0") simp_all
  let ?p = "int i div 3"
  have "?p < w * h" using i(2) by linarith
  moreover have "?p div w * w + ?p mod w = ?p" "0 \<le> ?p mod w" using w by simp_all
  ultimately have "?p div w * w < h * w" by (simp only: mult.commute [of h])
  then have y: "?p div w < h" using w by simp
  have "0 \<le> ?p" by simp
  then have y0: "0 \<le> ?p div w" using w by (simp add: pos_imp_zdiv_nonneg_iff)
  have eq: "(?p div w * w + ?p mod w) * 3 + int i mod 3 = int i" by simp
  show "xs ! i = ys ! i"
    using assms(5) [OF y0 y, of "?p mod w" "int i mod 3"] w unfolding pixel_def eq by simp
qed

end
