(* ===== verification/Go_Text.thy ===== *)
theory Go_Text
  imports Go_Prelude
begin

text \<open>
  The part of Go's standard library for text that the gateway uses: strings as byte sequences,
  \<open>strconv\<close> for decimal integers, \<open>strings.Split\<close>/\<open>Join\<close>, and the \<open>encoding/base64\<close> and
  \<open>encoding/hex\<close> codecs, with the round-trip laws the components rely on.

  A Go string is a sequence of bytes; it is a \<^typ>\<open>string\<close> here, one character per byte.
\<close>

definition string_bytes :: "string \<Rightarrow> bytes" where
  "string_bytes s = map (\<lambda>c. word_of_nat (of_char c)) s"

definition bytes_string :: "bytes \<Rightarrow> string" where
  "bytes_string bs = map (\<lambda>b. char_of (unat b)) bs"

lemma unat_of_char: "unat (word_of_nat (of_char c) :: u8) = of_char c"
  by (simp add: unat_of_nat)

lemma bytes_string_bytes [simp]: "bytes_string (string_bytes s) = s"
  by (simp add: bytes_string_def string_bytes_def unat_of_char o_def)

lemma string_bytes_string [simp]: "string_bytes (bytes_string bs) = bs"
proof -
  have "(of_char (char_of (unat b)) :: nat) = unat b" for b :: u8
    using unsigned_less [where w = b and ?'a = nat] by simp
  then show ?thesis by (simp add: bytes_string_def string_bytes_def o_def)
qed

section \<open>Codecs\<close>

text \<open>The contract of an encoding: decoding what was encoded gives the value back.\<close>

locale codec =
  fixes enc :: "'a \<Rightarrow> 'b" and dec :: "'b \<Rightarrow> 'a option" and ok :: "'a \<Rightarrow> bool"
  assumes dec_enc: "ok x \<Longrightarrow> dec (enc x) = Some x"
begin

lemma enc_inj: "ok x \<Longrightarrow> ok y \<Longrightarrow> enc x = enc y \<Longrightarrow> x = y"
  by (metis dec_enc option.inject)

lemma enc_eq_iff: "ok x \<Longrightarrow> ok y \<Longrightarrow> enc x = enc y \<longleftrightarrow> x = y"
  using enc_inj by blast

end

section \<open>Decimal integers\<close>

definition digit_char :: "nat \<Rightarrow> char" where
  "digit_char d = char_of (48 + d)"

definition digit_val :: "char \<Rightarrow> nat option" where
  "digit_val c = (let n = of_char c :: nat in if 48 \<le> n \<and> n \<le> 57 then Some (n - 48) else None)"

lemma digit_char_code: "d < 10 \<Longrightarrow> (of_char (digit_char d) :: nat) = 48 + d"
  by (simp only: digit_char_def of_char_of) simp

lemma digit_val_char [simp]: "d < 10 \<Longrightarrow> digit_val (digit_char d) = Some d"
  unfolding digit_val_def by (simp only: digit_char_code Let_def) simp

fun show_nat :: "nat \<Rightarrow> string" where
  "show_nat n = (if n < 10 then [digit_char n] else show_nat (n div 10) @ [digit_char (n mod 10)])"

declare show_nat.simps [simp del]

text \<open>\<open>strconv.FormatInt(n, 10)\<close>, which is also what the \<open>%d\<close> verb prints.\<close>

definition show_int :: "int \<Rightarrow> string" where
  "show_int n = (if n < 0 then CHR ''-'' # show_nat (nat (- n)) else show_nat (nat n))"

text \<open>
  \<open>strconv.ParseInt(s, 10, 64)\<close>: the value with the error, as Go returns both. A syntax error
  returns 0; a value out of range returns the nearest bound.
\<close>

datatype num_error = ErrSyntax | ErrRange

text \<open>The digits as an unsigned 64-bit value; a value beyond it stops the scan at once.\<close>

fun parse_digits :: "nat \<Rightarrow> string \<Rightarrow> nat option" where
  "parse_digits acc [] = Some acc"
| "parse_digits acc (c # cs) =
     (case digit_val c of
        None \<Rightarrow> None
      | Some d \<Rightarrow> if 2 ^ 64 \<le> acc * 10 + d then Some (2 ^ 64 - 1) else parse_digits (acc * 10 + d) cs)"

definition signed_range :: "bool \<Rightarrow> nat \<Rightarrow> int \<times> num_error option" where
  "signed_range neg u =
     (if \<not> neg \<and> 2 ^ 63 \<le> u then (2 ^ 63 - 1, Some ErrRange)
      else if neg \<and> 2 ^ 63 < u then (- (2 ^ 63), Some ErrRange)
      else (if neg then - int u else int u, None))"

definition ParseInt :: "string \<Rightarrow> int \<times> num_error option" where
  "ParseInt s = (case s of
     [] \<Rightarrow> (0, Some ErrSyntax)
   | c # cs \<Rightarrow>
       let neg = (c = CHR ''-'');
           digits = (if c = CHR ''+'' \<or> c = CHR ''-'' then cs else s)
       in if digits = [] then (0, Some ErrSyntax)
          else case parse_digits 0 digits of
            None \<Rightarrow> (0, Some ErrSyntax)
          | Some u \<Rightarrow> signed_range neg u)"

definition parse_int_ok :: "string \<Rightarrow> int option" where
  "parse_int_ok s = (case ParseInt s of (n, None) \<Rightarrow> Some n | (_, Some _) \<Rightarrow> None)"

lemma parse_digits_append:
  "parse_digits a xs = Some b \<Longrightarrow> b < 2 ^ 64 - 1 \<Longrightarrow> parse_digits a (xs @ ys) = parse_digits b ys"
  by (induction xs arbitrary: a) (auto split: option.splits if_splits)

lemma parse_show_nat: "n < 2 ^ 64 \<Longrightarrow> parse_digits 0 (show_nat n) = Some n"
proof (induction n rule: show_nat.induct)
  case (1 n)
  show ?case
  proof (cases "n < 10")
    case True
    then show ?thesis by (simp add: show_nat.simps [of n])
  next
    case False
    then have "parse_digits 0 (show_nat (n div 10)) = Some (n div 10)" using 1 by simp
    moreover have "n div 10 < 2 ^ 64 - 1" using "1.prems" by simp
    ultimately show ?thesis
      using False "1.prems" by (simp add: show_nat.simps [of n] parse_digits_append)
  qed
qed

lemma show_nat_chars: "c \<in> set (show_nat n) \<Longrightarrow> 48 \<le> (of_char c :: nat) \<and> (of_char c :: nat) \<le> 57"
proof (induction n rule: show_nat.induct)
  case (1 n)
  then show ?case
    by (cases "n < 10") (auto simp: show_nat.simps [of n] digit_char_code)
qed

lemma show_nat_nonempty [simp]: "show_nat n \<noteq> []"
  by (subst show_nat.simps) simp

lemma show_int_chars:
  "c \<in> set (show_int n) \<Longrightarrow> c = CHR ''-'' \<or> 48 \<le> (of_char c :: nat) \<and> (of_char c :: nat) \<le> 57"
  using show_nat_chars by (auto simp: show_int_def split: if_splits)

lemma ParseInt_show_int:
  assumes "in_i64 n"
  shows "ParseInt (show_int n) = (n, None)"
proof (cases "n < 0")
  case True
  then show ?thesis
    using assms by (simp add: show_int_def ParseInt_def parse_show_nat signed_range_def in_i64_def Let_def)
next
  case False
  obtain c cs where c: "show_nat (nat n) = c # cs" by (cases "show_nat (nat n)") auto
  have "48 \<le> (of_char c :: nat)" using show_nat_chars [of c "nat n"] c by simp
  then have "c \<noteq> CHR ''+''" "c \<noteq> CHR ''-''" by auto
  moreover have "nat n < 2 ^ 64" using assms False by (auto simp: in_i64_def nat_less_iff)
  then have "parse_digits 0 (c # cs) = Some (nat n)" using parse_show_nat [of "nat n"] c by (simp only:)
  ultimately show ?thesis
    using assms False
    by (simp add: show_int_def ParseInt_def c signed_range_def in_i64_def Let_def nat_less_iff
        del: parse_digits.simps)
qed

interpretation decimal: codec show_int parse_int_ok in_i64
  by unfold_locales (simp add: parse_int_ok_def ParseInt_show_int)

section \<open>Splitting and joining\<close>

text \<open>\<open>strings.Split(s, sep)\<close> and \<open>strings.Join(parts, sep)\<close> for a one-byte separator.\<close>

fun split_on :: "char \<Rightarrow> string \<Rightarrow> string list" where
  "split_on sep [] = [[]]"
| "split_on sep (c # cs) =
     (if c = sep then [] # split_on sep cs
      else case split_on sep cs of [] \<Rightarrow> [[c]] | p # ps \<Rightarrow> (c # p) # ps)"

fun join_with :: "char \<Rightarrow> string list \<Rightarrow> string" where
  "join_with sep [] = []"
| "join_with sep [p] = p"
| "join_with sep (p # q # ps) = p @ sep # join_with sep (q # ps)"

lemma split_on_nonempty [simp]: "split_on sep s \<noteq> []"
  by (cases s) (auto split: list.splits)

lemma join_split [simp]: "join_with sep (split_on sep s) = s"
proof (induction s)
  case (Cons c cs)
  then show ?case
    by (cases "split_on sep cs"; cases "tl (split_on sep cs)") auto
qed simp

lemma split_on_parts: "p \<in> set (split_on sep s) \<Longrightarrow> sep \<notin> set p"
  by (induction s arbitrary: p) (auto split: if_splits list.splits)

lemma split_on_none: "sep \<notin> set s \<Longrightarrow> split_on sep s = [s]"
  by (induction s) auto

lemma split_on_append:
  "sep \<notin> set p \<Longrightarrow> split_on sep (p @ sep # s) = p # split_on sep s"
  by (induction p) auto

lemma split_join:
  assumes "ps \<noteq> []" "\<forall>p \<in> set ps. sep \<notin> set p"
  shows "split_on sep (join_with sep ps) = ps"
  using assms by (induction sep ps rule: join_with.induct) (auto simp: split_on_none split_on_append)

lemma length_split_on: "length (split_on sep s) = Suc (count_list s sep)"
  by (induction s) (auto split: list.splits)

text \<open>The fields of a record: non-empty lists of strings free of the separator.\<close>

definition join_ok :: "char \<Rightarrow> string list \<Rightarrow> bool" where
  "join_ok sep ps \<longleftrightarrow> ps \<noteq> [] \<and> (\<forall>p \<in> set ps. sep \<notin> set p)"

interpretation fields: codec "join_with sep" "\<lambda>s. Some (split_on sep s)" "join_ok sep" for sep
  by unfold_locales (simp add: join_ok_def split_join)

text \<open>\<open>strings.HasPrefix\<close>, \<open>strings.TrimPrefix\<close> and \<open>strings.Contains\<close>.\<close>

fun has_prefix :: "string \<Rightarrow> string \<Rightarrow> bool" where
  "has_prefix s [] = True"
| "has_prefix [] (p # ps) = False"
| "has_prefix (c # cs) (p # ps) = (c = p \<and> has_prefix cs ps)"

definition trim_prefix :: "string \<Rightarrow> string \<Rightarrow> string" where
  "trim_prefix s p = (if has_prefix s p then drop (length p) s else s)"

fun contains :: "string \<Rightarrow> string \<Rightarrow> bool" where
  "contains [] p = (p = [])"
| "contains (c # cs) p = (has_prefix (c # cs) p \<or> contains cs p)"

lemma has_prefix_iff: "has_prefix s p \<longleftrightarrow> (\<exists>t. s = p @ t)"
  by (induction s p rule: has_prefix.induct) auto

lemma trim_prefix_append [simp]: "trim_prefix (p @ s) p = s"
  by (simp add: trim_prefix_def has_prefix_iff)

text \<open>
  \<open>strings.ToLower\<close> on ASCII letters; the other bytes are kept. (The letters beyond ASCII whose
  lower case is ASCII give \<open>k\<close> and \<open>i\<close> only, which occur in no string the code compares with.)
\<close>

definition to_lower :: "string \<Rightarrow> string" where
  "to_lower s = map (\<lambda>c. let n = of_char c :: nat in
     if 65 \<le> n \<and> n \<le> 90 then char_of (n + 32) else c) s"

end
