(* ===== verification/Go_Float.thy ===== *)
theory Go_Float
  imports Complex_Main Go_Prelude "HOL-Library.Log_Nat"
begin

text \<open>
  Go's \<open>float32\<close> and \<open>float64\<close>: IEEE 754 binary formats with round-to-nearest-even.

  A value is NaN, an infinity or a finite number, held as the rational it denotes. The two
  zeros are one value: no operation the repository performs tells them apart (the divisors
  it uses are never negative, and it never prints a sign of zero). Every operation computes
  the exact rational result and rounds it to the format, as gc does on amd64, where
  multiplication and addition are not fused.
\<close>

datatype fl = NaN | Inf (negative: bool) | Fin rat

record format =
  prec :: nat   \<comment> \<open>significand bits, the hidden one included\<close>
  qmin :: int   \<comment> \<open>exponent of the smallest subnormal\<close>
  emax :: int   \<comment> \<open>largest exponent\<close>

definition F32 :: format where
  "F32 = \<lparr>prec = 24, qmin = - 149, emax = 127\<rparr>"

definition F64 :: format where
  "F64 = \<lparr>prec = 53, qmin = - 1074, emax = 1023\<rparr>"

section \<open>Powers and logarithms of two\<close>

definition pow2 :: "int \<Rightarrow> rat" where
  "pow2 e = (if 0 \<le> e then 2 ^ nat e else 1 / 2 ^ nat (- e))"

lemma pow2_powi: "pow2 e = 2 powi e"
  by (simp add: pow2_def power_int_def power_one_over)

lemma pow2_pos [simp]: "0 < pow2 e"
  by (simp add: pow2_def)

lemma pow2_nonzero [simp]: "pow2 e \<noteq> 0"
  by (simp add: pow2_def)

lemma pow2_nonneg [simp]: "0 \<le> pow2 e"
  by (rule less_imp_le) simp

lemma pow2_not_le_0 [simp]: "\<not> pow2 e \<le> 0"
  by (simp add: not_le)

lemma pow2_0 [simp]: "pow2 0 = 1"
  by (simp add: pow2_def)

lemma pow2_add: "pow2 (a + b) = pow2 a * pow2 b"
  by (simp add: pow2_powi power_int_add)

lemma pow2_Suc: "pow2 (a + 1) = 2 * pow2 a"
  by (simp add: pow2_add) (simp add: pow2_def)

lemma pow2_minus: "pow2 (a - b) = pow2 a / pow2 b"
  by (simp add: pow2_powi power_int_diff)

lemma pow2_less: "a < b \<Longrightarrow> pow2 a < pow2 b"
  by (simp add: pow2_powi power_int_strict_increasing)

lemma pow2_less_iff [simp]: "pow2 a < pow2 b \<longleftrightarrow> a < b"
  using pow2_less [of a b] pow2_less [of b a] by (cases a b rule: linorder_cases) auto

lemma pow2_le_iff [simp]: "pow2 a \<le> pow2 b \<longleftrightarrow> a \<le> b"
  by (simp flip: linorder_not_less)

lemma pow2_Ints: "0 \<le> e \<Longrightarrow> pow2 e = of_int (2 ^ nat e)"
  by (simp add: pow2_def)

text \<open>The exponent of a positive rational: \<open>2\<^sup>e \<le> q < 2\<^sup>e\<^sup>+\<^sup>1\<close>.\<close>

definition ilog2 :: "rat \<Rightarrow> int" where
  "ilog2 q = (let (a, b) = quotient_of q; e = bitlen a - bitlen b
     in if pow2 e \<le> q then e else e - 1)"

lemma bitlen_pow2_bounds:
  assumes "0 < n"
  shows "pow2 (bitlen n - 1) \<le> of_int n" and "of_int n < pow2 (bitlen n)"
proof -
  have b: "1 \<le> bitlen n"
    using assms bitlen_nonneg [of n] bitlen_eq_zero_iff [of n] by linarith
  have "(of_int (2 ^ nat (bitlen n - 1)) :: rat) \<le> of_int n"
    using bitlen_bounds [OF assms] by (simp only: of_int_le_iff)
  with b show "pow2 (bitlen n - 1) \<le> of_int n" by (simp add: pow2_def)
  have "(of_int n :: rat) < of_int (2 ^ nat (bitlen n))"
    using bitlen_bounds [OF assms] by (simp only: of_int_less_iff)
  with b show "of_int n < pow2 (bitlen n)" by (simp add: pow2_def)
qed

lemma ilog2_bounds:
  assumes "0 < q"
  shows "pow2 (ilog2 q) \<le> q" and "q < pow2 (ilog2 q + 1)"
proof -
  obtain a b where ab: "quotient_of q = (a, b)" by (cases "quotient_of q")
  have b: "0 < b" using ab by (rule quotient_of_denom_pos)
  have q: "q = of_int a / of_int b" using ab by (rule quotient_of_div)
  have a: "0 < a" using assms b by (simp add: q zero_less_divide_iff)
  let ?e = "bitlen a - bitlen b"
  have "of_int a < pow2 (bitlen a)" by (rule bitlen_pow2_bounds [OF a])
  also have "\<dots> = pow2 (?e + 1) * pow2 (bitlen b - 1)" by (simp flip: pow2_add)
  also have "\<dots> \<le> pow2 (?e + 1) * of_int b"
    by (intro mult_left_mono bitlen_pow2_bounds [OF b]) simp
  finally have up: "q < pow2 (?e + 1)" using b by (simp add: q field_simps)
  have "pow2 (?e - 1) * of_int b \<le> pow2 (?e - 1) * pow2 (bitlen b)"
    by (intro mult_left_mono less_imp_le [OF bitlen_pow2_bounds(2) [OF b]]) simp
  also have "\<dots> = pow2 (bitlen a - 1)" by (simp flip: pow2_add)
  also have "\<dots> \<le> of_int a" by (rule bitlen_pow2_bounds [OF a])
  finally have low: "pow2 (?e - 1) \<le> q" using b by (simp add: q field_simps)
  show "pow2 (ilog2 q) \<le> q" and "q < pow2 (ilog2 q + 1)"
    using up low by (auto simp: ilog2_def ab Let_def)
qed

lemma ilog2_le:
  assumes "0 < a" and "a \<le> b"
  shows "ilog2 a \<le> ilog2 b"
proof -
  have "pow2 (ilog2 a) \<le> a" using assms(1) by (rule ilog2_bounds)
  also have "\<dots> \<le> b" by (rule assms(2))
  also have "b < pow2 (ilog2 b + 1)" using assms by (intro ilog2_bounds) simp
  finally show ?thesis by simp
qed

section \<open>Rounding\<close>

text \<open>To the nearest integer, ties to even.\<close>

definition round_even :: "rat \<Rightarrow> int" where
  "round_even x = (let f = \<lfloor>x\<rfloor>; d = x - of_int f
     in if d < 1 / 2 then f else if 1 / 2 < d then f + 1 else if even f then f else f + 1)"

lemma round_even_of_int [simp]: "round_even (of_int n) = n"
  by (simp add: round_even_def)

lemma round_even_floor: "\<lfloor>x\<rfloor> \<le> round_even x" "round_even x \<le> \<lfloor>x\<rfloor> + 1"
  by (auto simp: round_even_def Let_def)

lemma round_even_mono:
  assumes "x \<le> y"
  shows "round_even x \<le> round_even y"
proof (cases "\<lfloor>x\<rfloor> = \<lfloor>y\<rfloor>")
  case True
  with assms show ?thesis by (auto simp: round_even_def Let_def)
next
  case False
  with floor_mono [OF assms] have "\<lfloor>x\<rfloor> + 1 \<le> \<lfloor>y\<rfloor>" by simp
  with round_even_floor(2) [of x] round_even_floor(1) [of y] show ?thesis by simp
qed

text \<open>Rounding of a magnitude: the spacing of the format around \<open>a\<close> is \<open>2\<^sup>u\<close>.\<close>

definition quantum :: "format \<Rightarrow> rat \<Rightarrow> int" where
  "quantum F a = max (ilog2 a - (int (prec F) - 1)) (qmin F)"

definition mag :: "format \<Rightarrow> rat \<Rightarrow> rat" where
  "mag F a = (if a = 0 then 0
     else let u = quantum F a in of_int (round_even (a / pow2 u)) * pow2 u)"

definition fl_round :: "format \<Rightarrow> rat \<Rightarrow> fl" where
  "fl_round F q = (let r = mag F \<bar>q\<bar>
     in if pow2 (emax F + 1) \<le> r then Inf (q < 0) else Fin (if q < 0 then - r else r))"

lemma mag_0 [simp]: "mag F 0 = 0"
  by (simp add: mag_def)

lemma mag_nonneg: "0 \<le> a \<Longrightarrow> 0 \<le> mag F a"
  using round_even_mono [of 0 "a / pow2 (quantum F a)"] round_even_of_int [of 0]
  by (simp add: mag_def Let_def)

lemma fl_round_0 [simp]: "fl_round F 0 = Fin 0"
  by (simp add: fl_round_def Let_def)

text \<open>A multiple of the spacing is a fixed point of rounding at that spacing.\<close>

lemma round_multiple: 
  assumes "u \<le> v"
  shows "of_int (round_even (of_int k * pow2 v / pow2 u)) * pow2 u = of_int k * pow2 v"
proof -
  have "of_int k * pow2 v / pow2 u = of_int k * pow2 (v - u)" by (simp add: pow2_minus)
  also have "\<dots> = of_int (k * 2 ^ nat (v - u))" using assms by (simp add: pow2_Ints)
  finally have eq: "of_int k * pow2 v / pow2 u = of_int (k * 2 ^ nat (v - u))" .
  then have "of_int (round_even (of_int k * pow2 v / pow2 u)) * pow2 u
      = (of_int k * pow2 v / pow2 u) * pow2 u"
    by (simp only: round_even_of_int)
  then show ?thesis by simp
qed

lemma mag_exact_lt:
  assumes k: "0 < k" "k < 2 ^ prec F" and u: "qmin F \<le> u"
  shows "mag F (of_int k * pow2 u) = of_int k * pow2 u"
proof -
  let ?a = "of_int k * pow2 u"
  have pos: "0 < ?a" using k by simp
  have "pow2 (ilog2 ?a) \<le> ?a" using pos by (rule ilog2_bounds)
  also have "\<dots> < pow2 (int (prec F)) * pow2 u"
    using k by (intro mult_strict_right_mono) (simp_all add: pow2_def of_int_less_numeral_power_cancel_iff)
  finally have "ilog2 ?a < int (prec F) + u" by (simp flip: pow2_add)
  then have "quantum F ?a \<le> u" using u by (simp add: quantum_def)
  then have "of_int (round_even (?a / pow2 (quantum F ?a))) * pow2 (quantum F ?a) = ?a"
    by (rule round_multiple)
  with pos show ?thesis by (simp add: mag_def Let_def)
qed

lemma mag_exact:
  assumes "0 \<le> k" "k \<le> 2 ^ prec F" "0 < prec F" "qmin F \<le> u"
  shows "mag F (of_int k * pow2 u) = of_int k * pow2 u"
proof -
  consider "k = 0" | "0 < k" "k < 2 ^ prec F" | "k = 2 ^ prec F"
    using assms by linarith
  then show ?thesis
  proof cases
    case 3
    then have "of_int k * pow2 u = of_int 1 * pow2 (int (prec F) + u)"
      by (simp add: pow2_add) (simp add: pow2_def)
    moreover have "1 < (2 ^ prec F :: int)" using assms(3) by simp
    ultimately show ?thesis using mag_exact_lt [of 1 F "int (prec F) + u"] assms(4) by simp
  qed (use assms(4) mag_exact_lt in simp_all)
qed

text \<open>Rounding is monotone.\<close>

lemma mag_mono:
  assumes a: "0 \<le> a" and ab: "a \<le> b" and p: "0 < prec F"
  shows "mag F a \<le> mag F b"
proof (cases "a = 0")
  case True
  then show ?thesis using assms by (simp add: mag_nonneg)
next
  case False
  with a ab have pos: "0 < a" "0 < b" by simp_all
  let ?u = "quantum F a" and ?v = "quantum F b"
  have le: "?u \<le> ?v"
    using ilog2_le [OF pos(1) ab] by (auto simp: quantum_def)
  have step: "of_int (round_even (x / pow2 w)) * pow2 w \<le> of_int (round_even (y / pow2 w)) * pow2 w"
    if "x \<le> y" for x y w
    using that by (intro mult_right_mono) (simp_all add: round_even_mono divide_right_mono)
  show ?thesis
  proof (cases "?u = ?v")
    case True
    with step [OF ab, of ?v] pos show ?thesis by (simp add: mag_def Let_def)
  next
    case False
    with le have "?u < ?v" by simp
    then have v: "?v = ilog2 b - (int (prec F) - 1)" by (auto simp: quantum_def)
    let ?c = "of_int 1 * pow2 (ilog2 b)"
    have vb: "?v \<le> ilog2 b" using v p by simp
    have "ilog2 a < ilog2 b" using \<open>?u < ?v\<close> v by (auto simp: quantum_def)
    then have "pow2 (ilog2 a + 1) \<le> pow2 (ilog2 b)" by simp
    then have ac: "a \<le> ?c" using ilog2_bounds(2) [OF pos(1)] by (simp only: of_int_1 mult_1)
    have "mag F a = of_int (round_even (a / pow2 ?u)) * pow2 ?u"
      using pos by (simp add: mag_def Let_def)
    also have "\<dots> \<le> of_int (round_even (?c / pow2 ?u)) * pow2 ?u" by (rule step [OF ac])
    also have "\<dots> = ?c" by (rule round_multiple) (use le vb in simp)
    also have "\<dots> = of_int (round_even (?c / pow2 ?v)) * pow2 ?v"
      by (rule round_multiple [OF vb, symmetric])
    also have "\<dots> \<le> of_int (round_even (b / pow2 ?v)) * pow2 ?v"
      by (rule step) (use ilog2_bounds(1) [OF pos(2)] in simp)
    also have "\<dots> = mag F b" using pos by (simp add: mag_def Let_def)
    finally show ?thesis .
  qed
qed

section \<open>Facts about rounding the components use\<close>

lemma F32_simps [simp]: "prec F32 = 24" "qmin F32 = - 149" "emax F32 = 127"
  by (simp_all add: F32_def)

lemma F64_simps [simp]: "prec F64 = 53" "qmin F64 = - 1074" "emax F64 = 1023"
  by (simp_all add: F64_def)

text \<open>Integers up to \<open>2\<^sup>2\<^sup>4\<close> are \<open>float32\<close> values, up to \<open>2\<^sup>5\<^sup>3\<close> they are \<open>float64\<close> values.\<close>

lemma mag_int:
  assumes "0 \<le> n" "n \<le> 2 ^ prec F" "0 < prec F" "qmin F \<le> 0"
  shows "mag F (of_int n) = of_int n"
  using mag_exact [OF assms(1-3), of 0] assms(4) by simp

lemma fl_round_int:
  assumes "\<bar>n\<bar> \<le> 2 ^ prec F" "0 < prec F" "qmin F \<le> 0" "int (prec F) \<le> emax F"
  shows "fl_round F (of_int n) = Fin (of_int n)"
proof -
  have m: "mag F \<bar>of_int n\<bar> = of_int \<bar>n\<bar>"
    using mag_int [of "\<bar>n\<bar>" F] assms by simp
  have "(of_int \<bar>n\<bar> :: rat) \<le> pow2 (int (prec F))"
    using assms(1) by (simp add: pow2_def) (metis of_int_abs of_int_le_iff of_int_numeral of_int_power)
  also have "\<dots> < pow2 (emax F + 1)" using assms(4) by simp
  finally show ?thesis using m by (auto simp: fl_round_def Let_def not_le)
qed

lemma fl_round_int32: "\<bar>n\<bar> \<le> 2 ^ 24 \<Longrightarrow> fl_round F32 (of_int n) = Fin (of_int n)"
  by (rule fl_round_int) simp_all

lemma fl_round_int64: "\<bar>n\<bar> \<le> 2 ^ 53 \<Longrightarrow> fl_round F64 (of_int n) = Fin (of_int n)"
  by (rule fl_round_int) simp_all

lemma fl_round_nonneg:
  assumes "0 \<le> q" and "mag F q < pow2 (emax F + 1)"
  shows "fl_round F q = Fin (mag F q)"
  using assms by (simp add: fl_round_def Let_def)

text \<open>A non-negative rational below a representable bound rounds to a value below that bound.\<close>

lemma fl_round_le:
  assumes "0 \<le> q" and "q \<le> b" and "mag F b = b" and "b < pow2 (emax F + 1)" and "0 < prec F"
  shows "\<exists>r. fl_round F q = Fin r \<and> 0 \<le> r \<and> r \<le> b"
proof -
  have "mag F q \<le> b" using mag_mono [OF assms(1,2,5)] assms(3) by simp
  moreover have "0 \<le> mag F q" using assms(1) by (rule mag_nonneg)
  ultimately show ?thesis using assms(1,4) by (simp add: fl_round_nonneg)
qed

text \<open>The rounding error is at most half a unit in the last place.\<close>

lemma round_even_error: "\<bar>of_int (round_even x) - x\<bar> \<le> 1 / 2"
proof -
  have "of_int \<lfloor>x\<rfloor> \<le> x" "x < of_int \<lfloor>x\<rfloor> + 1" by linarith+
  then show ?thesis by (auto simp: round_even_def Let_def abs_le_iff)
qed

lemma mag_error:
  assumes a: "0 \<le> a" "a < pow2 (k + 1)" and q: "qmin F \<le> k - (int (prec F) - 1)"
  shows "\<bar>mag F a - a\<bar> \<le> pow2 (k - (int (prec F) - 1)) / 2"
proof (cases "a = 0")
  case False
  let ?u = "quantum F a"
  have pos: "0 < a" using a False by simp
  have "pow2 (ilog2 a) < pow2 (k + 1)" using ilog2_bounds(1) [OF pos] a(2) by (rule order.strict_trans1)
  then have u: "pow2 ?u \<le> pow2 (k - (int (prec F) - 1))" using q by (simp add: quantum_def)
  have "mag F a - a = (of_int (round_even (a / pow2 ?u)) - a / pow2 ?u) * pow2 ?u"
    using False by (simp add: mag_def Let_def left_diff_distrib)
  then have "\<bar>mag F a - a\<bar> = \<bar>of_int (round_even (a / pow2 ?u)) - a / pow2 ?u\<bar> * pow2 ?u"
    by (simp add: abs_mult)
  also have "\<dots> \<le> 1 / 2 * pow2 ?u" by (rule mult_right_mono [OF round_even_error]) simp
  finally show ?thesis using u by linarith
qed simp

lemma fl_round_error:
  assumes "0 \<le> a" "a < pow2 (k + 1)" "qmin F \<le> k - (int (prec F) - 1)" "0 < prec F" "k < emax F"
  shows "\<exists>r. fl_round F a = Fin r \<and> 0 \<le> r \<and> \<bar>r - a\<bar> \<le> pow2 (k - (int (prec F) - 1)) / 2"
proof -
  have u: "k + 1 = (k - (int (prec F) - 1)) + int (prec F)" by simp
  have fx: "mag F (pow2 (k + 1)) = pow2 (k + 1)"
    using mag_exact [of 1 F "k + 1"] assms(3,4) by simp
  have "mag F a \<le> pow2 (k + 1)"
    using mag_mono [of a "pow2 (k + 1)" F] assms(1,2,4) fx by simp
  also have "\<dots> < pow2 (emax F + 1)" using assms(5) by simp
  finally show ?thesis
    using assms(1) mag_nonneg [OF assms(1), of F] mag_error [OF assms(1-3)]
    by (simp add: fl_round_nonneg)
qed

section \<open>Operations\<close>

fun fl_neg :: "fl \<Rightarrow> fl" where
  "fl_neg NaN = NaN"
| "fl_neg (Inf s) = Inf (\<not> s)"
| "fl_neg (Fin q) = Fin (- q)"

fun fl_add :: "format \<Rightarrow> fl \<Rightarrow> fl \<Rightarrow> fl" where
  "fl_add F (Fin a) (Fin b) = fl_round F (a + b)"
| "fl_add F (Inf s) (Inf t) = (if s = t then Inf s else NaN)"
| "fl_add F (Inf s) (Fin b) = Inf s"
| "fl_add F (Fin a) (Inf t) = Inf t"
| "fl_add F NaN y = NaN"
| "fl_add F x NaN = NaN"

fun fl_mul :: "format \<Rightarrow> fl \<Rightarrow> fl \<Rightarrow> fl" where
  "fl_mul F (Fin a) (Fin b) = fl_round F (a * b)"
| "fl_mul F (Inf s) (Inf t) = Inf (s \<noteq> t)"
| "fl_mul F (Inf s) (Fin b) = (if b = 0 then NaN else Inf (s \<noteq> (b < 0)))"
| "fl_mul F (Fin a) (Inf t) = (if a = 0 then NaN else Inf (t \<noteq> (a < 0)))"
| "fl_mul F NaN y = NaN"
| "fl_mul F x NaN = NaN"

text \<open>The zero divisor is \<open>+0\<close>.\<close>

fun fl_div :: "format \<Rightarrow> fl \<Rightarrow> fl \<Rightarrow> fl" where
  "fl_div F (Fin a) (Fin b) =
     (if b = 0 then (if a = 0 then NaN else Inf (a < 0)) else fl_round F (a / b))"
| "fl_div F (Inf s) (Inf t) = NaN"
| "fl_div F (Inf s) (Fin b) = Inf (s \<noteq> (b < 0))"
| "fl_div F (Fin a) (Inf t) = Fin 0"
| "fl_div F NaN y = NaN"
| "fl_div F x NaN = NaN"

text \<open>Conversion between the two formats.\<close>

fun fl_conv :: "format \<Rightarrow> fl \<Rightarrow> fl" where
  "fl_conv F (Fin q) = fl_round F q"
| "fl_conv F x = x"

text \<open>Comparisons: false whenever an operand is NaN.\<close>

fun fl_less :: "fl \<Rightarrow> fl \<Rightarrow> bool" where
  "fl_less (Fin a) (Fin b) = (a < b)"
| "fl_less (Inf s) (Inf t) = (s \<and> \<not> t)"
| "fl_less (Inf s) (Fin b) = s"
| "fl_less (Fin a) (Inf t) = (\<not> t)"
| "fl_less NaN y = False"
| "fl_less x NaN = False"

fun fl_ceil :: "fl \<Rightarrow> fl" where
  "fl_ceil (Fin q) = Fin (of_int \<lceil>q\<rceil>)"
| "fl_ceil x = x"

text \<open>Conversion to an integer drops the fraction.\<close>

definition rat_trunc :: "rat \<Rightarrow> int" where
  "rat_trunc q = (if 0 \<le> q then \<lfloor>q\<rfloor> else - \<lfloor>- q\<rfloor>)"

text \<open>
  \<open>int(x)\<close> for a \<open>float64\<close>. Go leaves the result open when the value does not fit; gc on
  amd64 yields the smallest \<open>int\<close> (CVTTSD2SQ's integer indefinite).
\<close>

fun fl_to_int :: "fl \<Rightarrow> int" where
  "fl_to_int (Fin q) = (if in_i64 (rat_trunc q) then rat_trunc q else - (2 ^ 63))"
| "fl_to_int x = - (2 ^ 63)"

text \<open>
  \<open>byte(x)\<close> for a \<open>float32\<close>: through a 32-bit conversion (CVTTSS2SL), of which the low eight
  bits are kept; NaN and values outside 32 bits give the integer indefinite, whose low byte
  is 0.
\<close>

fun fl_to_byte :: "fl \<Rightarrow> u8" where
  "fl_to_byte (Fin q) =
     (let n = rat_trunc q in if - (2 ^ 31) \<le> n \<and> n < 2 ^ 31 then word_of_int n else 0)"
| "fl_to_byte x = 0"

lemma fl_to_byte_Fin: "0 \<le> q \<Longrightarrow> q < 256 \<Longrightarrow> uint (fl_to_byte (Fin q)) = \<lfloor>q\<rfloor>"
proof -
  assume q: "0 \<le> q" "q < 256"
  have f: "0 \<le> \<lfloor>q\<rfloor>" "\<lfloor>q\<rfloor> < 256" using q by (simp_all add: floor_less_iff)
  then show ?thesis using q(1) by (simp add: rat_trunc_def uint_word_of_int)
qed

text \<open>The value of a byte as a \<open>float32\<close>.\<close>

definition fl_of_byte :: "u8 \<Rightarrow> fl" where
  "fl_of_byte b = Fin (of_int (uint b))"

section \<open>Square root\<close>

function isqrt :: "int \<Rightarrow> int" where
  "isqrt n = (if n \<le> 0 then 0
     else let r = 2 * isqrt (n div 4) in if (r + 1) * (r + 1) \<le> n then r + 1 else r)"
  by pat_completeness auto
termination
  by (relation "measure nat") auto

declare isqrt.simps [simp del]

lemma isqrt_nonneg [simp]: "0 \<le> isqrt n"
proof (induction n rule: isqrt.induct)
  case (1 n)
  then show ?case by (simp add: isqrt.simps [of n] Let_def)
qed

lemma isqrt_0 [simp]: "isqrt 0 = 0"
  by (simp add: isqrt.simps)

lemma isqrt_spec: "0 \<le> n \<Longrightarrow> isqrt n * isqrt n \<le> n \<and> n < (isqrt n + 1) * (isqrt n + 1)"
proof (induction n rule: isqrt.induct)
  case (1 n)
  show ?case
  proof (cases "n = 0")
    case False
    with "1.prems" have pos: "\<not> n \<le> 0" by simp
    define s where "s = isqrt (n div 4)"
    have s: "s * s \<le> n div 4" "n div 4 < (s + 1) * (s + 1)"
      using "1.IH" [OF pos] pos by (simp_all add: s_def)
    have "4 * (s * s) \<le> n" using s(1) by linarith
    moreover have "n < 4 * ((s + 1) * (s + 1))" using s(2) by linarith
    ultimately show ?thesis
      using pos by (simp add: isqrt.simps [of n] Let_def s_def [symmetric] algebra_simps)
  qed (simp add: isqrt.simps)
qed

text \<open>
  \<open>math.Sqrt\<close> is correctly rounded. For a positive \<open>q\<close> with \<open>2\<^sup>k \<le> \<surd>q < 2\<^sup>k\<^sup>+\<^sup>1\<close> the result has spacing
  \<open>2\<^sup>k\<^sup>-\<^sup>5\<^sup>2\<close>: take the integer root at that scale and round it to nearest.
\<close>

definition fl_sqrt64 :: "rat \<Rightarrow> rat" where
  "fl_sqrt64 q = (if q \<le> 0 then 0
     else let u = ilog2 q div 2 - 52;
              t = q / pow2 (2 * u);
              s = isqrt \<lfloor>t\<rfloor>;
              m = (of_int s + 1 / 2) * (of_int s + 1 / 2);
              r = (if t < m then s else if m < t then s + 1 else if even s then s else s + 1)
          in of_int r * pow2 u)"

text \<open>
  Rounding does not disturb the integer part of the root of a moderate integer: truncating
  \<open>math.Sqrt\<close> is the integer square root.
\<close>

lemma isqrt_le_iff: "0 \<le> n \<Longrightarrow> 0 \<le> a \<Longrightarrow> a \<le> isqrt n \<longleftrightarrow> a * a \<le> n"
proof -
  assume n: "0 \<le> n" and a: "0 \<le> a"
  have "a * a \<le> n" if "a \<le> isqrt n"
    using mult_mono [OF that that] a isqrt_spec [OF n] by simp
  moreover have "a \<le> isqrt n" if "a * a \<le> n"
  proof (rule ccontr)
    assume "\<not> a \<le> isqrt n"
    then have "(isqrt n + 1) * (isqrt n + 1) \<le> a * a" using a by (intro mult_mono) simp_all
    with that isqrt_spec [OF n] show False by simp
  qed
  ultimately show ?thesis by blast
qed

lemma trunc_sqrt_scaled:
  fixes n b :: int
  assumes n: "0 < n" and b: "isqrt n + 1 \<le> b"
    and r: "r = isqrt (n * (b * b)) \<or> r = isqrt (n * (b * b)) + 1 \<and>
      isqrt (n * (b * b)) * isqrt (n * (b * b)) + isqrt (n * (b * b)) < n * (b * b)"
  shows "r div b = isqrt n"
proof -
  define a where "a = isqrt n"
  define s where "s = isqrt (n * (b * b))"
  have a0: "0 \<le> a" by (simp add: a_def)
  have bpos: "0 < b" using b a0 unfolding a_def by linarith
  have a: "a * a \<le> n" "n + 1 \<le> (a + 1) * (a + 1)"
    using isqrt_spec [of n] n by (simp_all add: a_def)
  have N: "0 \<le> n * (b * b)" using n by simp
  have "(a * b) * (a * b) \<le> n * (b * b)"
    using mult_right_mono [OF a(1), of "b * b"] by (simp add: algebra_simps)
  then have low: "a * b \<le> s" using N a0 bpos by (simp add: s_def isqrt_le_iff)
  define M where "M = (a + 1) * b"
  have NM: "n * (b * b) + b * b \<le> M * M"
    using mult_right_mono [OF a(2), of "b * b"] by (simp add: M_def algebra_simps)
  have sM: "s < M"
  proof (rule ccontr)
    assume "\<not> s < M"
    then have "M * M \<le> n * (b * b)"
      using N a0 bpos isqrt_le_iff [OF N, of M] by (simp add: M_def s_def)
    with NM bpos mult_pos_pos [OF bpos bpos] show False by linarith
  qed
  have "r < M"
  proof (cases "r = s")
    case False
    then have rs: "r = s + 1" and big: "s * s + s < n * (b * b)" using r by (auto simp: s_def)
    show ?thesis
    proof (rule ccontr)
      assume "\<not> r < M"
      with rs sM have s: "s = M - 1" by simp
      have "M * M - M < n * (b * b)" using big by (simp add: s algebra_simps)
      with NM have "b * b < M" by linarith
      then have "b < a + 1" using bpos by (simp add: M_def)
      with b show False by (simp add: a_def)
    qed
  qed (use sM in simp)
  moreover have "a * b \<le> r" using low r by (auto simp: s_def)
  ultimately have "0 \<le> r - a * b" "r - a * b < b" by (simp_all add: M_def algebra_simps)
  then have "r div b = a" by (intro int_div_pos_eq [of r b a "r - a * b"]) simp_all
  then show ?thesis by (simp add: a_def)
qed

lemma fl_sqrt64_trunc:
  fixes n :: int
  assumes "0 \<le> n" "n < 2 ^ 50"
  shows "0 \<le> fl_sqrt64 (of_int n)" and "\<lfloor>fl_sqrt64 (of_int n)\<rfloor> = isqrt n"
proof -
  have "0 \<le> fl_sqrt64 (of_int n) \<and> \<lfloor>fl_sqrt64 (of_int n)\<rfloor> = isqrt n"
  proof (cases "n = 0")
    case True
    then show ?thesis by (simp add: fl_sqrt64_def isqrt.simps)
  next
    case False
    with assms have n: "0 < n" by simp
    define u where "u = ilog2 (of_int n) div 2 - 52"
    have "pow2 (ilog2 (of_int n)) \<le> of_int n" using n by (intro ilog2_bounds) simp
    also have "(of_int n :: rat) < pow2 50"
      using assms(2) by (simp add: pow2_def of_int_less_iff [of n "2 ^ 50", symmetric] del: of_int_less_iff)
    finally have u: "u \<le> - 27" by (simp add: u_def)
    define b :: int where "b = 2 ^ nat (- u)"
    have bu: "pow2 u = 1 / of_int b" using u by (simp add: pow2_def b_def)
    have bpos: "0 < b" by (simp add: b_def)
    have t: "of_int n / pow2 (2 * u) = of_int (n * (b * b))"
    proof -
      have "pow2 (2 * u) = 1 / of_int b * (1 / of_int b)" by (simp only: mult_2 pow2_add bu)
      then show ?thesis by simp
    qed
    define s where "s = isqrt (n * (b * b))"
    define r where "r = (if of_int (n * (b * b)) < (of_int s + 1 / 2) * (of_int s + 1 / 2 :: rat) then s
      else if (of_int s + 1 / 2) * (of_int s + 1 / 2 :: rat) < of_int (n * (b * b)) then s + 1
      else if even s then s else s + 1)"
    have val: "fl_sqrt64 (of_int n) = of_int r / of_int b"
      unfolding fl_sqrt64_def Let_def u_def [symmetric] t floor_of_int s_def [symmetric] r_def [symmetric] bu
      using n by simp
    have r: "r = s \<or> r = s + 1 \<and> s * s + s < n * (b * b)"
    proof (cases "of_int (n * (b * b)) < (of_int s + 1 / 2) * (of_int s + 1 / 2 :: rat)")
      case False
      then have "of_int (s * s + s) < (of_int (n * (b * b)) :: rat)"
        by (simp add: algebra_simps)
      then have "s * s + s < n * (b * b)" by (simp only: of_int_less_iff)
      then show ?thesis by (auto simp: r_def)
    qed (simp add: r_def)
    have "(2 ^ 25 :: int) \<le> b" unfolding b_def by (rule power_increasing) (use u in simp_all)
    moreover have "isqrt n < 2 ^ 25"
      using isqrt_le_iff [of n "2 ^ 25"] assms by simp
    ultimately have "r div b = isqrt n"
      using r by (intro trunc_sqrt_scaled [OF n]) (simp_all add: s_def)
    moreover have "0 \<le> r" using r by (auto simp: s_def)
    ultimately show ?thesis
      using bpos by (simp add: val floor_divide_of_int_eq)
  qed
  then show "0 \<le> fl_sqrt64 (of_int n)" and "\<lfloor>fl_sqrt64 (of_int n)\<rfloor> = isqrt n" by simp_all
qed

fun fl_sqrt :: "fl \<Rightarrow> fl" where
  "fl_sqrt (Fin q) = (if q < 0 then NaN else Fin (fl_sqrt64 q))"
| "fl_sqrt (Inf s) = (if s then NaN else Inf s)"
| "fl_sqrt NaN = NaN"

end
