(* ===== verification/Proto.thy ===== *)
theory Proto
  imports Go_Text Go_Float "HOL-Library.Signed_Division"
begin

text \<open>
  The messages of \<open>proto/streaming.proto\<close> as the generated Go types hold them
  (\<open>gateway/proto/streaming.pb.go\<close>; the processor has the same file). The enumerations are open: a
  message may carry any \<open>int32\<close>. A pointer to a message is an \<open>option\<close>. The fields
  \<open>float32\<close> and \<open>float64\<close> hold values of \<^typ>\<open>fl\<close>.
\<close>

type_synonym MediaType = i32
type_synonym FilterType = i32

abbreviation MEDIA_TYPE_UNSPECIFIED :: MediaType where "MEDIA_TYPE_UNSPECIFIED \<equiv> 0"
abbreviation MEDIA_TYPE_VIDEO :: MediaType where "MEDIA_TYPE_VIDEO \<equiv> 1"
abbreviation MEDIA_TYPE_AUDIO :: MediaType where "MEDIA_TYPE_AUDIO \<equiv> 2"
abbreviation MEDIA_TYPE_IMAGE :: MediaType where "MEDIA_TYPE_IMAGE \<equiv> 3"

abbreviation FILTER_TYPE_UNSPECIFIED :: FilterType where "FILTER_TYPE_UNSPECIFIED \<equiv> 0"
abbreviation FILTER_TYPE_GAUSSIAN_BLUR :: FilterType where "FILTER_TYPE_GAUSSIAN_BLUR \<equiv> 1"
abbreviation FILTER_TYPE_SHARPEN :: FilterType where "FILTER_TYPE_SHARPEN \<equiv> 2"
abbreviation FILTER_TYPE_EDGE_DETECT :: FilterType where "FILTER_TYPE_EDGE_DETECT \<equiv> 3"
abbreviation FILTER_TYPE_GRAYSCALE :: FilterType where "FILTER_TYPE_GRAYSCALE \<equiv> 4"

record ProcessingParams =
  pp_Filter :: FilterType
  pp_BlurRadius :: fl
  pp_Intensity :: fl

record MediaChunk =
  mc_Data :: bytes
  mc_Type :: MediaType
  mc_Width :: i32
  mc_Height :: i32
  mc_Codec :: string
  mc_SequenceId :: i64
  mc_TimestampNs :: i64
  mc_Params :: "ProcessingParams option"

record MemoryMetrics =
  mm_ArenaAllocatedBytes :: i64
  mm_ArenaUsedBytes :: i64
  mm_TotalAllocations :: i64
  mm_HeapUsedBytes :: i64

record ProcessedChunk =
  pc_Data :: bytes
  pc_Success :: bool
  pc_ProcessingTimeNs :: i64
  pc_SequenceId :: i64
  pc_ErrorMessage :: string
  pc_MemoryMetrics :: "MemoryMetrics option"

record StatsResponse =
  sr_TotalFramesProcessed :: i64
  sr_TotalProcessingTimeNs :: i64
  sr_AvgProcessingTimeMs :: fl
  sr_CurrentArenaSizeBytes :: i64
  sr_PeakArenaSizeBytes :: i64
  sr_TotalArenaAllocations :: i64
  sr_TotalArenaResets :: i64
  sr_FramesPerSecond :: fl

text \<open>A message with only its sequence id set.\<close>

definition blank_result :: "i64 \<Rightarrow> ProcessedChunk" where
  "blank_result sid = \<lparr>pc_Data = [], pc_Success = False, pc_ProcessingTimeNs = 0, pc_SequenceId = sid,
     pc_ErrorMessage = [], pc_MemoryMetrics = None\<rparr>"

section \<open>Conversions of counters and durations\<close>

text \<open>\<open>float64(n)\<close> for an \<open>int64\<close>.\<close>

definition float64_of :: "i64 \<Rightarrow> fl" where
  "float64_of n = fl_round F64 (of_int (sint n))"

lemma float64_of_exact: "\<bar>sint n\<bar> \<le> 2 ^ 53 \<Longrightarrow> float64_of n = Fin (of_int (sint n))"
  unfolding float64_of_def by (rule fl_round_int64)

text \<open>\<open>time.Duration.Seconds\<close>; the quotient and the remainder are truncated towards zero.\<close>

definition duration_seconds :: "i64 \<Rightarrow> fl" where
  "duration_seconds d =
     fl_add F64 (fl_round F64 (of_int (sint d sdiv 10 ^ 9)))
                (fl_div F64 (fl_round F64 (of_int (sint d smod 10 ^ 9))) (Fin (10 ^ 9)))"

end
