(* ===== verification/Image_Processor.thy ===== *)
theory Image_Processor
  imports Go_Float
begin

unbundle bit_operations_syntax

text \<open>
  The filters of the Go processor, \<open>processor-go/cmd/server/main.go\<close>: Gaussian blur,
  grayscale, sharpening and Sobel edge detection over RGB frames held as byte slices.

  The definitions follow the loops of the source, with every slice access checked. The
  lemmas replace each loop nest by the value of each pixel (the \<open>*_px\<close> definitions), show
  that no access panics for a frame whose size fits its dimensions, and bound the results.
  \<open>math.Exp\<close> is the parameter \<open>mexp\<close>; its result bits are platform dependent and only the
  documented special values are ever assumed of it.
\<close>

section \<open>Gaussian kernel\<close>

text \<open>\<open>kernelSize := int(math.Ceil(float64(radius)*6)) | 1\<close>, clamped to 3 and 31.\<close>

definition kernel_size :: "fl \<Rightarrow> int" where
  "kernel_size radius =
     (let k = fl_to_int (fl_ceil (fl_mul F64 (fl_conv F64 radius) (Fin 6))) OR 1;
          k = (if k < 3 then 3 else k)
      in if 31 < k then 31 else k)"

text \<open>First loop: the exponentials and their running sum.\<close>

definition kernel_exp :: "(fl \<Rightarrow> fl) \<Rightarrow> int \<Rightarrow> fl \<Rightarrow> int \<Rightarrow> fl" where
  "kernel_exp mexp half sigma2 i =
     (let x = fl_round F32 (of_int (i - half))
      in fl_conv F32 (mexp (fl_conv F64 (fl_div F32 (fl_mul F32 (fl_neg x) x) sigma2))))"

definition kernel_fill :: "(fl \<Rightarrow> fl) \<Rightarrow> int \<Rightarrow> fl \<Rightarrow> int \<Rightarrow> fl list \<times> fl \<Rightarrow> (fl list \<times> fl) option" where
  "kernel_fill mexp half sigma2 i st = (case st of (ker, acc) \<Rightarrow> do {
     ker \<leftarrow> put ker i (kernel_exp mexp half sigma2 i);
     v \<leftarrow> get ker i;
     Some (ker, fl_add F32 acc v) })"

text \<open>Second loop: normalisation in place.\<close>

definition kernel_norm :: "fl \<Rightarrow> int \<Rightarrow> fl list \<Rightarrow> fl list option" where
  "kernel_norm acc i ker = do { v \<leftarrow> get ker i; put ker i (fl_div F32 v acc) }"

definition generateGaussianKernel :: "(fl \<Rightarrow> fl) \<Rightarrow> fl list \<Rightarrow> fl \<Rightarrow> fl list option" where
  "generateGaussianKernel mexp ker sigma =
     (let size = int (length ker);
          half = size div 2;
          sigma2 = fl_mul F32 (fl_mul F32 (Fin 2) sigma) sigma
      in do {
        (ker, acc) \<leftarrow> for_loop 0 size (kernel_fill mexp half sigma2) (ker, Fin 0);
        for_loop 0 size (kernel_norm acc) ker })"

section \<open>Gaussian blur\<close>

definition clampToByte :: "fl \<Rightarrow> u8" where
  "clampToByte v = (if fl_less v (Fin 0) then 0 else if fl_less (Fin 255) v then 255 else fl_to_byte v)"

text \<open>The clamping of a tap's coordinate to the frame.\<close>

definition clamp_ix :: "int \<Rightarrow> int \<Rightarrow> int" where
  "clamp_ix n k = (let k = (if k < 0 then 0 else k) in if n \<le> k then n - 1 else k)"

type_synonym rgb = "fl \<times> fl \<times> fl"

text \<open>\<open>sum += value * kernel[k]\<close>, both operations rounded to \<open>float32\<close>.\<close>

definition mac :: "fl \<Rightarrow> fl \<Rightarrow> fl \<Rightarrow> fl" where
  "mac acc v k = fl_add F32 acc (fl_mul F32 v k)"

definition blur_tap_h :: "bytes \<Rightarrow> fl list \<Rightarrow> int \<Rightarrow> int \<Rightarrow> int \<Rightarrow> int \<Rightarrow> int \<Rightarrow> rgb \<Rightarrow> rgb option" where
  "blur_tap_h input ker width half y x k acc =
     (case acc of (sumR, sumG, sumB) \<Rightarrow>
      let kx = clamp_ix width (x - half + k);
          idx = (y * width + kx) * 3
      in if idx + 2 < int (length input) then do {
           r \<leftarrow> get input idx; g \<leftarrow> get input (idx + 1); b \<leftarrow> get input (idx + 2);
           w \<leftarrow> get ker k;
           Some (mac sumR (fl_of_byte r) w, mac sumG (fl_of_byte g) w, mac sumB (fl_of_byte b) w) }
         else Some (sumR, sumG, sumB))"

definition blur_tap_v :: "fl list \<Rightarrow> fl list \<Rightarrow> int \<Rightarrow> int \<Rightarrow> int \<Rightarrow> int \<Rightarrow> int \<Rightarrow> int \<Rightarrow> rgb \<Rightarrow> rgb option" where
  "blur_tap_v temp ker width height half y x k acc =
     (case acc of (sumR, sumG, sumB) \<Rightarrow>
      let ky = clamp_ix height (y - half + k);
          idx = (ky * width + x) * 3
      in if idx + 2 < int (length temp) then do {
           r \<leftarrow> get temp idx; g \<leftarrow> get temp (idx + 1); b \<leftarrow> get temp (idx + 2);
           w \<leftarrow> get ker k;
           Some (mac sumR r w, mac sumG g w, mac sumB b w) }
         else Some (sumR, sumG, sumB))"

text \<open>One pixel of the horizontal and of the vertical pass.\<close>

definition blur_px_h :: "bytes \<Rightarrow> fl list \<Rightarrow> int \<Rightarrow> int \<Rightarrow> int \<Rightarrow> int \<Rightarrow> fl list \<Rightarrow> fl list option" where
  "blur_px_h input ker kernelSize width y x temp = do {
     (sumR, sumG, sumB) \<leftarrow> for_loop 0 kernelSize
       (blur_tap_h input ker width (kernelSize div 2) y x) (Fin 0, Fin 0, Fin 0);
     let outIdx = (y * width + x) * 3;
     if outIdx + 2 < int (length temp) then put3 temp outIdx sumR sumG sumB else Some temp }"

definition blur_px_v :: "fl list \<Rightarrow> fl list \<Rightarrow> int \<Rightarrow> int \<Rightarrow> int \<Rightarrow> int \<Rightarrow> int \<Rightarrow> bytes \<Rightarrow> bytes option" where
  "blur_px_v temp ker kernelSize width height y x output = do {
     (sumR, sumG, sumB) \<leftarrow> for_loop 0 kernelSize
       (blur_tap_v temp ker width height (kernelSize div 2) y x) (Fin 0, Fin 0, Fin 0);
     let outIdx = (y * width + x) * 3;
     if outIdx + 2 < int (length output)
     then put3 output outIdx (clampToByte sumR) (clampToByte sumG) (clampToByte sumB)
     else Some output }"

text \<open>
  The method works on a kernel buffer \<open>buf\<close> taken from \<open>kernelPool\<close> and gives it back: the
  result is the output frame with the buffer as it is returned to the pool.
\<close>

definition GaussianBlur ::
  "(fl \<Rightarrow> fl) \<Rightarrow> fl list \<Rightarrow> bytes \<Rightarrow> int \<Rightarrow> int \<Rightarrow> fl \<Rightarrow> (bytes \<times> fl list) option" where
  "GaussianBlur mexp buf input width height radius = do {
     let size = wrap64 (width * height * 3);
     output \<leftarrow> make_slice size 0;
     temp \<leftarrow> make_slice size (Fin 0);
     let kernelSize = kernel_size radius;
     window \<leftarrow> slice_to buf kernelSize;
     window \<leftarrow> generateGaussianKernel mexp window radius;
     let ker = window @ drop (nat kernelSize) buf;
     temp \<leftarrow> for_loop 0 height (\<lambda>y. for_loop 0 width (blur_px_h input ker kernelSize width y)) temp;
     output \<leftarrow> for_loop 0 height
       (\<lambda>y. for_loop 0 width (blur_px_v temp ker kernelSize width height y)) output;
     Some (output, ker) }"

section \<open>Grayscale\<close>

text \<open>\<open>byte(0.299*float32(r) + 0.587*float32(g) + 0.114*float32(b))\<close>\<close>

definition gray_sum :: "u8 \<Rightarrow> u8 \<Rightarrow> u8 \<Rightarrow> fl" where
  "gray_sum r g b =
     fl_add F32 (fl_add F32 (fl_mul F32 (fl_round F32 (299 / 1000)) (fl_of_byte r))
                            (fl_mul F32 (fl_round F32 (587 / 1000)) (fl_of_byte g)))
                (fl_mul F32 (fl_round F32 (114 / 1000)) (fl_of_byte b))"

definition gray_of :: "u8 \<Rightarrow> u8 \<Rightarrow> u8 \<Rightarrow> u8" where
  "gray_of r g b = fl_to_byte (gray_sum r g b)"

definition grayscale_px :: "bytes \<Rightarrow> int \<Rightarrow> bytes \<Rightarrow> bytes option" where
  "grayscale_px input i output = (let idx = i * 3 in do {
     r \<leftarrow> get input idx; g \<leftarrow> get input (idx + 1); b \<leftarrow> get input (idx + 2);
     put3 output idx (gray_of r g b) (gray_of r g b) (gray_of r g b) })"

definition Grayscale :: "bytes \<Rightarrow> int \<Rightarrow> int \<Rightarrow> bytes option" where
  "Grayscale input width height =
     (let output = replicate (length input) 0; size = wrap64 (width * height)
      in for_loop 0 size (grayscale_px input) output)"

section \<open>Sharpening\<close>

definition sharpen_kernel :: "fl \<Rightarrow> fl list" where
  "sharpen_kernel intensity =
     [Fin 0, fl_neg intensity, Fin 0,
      fl_neg intensity, fl_add F32 (Fin 1) (fl_mul F32 (Fin 4) intensity), fl_neg intensity,
      Fin 0, fl_neg intensity, Fin 0]"

definition sharpen_sum :: "bytes \<Rightarrow> fl list \<Rightarrow> int \<Rightarrow> int \<Rightarrow> int \<Rightarrow> int \<Rightarrow> fl option" where
  "sharpen_sum input ker width y x c =
     for_loop (- 1) 2 (\<lambda>ky. for_loop (- 1) 2 (\<lambda>kx acc. do {
       let idx = ((y + ky) * width + (x + kx)) * 3;
       v \<leftarrow> get input (idx + c);
       w \<leftarrow> get ker ((ky + 1) * 3 + (kx + 1));
       Some (mac acc (fl_of_byte v) w) })) (Fin 0)"

definition sharpen_px :: "bytes \<Rightarrow> fl list \<Rightarrow> int \<Rightarrow> int \<Rightarrow> int \<Rightarrow> bytes \<Rightarrow> bytes option" where
  "sharpen_px input ker width y x output =
     for_loop 0 3 (\<lambda>c output. do {
       acc \<leftarrow> sharpen_sum input ker width y x c;
       let outIdx = (y * width + x) * 3;
       put output (outIdx + c) (clampToByte acc) }) output"

definition Sharpen :: "bytes \<Rightarrow> int \<Rightarrow> int \<Rightarrow> fl \<Rightarrow> bytes option" where
  "Sharpen input width height intensity =
     (let output = replicate (length input) 0; ker = sharpen_kernel intensity
      in for_loop 1 (height - 1) (\<lambda>y. for_loop 1 (width - 1) (sharpen_px input ker width y)) output)"

section \<open>Edge detection\<close>

definition edge_gray :: "bytes \<Rightarrow> int \<Rightarrow> int \<Rightarrow> bytes option" where
  "edge_gray input width height = do {
     gray \<leftarrow> make_slice (wrap64 (width * height)) 0;
     for_loop 0 (wrap64 (width * height)) (\<lambda>i gray. let idx = i * 3 in do {
       r \<leftarrow> get input idx; g \<leftarrow> get input (idx + 1); b \<leftarrow> get input (idx + 2);
       put gray i (gray_of r g b) }) gray }"

definition sobelX :: "int list" where
  "sobelX = [-1, 0, 1, -2, 0, 2, -1, 0, 1]"

definition sobelY :: "int list" where
  "sobelY = [-1, -2, -1, 0, 0, 0, 1, 2, 1]"

definition sobel_sums :: "bytes \<Rightarrow> int \<Rightarrow> int \<Rightarrow> int \<Rightarrow> (int \<times> int) option" where
  "sobel_sums gray width y x =
     for_loop (- 1) 2 (\<lambda>ky. for_loop (- 1) 2 (\<lambda>kx (gx, gy). do {
       pixel \<leftarrow> get gray ((y + ky) * width + (x + kx));
       sx \<leftarrow> get sobelX ((ky + 1) * 3 + (kx + 1));
       sy \<leftarrow> get sobelY ((ky + 1) * 3 + (kx + 1));
       Some (gx + uint pixel * sx, gy + uint pixel * sy) })) (0, 0)"

text \<open>\<open>int(math.Sqrt(float64(gx*gx + gy*gy)))\<close>, cut at 255.\<close>

definition sobel_magnitude :: "int \<Rightarrow> int \<Rightarrow> int" where
  "sobel_magnitude gx gy =
     (let magnitude = fl_to_int (fl_sqrt (fl_round F64 (of_int (gx * gx + gy * gy))))
      in if 255 < magnitude then 255 else magnitude)"

definition edge_px :: "bytes \<Rightarrow> int \<Rightarrow> int \<Rightarrow> int \<Rightarrow> bytes \<Rightarrow> bytes option" where
  "edge_px gray width y x output = do {
     (gx, gy) \<leftarrow> sobel_sums gray width y x;
     let m = word_of_int (sobel_magnitude gx gy);
     put3 output ((y * width + x) * 3) m m m }"

definition EdgeDetect :: "bytes \<Rightarrow> int \<Rightarrow> int \<Rightarrow> bytes option" where
  "EdgeDetect input width height = do {
     let output = replicate (length input) 0;
     gray \<leftarrow> edge_gray input width height;
     for_loop 1 (height - 1) (\<lambda>y. for_loop 1 (width - 1) (edge_px gray width y)) output }"

section \<open>The kernel in closed form\<close>

lemma kernel_size_bounds: "3 \<le> kernel_size r" "kernel_size r \<le> 31" and kernel_size_odd: "odd (kernel_size r)"
  by (auto simp: kernel_size_def Let_def even_or_iff)

definition gaussian_weights :: "(fl \<Rightarrow> fl) \<Rightarrow> int \<Rightarrow> fl \<Rightarrow> fl list" where
  "gaussian_weights mexp n sigma =
     (let es = map (kernel_exp mexp (n div 2) (fl_mul F32 (fl_mul F32 (Fin 2) sigma) sigma)) [0..n - 1];
          total = foldl (fl_add F32) (Fin 0) es
      in map (\<lambda>e. fl_div F32 e total) es)"

lemma length_gaussian_weights [simp]: "length (gaussian_weights mexp n s) = nat n"
  by (simp add: gaussian_weights_def Let_def)

lemma kernel_fill_loop:
  assumes "length ker = n"
  shows "for_loop 0 (int n) (kernel_fill mexp half s2) (ker, Fin 0) =
    Some (map (kernel_exp mexp half s2) [0..int n - 1],
          foldl (fl_add F32) (Fin 0) (map (kernel_exp mexp half s2) [0..int n - 1]))"
proof -
  let ?e = "kernel_exp mexp half s2"
  define P where "P j st \<longleftrightarrow> length (fst st) = n \<and> (\<forall>k < n. int k < j \<longrightarrow> fst st ! k = ?e (int k)) \<and>
    snd st = foldl (fl_add F32) (Fin 0) (map ?e [0..j - 1])" for j and st :: "fl list \<times> fl"
  have "P 0 (ker, Fin 0)" using assms by (simp add: P_def)
  moreover have "\<exists>st'. kernel_fill mexp half s2 j st = Some st' \<and> P (j + 1) st'"
    if j: "0 \<le> j" "j < int n" and P: "P j st" for j st
  proof -
    obtain k acc where st: "st = (k, acc)" by (cases st)
    have k: "length k = n" using P by (simp add: P_def st)
    have "kernel_fill mexp half s2 j st = Some (k[nat j := ?e j], fl_add F32 acc (?e j))"
      using j k by (simp add: kernel_fill_def st go_simps)
    moreover have "[0..j] = [0..j - 1] @ [j]" using j by (simp add: upto_rec2)
    then have "P (j + 1) (k[nat j := ?e j], fl_add F32 acc (?e j))"
      using P j by (auto simp: P_def st nth_list_update)
    ultimately show ?thesis by blast
  qed
  ultimately obtain st where st: "for_loop 0 (int n) (kernel_fill mexp half s2) (ker, Fin 0) = Some st"
    "P (max 0 (int n)) st"
    using for_loop_rule [of P 0 "(ker, Fin 0)" "int n"] by blast
  have "fst st = map ?e [0..int n - 1]"
    using st(2) by (intro nth_equalityI) (auto simp: P_def)
  then show ?thesis using st by (cases st) (simp add: P_def)
qed

lemma generateGaussianKernel_eq:
  "generateGaussianKernel mexp ker sigma = Some (gaussian_weights mexp (int (length ker)) sigma)"
proof -
  let ?n = "length ker"
  let ?es = "map (kernel_exp mexp (int ?n div 2) (fl_mul F32 (fl_mul F32 (Fin 2) sigma) sigma)) [0..int ?n - 1]"
  let ?t = "foldl (fl_add F32) (Fin 0) ?es"
  have "for_loop 0 (int ?n) (kernel_norm ?t) ?es = Some (map (\<lambda>i. fl_div F32 (?es ! nat i) ?t) [0..int ?n - 1])"
    by (rule fill_loop) (simp_all add: kernel_norm_def go_simps)
  also have "map (\<lambda>i. fl_div F32 (?es ! nat i) ?t) [0..int ?n - 1] = map (\<lambda>e. fl_div F32 e ?t) ?es"
    by (rule nth_equalityI) simp_all
  finally show ?thesis
    by (simp add: generateGaussianKernel_def gaussian_weights_def Let_def kernel_fill_loop [OF refl])
qed

text \<open>The weights are symmetric about the centre, whatever \<open>math.Exp\<close> returns.\<close>

lemma kernel_exp_mirror:
  assumes "0 \<le> i" "i \<le> 2 * half" "half \<le> 2 ^ 24"
  shows "kernel_exp mexp half s2 (2 * half - i) = kernel_exp mexp half s2 i"
proof -
  have "fl_round F32 (of_int (i - half)) = Fin (of_int (i - half))"
    "fl_round F32 (of_int (2 * half - i - half)) = Fin (of_int (2 * half - i - half))"
    using assms by (intro fl_round_int32; simp)+
  then show ?thesis
    by (simp add: kernel_exp_def Let_def algebra_simps)
qed

lemma gaussian_weights_mirror:
  assumes "odd n" "0 < n" "n \<le> 31" "0 \<le> i" "i < n"
  shows "gaussian_weights mexp n s ! nat (n - 1 - i) = gaussian_weights mexp n s ! nat i"
proof -
  obtain h where h: "n = 2 * h + 1" using assms(1) by (elim oddE)
  have "kernel_exp mexp h s2 (2 * h - i) = kernel_exp mexp h s2 i" for s2
    by (rule kernel_exp_mirror) (use assms h in simp_all)
  then show ?thesis
    using assms h by (simp add: gaussian_weights_def Let_def)
qed

section \<open>The blur in closed form\<close>

text \<open>The weighted sum of the values \<open>v\<close> under the taps, accumulated from the left.\<close>

definition tap_sum :: "(int \<Rightarrow> fl) \<Rightarrow> fl list \<Rightarrow> fl" where
  "tap_sum v ws = fold (\<lambda>k s. mac s (v k) (ws ! nat k)) [0..int (length ws) - 1] (Fin 0)"

definition blur_h :: "bytes \<Rightarrow> fl list \<Rightarrow> int \<Rightarrow> int \<Rightarrow> int \<Rightarrow> int \<Rightarrow> fl" where
  "blur_h input ws w y x c =
     tap_sum (\<lambda>k. fl_of_byte (pixel input w y (clamp_ix w (x - int (length ws) div 2 + k)) c)) ws"

definition blur_v :: "bytes \<Rightarrow> fl list \<Rightarrow> int \<Rightarrow> int \<Rightarrow> int \<Rightarrow> int \<Rightarrow> int \<Rightarrow> u8" where
  "blur_v input ws w h y x c = clampToByte
     (tap_sum (\<lambda>k. blur_h input ws w (clamp_ix h (y - int (length ws) div 2 + k)) x c) ws)"

lemma clamp_ix_range: "0 < n \<Longrightarrow> 0 \<le> clamp_ix n k \<and> clamp_ix n k < n"
  by (auto simp: clamp_ix_def Let_def)

lemma blur_taps_h:
  assumes len: "int (length input) = w * h * 3" and yx: "0 \<le> y" "y < h" "0 < w"
    and ker: "\<And>k. 0 \<le> k \<Longrightarrow> k < int (length ws) \<Longrightarrow> ker ! nat k = ws ! nat k"
    and lenk: "length ws \<le> length ker" and half: "half = int (length ws) div 2"
  shows "for_loop 0 (int (length ws)) (blur_tap_h input ker w half y x) (Fin 0, Fin 0, Fin 0) =
    Some (blur_h input ws w y x 0, blur_h input ws w y x 1, blur_h input ws w y x 2)"
proof -
  let ?v = "\<lambda>c k. fl_of_byte (pixel input w y (clamp_ix w (x - half + k)) c)"
  let ?f = "\<lambda>k (r, g, b). (mac r (?v 0 k) (ws ! nat k), mac g (?v 1 k) (ws ! nat k), mac b (?v 2 k) (ws ! nat k))"
  have step: "blur_tap_h input ker w half y x k acc = Some (?f k acc)"
    if k: "0 \<le> k" "k < int (length ws)" for k acc
  proof -
    obtain r g b where acc: "acc = (r, g, b)" by (cases acc)
    note c = clamp_ix_range [OF yx(3), of "x - half + k"]
    have "0 \<le> y * w + clamp_ix w (x - half + k)"
      "(y * w + clamp_ix w (x - half + k)) * 3 + 2 < int (length input)"
      using pixel_index [of y h "clamp_ix w (x - half + k)" w] yx c len by simp_all
    then show ?thesis
      using k ker [OF k] lenk
      by (simp add: blur_tap_h_def acc Let_def go_simps pixel_def)
  qed
  have "for_loop 0 (int (length ws)) (blur_tap_h input ker w half y x) (Fin 0, Fin 0, Fin 0) =
    Some (fold ?f [0..int (length ws) - 1] (Fin 0, Fin 0, Fin 0))"
    by (rule for_loop_fold) (rule step)
  moreover have "fold ?f ks (r, g, b) =
    (fold (\<lambda>k s. mac s (?v 0 k) (ws ! nat k)) ks r, fold (\<lambda>k s. mac s (?v 1 k) (ws ! nat k)) ks g,
     fold (\<lambda>k s. mac s (?v 2 k) (ws ! nat k)) ks b)" for ks r g b
    by (induction ks arbitrary: r g b) simp_all
  ultimately show ?thesis by (simp only: blur_h_def tap_sum_def half)
qed

lemma blur_taps_v:
  assumes len: "int (length temp) = w * h * 3" and yx: "0 \<le> x" "x < w" "0 < h"
    and temp: "\<And>y c. 0 \<le> y \<Longrightarrow> y < h \<Longrightarrow> 0 \<le> c \<Longrightarrow> c < 3 \<Longrightarrow> pixel temp w y x c = t y c"
    and ker: "\<And>k. 0 \<le> k \<Longrightarrow> k < int (length ws) \<Longrightarrow> ker ! nat k = ws ! nat k"
    and lenk: "length ws \<le> length ker" and half: "half = int (length ws) div 2"
  shows "for_loop 0 (int (length ws)) (blur_tap_v temp ker w h half y x) (Fin 0, Fin 0, Fin 0) =
    Some (tap_sum (\<lambda>k. t (clamp_ix h (y - half + k)) 0) ws,
          tap_sum (\<lambda>k. t (clamp_ix h (y - half + k)) 1) ws,
          tap_sum (\<lambda>k. t (clamp_ix h (y - half + k)) 2) ws)"
proof -
  let ?v = "\<lambda>c k. t (clamp_ix h (y - half + k)) c"
  let ?f = "\<lambda>k (r, g, b). (mac r (?v 0 k) (ws ! nat k), mac g (?v 1 k) (ws ! nat k), mac b (?v 2 k) (ws ! nat k))"
  have step: "blur_tap_v temp ker w h half y x k acc = Some (?f k acc)"
    if k: "0 \<le> k" "k < int (length ws)" for k acc
  proof -
    obtain r g b where acc: "acc = (r, g, b)" by (cases acc)
    note c = clamp_ix_range [OF yx(3), of "y - half + k"]
    have "0 \<le> clamp_ix h (y - half + k) * w + x"
      "(clamp_ix h (y - half + k) * w + x) * 3 + 2 < int (length temp)"
      using pixel_index [of "clamp_ix h (y - half + k)" h x w] yx c len by simp_all
    then show ?thesis
      using k ker [OF k] lenk c temp [of "clamp_ix h (y - half + k)" 0]
        temp [of "clamp_ix h (y - half + k)" 1] temp [of "clamp_ix h (y - half + k)" 2]
      by (simp add: blur_tap_v_def acc Let_def go_simps pixel_def)
  qed
  have "for_loop 0 (int (length ws)) (blur_tap_v temp ker w h half y x) (Fin 0, Fin 0, Fin 0) =
    Some (fold ?f [0..int (length ws) - 1] (Fin 0, Fin 0, Fin 0))"
    by (rule for_loop_fold) (rule step)
  moreover have "fold ?f ks (r, g, b) =
    (fold (\<lambda>k s. mac s (?v 0 k) (ws ! nat k)) ks r, fold (\<lambda>k s. mac s (?v 1 k) (ws ! nat k)) ks g,
     fold (\<lambda>k s. mac s (?v 2 k) (ws ! nat k)) ks b)" for ks r g b
    by (induction ks arbitrary: r g b) simp_all
  ultimately show ?thesis by (simp only: tap_sum_def half)
qed

lemma of_channels: "0 \<le> c \<Longrightarrow> c < 3 \<Longrightarrow> P 0 \<Longrightarrow> P 1 \<Longrightarrow> P 2 \<Longrightarrow> P (c :: int)"
proof -
  assume "0 \<le> c" "c < 3" and P: "P 0" "P 1" "P 2"
  then have "c = 0 \<or> c = 1 \<or> c = 2" by linarith
  with P show ?thesis by blast
qed

text \<open>The two passes over a frame whose length fits its dimensions.\<close>

lemma blur_pass_h:
  assumes len: "int (length input) = w * h * 3" "length temp = length input"
    and ker: "\<And>k. 0 \<le> k \<Longrightarrow> k < int (length ws) \<Longrightarrow> ker ! nat k = ws ! nat k"
    and lenk: "length ws \<le> length ker" and n: "n = int (length ws)"
  shows "\<exists>res. for_loop 0 h (\<lambda>y. for_loop 0 w (blur_px_h input ker n w y)) temp = Some res \<and>
    length res = length input \<and>
    (\<forall>y x c. 0 \<le> y \<longrightarrow> y < h \<longrightarrow> 0 \<le> x \<longrightarrow> x < w \<longrightarrow> 0 \<le> c \<longrightarrow> c < 3 \<longrightarrow>
      pixel res w y x c = blur_h input ws w y x c)"
proof -
  have body: "blur_px_h input ker n w y x xs =
      put3 xs ((y * w + x) * 3) (blur_h input ws w y x 0) (blur_h input ws w y x 1) (blur_h input ws w y x 2)"
    if "0 \<le> y" "y < h" "0 \<le> x" "x < w" "length xs = length input" for y x xs
    using that blur_taps_h [OF len(1), of y ws ker "n div 2" x] ker lenk pixel_index [of y h x w] len(1)
    by (simp add: blur_px_h_def n)
  show ?thesis
    using image_pixels [of 0 h 0 w "length input" "blur_px_h input ker n w" w
        "\<lambda>y x c. blur_h input ws w y x c" temp h] body len
    by simp
qed

lemma blur_pass_v:
  assumes len: "int (length temp) = w * h * 3" "length output = length temp"
    and temp: "\<And>y x c. 0 \<le> y \<Longrightarrow> y < h \<Longrightarrow> 0 \<le> x \<Longrightarrow> x < w \<Longrightarrow> 0 \<le> c \<Longrightarrow> c < 3 \<Longrightarrow>
      pixel temp w y x c = blur_h input ws w y x c"
    and ker: "\<And>k. 0 \<le> k \<Longrightarrow> k < int (length ws) \<Longrightarrow> ker ! nat k = ws ! nat k"
    and lenk: "length ws \<le> length ker" and n: "n = int (length ws)"
  shows "\<exists>res. for_loop 0 h (\<lambda>y. for_loop 0 w (blur_px_v temp ker n w h y)) output = Some res \<and>
    length res = length temp \<and>
    (\<forall>y x c. 0 \<le> y \<longrightarrow> y < h \<longrightarrow> 0 \<le> x \<longrightarrow> x < w \<longrightarrow> 0 \<le> c \<longrightarrow> c < 3 \<longrightarrow>
      pixel res w y x c = blur_v input ws w h y x c)"
proof -
  have body: "blur_px_v temp ker n w h y x xs =
      put3 xs ((y * w + x) * 3) (blur_v input ws w h y x 0) (blur_v input ws w h y x 1) (blur_v input ws w h y x 2)"
    if "0 \<le> y" "y < h" "0 \<le> x" "x < w" "length xs = length temp" for y x xs
    using that blur_taps_v [OF len(1), of x "\<lambda>y c. blur_h input ws w y x c" ws ker "n div 2" y]
      temp ker lenk pixel_index [of y h x w] len(1)
    by (simp add: blur_px_v_def blur_v_def n)
  show ?thesis
    using image_pixels [of 0 h 0 w "length temp" "blur_px_v temp ker n w h" w
        "\<lambda>y x c. blur_v input ws w h y x c" "output" h] body len
    by simp
qed

lemma GaussianBlur_eq:
  assumes len: "int (length input) = w * h * 3" and i64: "in_i64 (w * h * 3)" and buf: "length buf = 31"
  shows "\<exists>out buf'. GaussianBlur mexp buf input w h radius = Some (out, buf') \<and>
    length out = length input \<and> length buf' = 31 \<and>
    (\<forall>y x c. 0 \<le> y \<longrightarrow> y < h \<longrightarrow> 0 \<le> x \<longrightarrow> x < w \<longrightarrow> 0 \<le> c \<longrightarrow> c < 3 \<longrightarrow>
      pixel out w y x c =
        blur_v input (gaussian_weights mexp (kernel_size radius) radius) w h y x c)"
proof -
  let ?n = "kernel_size radius"
  let ?ws = "gaussian_weights mexp ?n radius"
  let ?ker = "?ws @ drop (nat ?n) buf"
  note n = kernel_size_bounds [of radius]
  have win: "slice_to buf ?n = Some (take (nat ?n) buf)" using n buf by (simp add: slice_to_def)
  have gen: "generateGaussianKernel mexp (take (nat ?n) buf) radius = Some ?ws"
  proof -
    have "int (length (take (nat ?n) buf)) = ?n" using n buf by simp
    then show ?thesis by (simp only: generateGaussianKernel_eq)
  qed
  have ker: "?ker ! nat k = ?ws ! nat k" if "0 \<le> k" "k < int (length ?ws)" for k
    using that n by (simp add: nth_append)
  have lenk: "length ?ws \<le> length ?ker" "?n = int (length ?ws)" using n by simp_all
  have z: "0 \<le> w * h * 3" using len by linarith
  have sz: "nat (w * h * 3) = length input" using len by linarith
  obtain temp where temp: "for_loop 0 h (\<lambda>y. for_loop 0 w (blur_px_h input ?ker ?n w y))
      (replicate (length input) (Fin 0)) = Some temp" "length temp = length input"
    and tpx: "\<And>y x c. 0 \<le> y \<Longrightarrow> y < h \<Longrightarrow> 0 \<le> x \<Longrightarrow> x < w \<Longrightarrow> 0 \<le> c \<Longrightarrow> c < 3 \<Longrightarrow>
      pixel temp w y x c = blur_h input ?ws w y x c"
    using blur_pass_h [OF len, of "replicate (length input) (Fin 0)" ?ws ?ker ?n] ker lenk by auto
  obtain out where out: "for_loop 0 h (\<lambda>y. for_loop 0 w (blur_px_v temp ?ker ?n w h y))
      (replicate (length input) 0) = Some out" "length out = length input"
    and opx: "\<And>y x c. 0 \<le> y \<Longrightarrow> y < h \<Longrightarrow> 0 \<le> x \<Longrightarrow> x < w \<Longrightarrow> 0 \<le> c \<Longrightarrow> c < 3 \<Longrightarrow>
      pixel out w y x c = blur_v input ?ws w h y x c"
    using blur_pass_v [of temp w h "replicate (length input) 0" input ?ws ?ker ?n] tpx ker lenk temp(2) len
    by auto
  have "GaussianBlur mexp buf input w h radius = Some (out, ?ker)"
    using temp(1) out(1) z
    by (simp add: GaussianBlur_def Let_def wrap64_id [OF i64] make_slice_Some win gen sz)
  moreover have "length ?ker = 31" using n buf by simp
  ultimately show ?thesis using out(2) opx by blast
qed

section \<open>Grayscale in closed form\<close>

text \<open>Channel \<open>c\<close> of the \<open>i\<close>-th pixel of a frame, counted from the start.\<close>

definition cell :: "'a list \<Rightarrow> int \<Rightarrow> int \<Rightarrow> 'a" where
  "cell xs i c = xs ! nat (i * 3 + c)"

lemma pixel_cell: "pixel xs w y x c = cell xs (y * w + x) c"
  by (simp add: pixel_def cell_def)

definition gray_at :: "bytes \<Rightarrow> int \<Rightarrow> u8" where
  "gray_at input i = gray_of (cell input i 0) (cell input i 1) (cell input i 2)"

lemma gray_reads:
  assumes "0 \<le> i" "i * 3 + 2 < int (length input)"
  shows "get input (i * 3) = Some (cell input i 0)" "get input (i * 3 + 1) = Some (cell input i 1)"
    "get input (i * 3 + 2) = Some (cell input i 2)"
  using assms by (simp_all add: go_simps cell_def)

lemma in_i64_third: "in_i64 (n * 3) \<Longrightarrow> in_i64 n"
  by (auto simp: in_i64_def)

lemma Grayscale_eq:
  assumes len: "int (length input) = w * h * 3" and i64: "in_i64 (w * h * 3)"
  shows "\<exists>out. Grayscale input w h = Some out \<and> length out = length input \<and>
    (\<forall>i c. 0 \<le> i \<longrightarrow> i < w * h \<longrightarrow> 0 \<le> c \<longrightarrow> c < 3 \<longrightarrow> cell out i c = gray_at input i)"
proof -
  have wr: "wrap64 (w * h) = w * h" using in_i64_third [OF i64] by (rule wrap64_id)
  let ?z = "replicate (length input) (0 :: u8)"
  obtain res where res: "for_loop 0 (w * h) (grayscale_px input) ?z = Some res"
      "length res = length input"
    and cells: "\<And>k. 0 \<le> k \<Longrightarrow> k < int (length input) \<Longrightarrow> res ! nat k =
      (if 0 \<le> k div 3 - 0 \<and> k div 3 - 0 < w * h then gray_at input (k div 3 - 0) else ?z ! nat k)"
    using row_loop [of 0 "w * h" "length input" "grayscale_px input" 0 "\<lambda>i c. gray_at input i" ?z]
    by (auto simp: grayscale_px_def Let_def gray_reads gray_at_def mult.commute [of 3] len)
  have "cell res i c = gray_at input i" if "0 \<le> i" "i < w * h" "0 \<le> c" "c < 3" for i c
  proof -
    have "(i * 3 + c) div 3 = i" using that by simp
    moreover have "i * 3 + c < int (length input)" using that len by linarith
    ultimately show ?thesis using cells [of "i * 3 + c"] that by (simp add: cell_def)
  qed
  then show ?thesis using res by (simp add: Grayscale_def Let_def wr)
qed

section \<open>Sharpening in closed form\<close>

lemma for_loop_around: "for_loop (- 1) 2 body s = do { s \<leftarrow> body (- 1) s; s \<leftarrow> body 0 s; body 1 s }"
  by (simp add: for_loop_step cong: Option.bind_cong)

lemma for_loop_channels: "for_loop 0 3 body s = do { s \<leftarrow> body 0 s; s \<leftarrow> body 1 s; body 2 s }"
  by (simp add: for_loop_step cong: Option.bind_cong)

text \<open>The nine neighbours in the order the loops visit them.\<close>

definition around :: "(int \<times> int) list" where
  "around = [(-1, -1), (-1, 0), (-1, 1), (0, -1), (0, 0), (0, 1), (1, -1), (1, 0), (1, 1)]"

definition sharpen_val :: "bytes \<Rightarrow> fl list \<Rightarrow> int \<Rightarrow> int \<Rightarrow> int \<Rightarrow> int \<Rightarrow> fl" where
  "sharpen_val input ker w y x c =
     foldl (\<lambda>s (ky, kx). mac s (fl_of_byte (pixel input w (y + ky) (x + kx) c)) (ker ! nat ((ky + 1) * 3 + (kx + 1))))
       (Fin 0) around"

lemma inner_read:
  assumes "int (length input) = w * h * 3" "1 \<le> y" "y < h - 1" "1 \<le> x" "x < w - 1" "0 \<le> c" "c < 3"
    and "ky \<in> {- 1, 0, 1}" "kx \<in> {- 1, 0, 1}"
  shows "get input (((y + ky) * w + (x + kx)) * 3 + c) = Some (pixel input w (y + ky) (x + kx) c)"
proof -
  have r: "0 \<le> y + ky" "y + ky < h" "0 \<le> x + kx" "x + kx < w" using assms by auto
  have "0 \<le> ((y + ky) * w + (x + kx)) * 3 + c" using pixel_index(1) [OF r] assms(6) by simp
  moreover have "((y + ky) * w + (x + kx)) * 3 + c < int (length input)"
    using pixel_index(2) [OF r] assms(1,7) by simp
  ultimately show ?thesis by (simp add: get_Some pixel_def)
qed

lemma sharpen_sum_eq:
  assumes "int (length input) = w * h * 3" "1 \<le> y" "y < h - 1" "1 \<le> x" "x < w - 1" "0 \<le> c" "c < 3"
    and "length ker = 9"
  shows "sharpen_sum input ker w y x c = Some (sharpen_val input ker w y x c)"
proof -
  note rd = inner_read [OF assms(1-7)]
  have k: "0 \<le> i \<Longrightarrow> i < 9 \<Longrightarrow> get ker i = Some (ker ! nat i)" for i
    using assms(8) by (simp add: get_Some)
  show ?thesis
    unfolding sharpen_sum_def for_loop_around sharpen_val_def around_def
    using rd [of "-1" "-1"] rd [of "-1" 0] rd [of "-1" 1] rd [of 0 "-1"] rd [of 0 0] rd [of 0 1]
      rd [of 1 "-1"] rd [of 1 0] rd [of 1 1]
    by (simp add: k Let_def)
qed

lemma sharpen_px_eq:
  assumes len: "int (length input) = w * h * 3" "length xs = length input"
    and yx: "1 \<le> y" "y < h - 1" "1 \<le> x" "x < w - 1" and ker: "length ker = 9"
  shows "sharpen_px input ker w y x xs = put3 xs ((y * w + x) * 3)
    (clampToByte (sharpen_val input ker w y x 0)) (clampToByte (sharpen_val input ker w y x 1))
    (clampToByte (sharpen_val input ker w y x 2))"
  using sharpen_sum_eq [OF len(1) yx _ _ ker, of 0] sharpen_sum_eq [OF len(1) yx _ _ ker, of 1]
    sharpen_sum_eq [OF len(1) yx _ _ ker, of 2]
  by (simp add: sharpen_px_def for_loop_channels put3_def Let_def)

text \<open>The interior of a frame: every pixel off the border.\<close>

definition interior :: "int \<Rightarrow> int \<Rightarrow> int \<Rightarrow> int \<Rightarrow> bool" where
  "interior w h y x \<longleftrightarrow> 1 \<le> y \<and> y < h - 1 \<and> 1 \<le> x \<and> x < w - 1"

lemma Sharpen_eq:
  assumes len: "int (length input) = w * h * 3"
  shows "\<exists>out. Sharpen input w h intensity = Some out \<and> length out = length input \<and>
    (\<forall>y x c. 0 \<le> y \<longrightarrow> y < h \<longrightarrow> 0 \<le> x \<longrightarrow> x < w \<longrightarrow> 0 \<le> c \<longrightarrow> c < 3 \<longrightarrow>
      pixel out w y x c = (if interior w h y x
        then clampToByte (sharpen_val input (sharpen_kernel intensity) w y x c) else 0))"
proof -
  let ?z = "replicate (length input) (0 :: u8)"
  have zero: "pixel ?z w y x c = 0" if "0 \<le> y" "y < h" "0 \<le> x" "x < w" "0 \<le> c" "c < 3" for y x c
    using pixel_index [OF that(1-4)] that(5,6) len by (simp add: pixel_def nat_less_iff)
  show ?thesis
    using image_pixels [of 1 "h - 1" 1 "w - 1" "length input" "sharpen_px input (sharpen_kernel intensity) w" w
        "\<lambda>y x c. clampToByte (sharpen_val input (sharpen_kernel intensity) w y x c)" ?z h]
      sharpen_px_eq [OF len] len zero
    by (auto simp: Sharpen_def Let_def interior_def sharpen_kernel_def)
qed

section \<open>Edge detection in closed form\<close>

definition sobel_gx :: "(int \<Rightarrow> int \<Rightarrow> int) \<Rightarrow> int \<Rightarrow> int \<Rightarrow> int" where
  "sobel_gx p y x = (p (y - 1) (x + 1) - p (y - 1) (x - 1)) + 2 * (p y (x + 1) - p y (x - 1))
     + (p (y + 1) (x + 1) - p (y + 1) (x - 1))"

definition sobel_gy :: "(int \<Rightarrow> int \<Rightarrow> int) \<Rightarrow> int \<Rightarrow> int \<Rightarrow> int" where
  "sobel_gy p y x = (p (y + 1) (x - 1) - p (y - 1) (x - 1)) + 2 * (p (y + 1) x - p (y - 1) x)
     + (p (y + 1) (x + 1) - p (y - 1) (x + 1))"

lemma edge_gray_eq:
  assumes len: "int (length input) = w * h * 3" and i64: "in_i64 (w * h * 3)"
  shows "edge_gray input w h = Some (map (gray_at input) [0..w * h - 1])"
proof -
  have wr: "wrap64 (w * h) = w * h" using in_i64_third [OF i64] by (rule wrap64_id)
  have pos: "0 \<le> w * h" using len by linarith
  let ?n = "nat (w * h)"
  have "for_loop 0 (int ?n) (\<lambda>i gray. let idx = i * 3 in do {
       r \<leftarrow> get input idx; g \<leftarrow> get input (idx + 1); b \<leftarrow> get input (idx + 2);
       put gray i (gray_of r g b) }) (replicate ?n 0) = Some (map (gray_at input) [0..int ?n - 1])"
    by (rule fill_loop) (use len pos in \<open>simp_all add: gray_reads gray_at_def Let_def\<close>)
  with pos show ?thesis by (simp add: edge_gray_def wr make_slice_Some)
qed

lemma sobel_sums_eq:
  assumes gray: "\<And>i. 0 \<le> i \<Longrightarrow> i < w * h \<Longrightarrow> get gray i = Some (p i)"
    and yx: "interior w h y x"
  shows "sobel_sums gray w y x =
    Some (sobel_gx (\<lambda>y x. uint (p (y * w + x))) y x, sobel_gy (\<lambda>y x. uint (p (y * w + x))) y x)"
proof -
  have rd: "get gray ((y + ky) * w + (x + kx)) = Some (p ((y + ky) * w + (x + kx)))"
    if "ky \<in> {- 1, 0, 1}" "kx \<in> {- 1, 0, 1}" for ky kx
  proof -
    have r: "0 \<le> y + ky" "y + ky < h" "0 \<le> x + kx" "x + kx < w"
      using yx that by (auto simp: interior_def)
    have "a * 3 + 2 < b * 3 \<Longrightarrow> a < b" for a b :: int by linarith
    from gray [OF pixel_index(1) [OF r] this [OF pixel_index(2) [OF r]]] show ?thesis .
  qed
  show ?thesis
    unfolding sobel_sums_def for_loop_around
    using rd [of "-1" "-1"] rd [of "-1" 0] rd [of "-1" 1] rd [of 0 "-1"] rd [of 0 0] rd [of 0 1]
      rd [of 1 "-1"] rd [of 1 0] rd [of 1 1]
    by (simp add: get_def sobelX_def sobelY_def sobel_gx_def sobel_gy_def)
qed

text \<open>The magnitude is the integer square root, cut at 255.\<close>

lemma sobel_magnitude_eq:
  assumes "gx * gx + gy * gy < 2 ^ 50"
  shows "sobel_magnitude gx gy = min 255 (isqrt (gx * gx + gy * gy))"
proof -
  let ?n = "gx * gx + gy * gy"
  have n: "0 \<le> ?n" by simp
  have "fl_round F64 (of_int ?n) = Fin (of_int ?n)"
    by (rule fl_round_int64) (use n assms in simp)
  moreover have "rat_trunc (fl_sqrt64 (of_int ?n)) = isqrt ?n"
    using fl_sqrt64_trunc [OF n assms] by (simp add: rat_trunc_def)
  moreover have "isqrt ?n < 2 ^ 25" using isqrt_le_iff [OF n, of "2 ^ 25"] assms by simp
  then have "in_i64 (isqrt ?n)" by (auto simp: in_i64_def intro: order_trans [OF _ isqrt_nonneg])
  moreover have "\<not> (of_int ?n :: rat) < 0" using n by (simp only: of_int_less_0_iff)
  ultimately have "fl_to_int (fl_sqrt (fl_round F64 (of_int ?n))) = isqrt ?n"
    by (simp only: fl_sqrt.simps fl_to_int.simps if_False if_True)
  then show ?thesis by (simp add: sobel_magnitude_def min_def Let_def)
qed

lemma sobel_bounds:
  assumes "\<And>y x. 0 \<le> p y x \<and> p y x \<le> 255"
  shows "\<bar>sobel_gx p y x\<bar> \<le> 1020" "\<bar>sobel_gy p y x\<bar> \<le> 1020"
  using assms [of "y - 1" "x - 1"] assms [of "y - 1" x] assms [of "y - 1" "x + 1"]
    assms [of y "x - 1"] assms [of y "x + 1"]
    assms [of "y + 1" "x - 1"] assms [of "y + 1" x] assms [of "y + 1" "x + 1"]
  by (simp_all add: sobel_gx_def sobel_gy_def abs_le_iff)

lemma sobel_sum_bound:
  assumes "\<And>y x. 0 \<le> p y x \<and> p y x \<le> 255"
  shows "sobel_gx p y x * sobel_gx p y x + sobel_gy p y x * sobel_gy p y x < 2 ^ 50"
proof -
  have "a * a \<le> 1020 * 1020" if "\<bar>a\<bar> \<le> 1020" for a :: int
    using mult_mono [OF that that] by (simp add: abs_mult_self_eq)
  from this [OF sobel_bounds(1) [of p y x, OF assms]] this [OF sobel_bounds(2) [of p y x, OF assms]]
  show ?thesis by simp
qed

definition edge_val :: "bytes \<Rightarrow> int \<Rightarrow> int \<Rightarrow> int \<Rightarrow> int" where
  "edge_val input w y x =
     (let p = (\<lambda>y x. uint (gray_at input (y * w + x)));
          gx = sobel_gx p y x; gy = sobel_gy p y x
      in min 255 (isqrt (gx * gx + gy * gy)))"

lemma edge_px_eq:
  assumes gray: "\<And>i. 0 \<le> i \<Longrightarrow> i < w * h \<Longrightarrow> get gray i = Some (gray_at input i)"
    and yx: "interior w h y x"
  shows "edge_px gray w y x xs = (let m = word_of_int (edge_val input w y x)
    in put3 xs ((y * w + x) * 3) m m m)"
proof -
  have "0 \<le> uint b \<and> uint b \<le> 255" for b :: u8 using uint_u8_range by simp
  note sobel_sum_bound [of "\<lambda>y x. uint (gray_at input (y * w + x))" y x, OF this]
  then show ?thesis
    by (simp add: edge_px_def sobel_sums_eq [OF gray yx] edge_val_def Let_def sobel_magnitude_eq)
qed

lemma EdgeDetect_eq:
  assumes len: "int (length input) = w * h * 3" and i64: "in_i64 (w * h * 3)"
  shows "\<exists>out. EdgeDetect input w h = Some out \<and> length out = length input \<and>
    (\<forall>y x c. 0 \<le> y \<longrightarrow> y < h \<longrightarrow> 0 \<le> x \<longrightarrow> x < w \<longrightarrow> 0 \<le> c \<longrightarrow> c < 3 \<longrightarrow>
      pixel out w y x c = (if interior w h y x then word_of_int (edge_val input w y x) else 0))"
proof -
  let ?z = "replicate (length input) (0 :: u8)"
  let ?g = "map (gray_at input) [0..w * h - 1]"
  have zero: "pixel ?z w y x c = 0" if "0 \<le> y" "y < h" "0 \<le> x" "x < w" "0 \<le> c" "c < 3" for y x c
    using pixel_index [OF that(1-4)] that(5,6) len by (simp add: pixel_def nat_less_iff)
  have gray: "get ?g i = Some (gray_at input i)" if "0 \<le> i" "i < w * h" for i
    using that by (simp add: get_Some)
  have body: "edge_px ?g w y x xs = put3 xs ((y * w + x) * 3) (word_of_int (edge_val input w y x))
      (word_of_int (edge_val input w y x)) (word_of_int (edge_val input w y x))"
    if "1 \<le> y" "y < h - 1" "1 \<le> x" "x < w - 1" for y x xs
    using edge_px_eq [of w h ?g input y x xs] gray that by (simp add: interior_def Let_def)
  show ?thesis
    using image_pixels [of 1 "h - 1" 1 "w - 1" "length input" "edge_px ?g w" w
        "\<lambda>y x c. word_of_int (edge_val input w y x)" ?z h] body len zero
    by (auto simp: EdgeDetect_def edge_gray_eq [OF len i64] interior_def)
qed

section \<open>Bounds of the grayscale conversion\<close>

lemma gray_coefficients:
  "fl_round F32 (299 / 1000) = Fin (10032775 / 33554432)"
  "fl_round F32 (587 / 1000) = Fin (4924113 / 8388608)"
  "fl_round F32 (114 / 1000) = Fin (15300821 / 134217728)"
  by code_simp+

text \<open>One rounding of a value below 256 moves it by at most \<open>2\<^sup>-\<^sup>1\<^sup>7\<close>.\<close>

lemma round32_below_256:
  assumes "0 \<le> a" "a < 256"
  shows "\<exists>r. fl_round F32 a = Fin r \<and> 0 \<le> r \<and> a - 1 / 131072 \<le> r \<and> r \<le> a + 1 / 131072"
proof -
  have "a < pow2 (7 + 1)" using assms(2) by (simp add: pow2_def)
  from fl_round_error [OF assms(1) this, of F32]
  obtain r where "fl_round F32 a = Fin r" "0 \<le> r" "\<bar>r - a\<bar> \<le> 1 / 131072"
    by (auto simp: pow2_def)
  then have "r - a \<le> 1 / 131072" "- (r - a) \<le> 1 / 131072" by (simp_all only: abs_le_iff)
  then have "a - 1 / 131072 \<le> r" "r \<le> a + 1 / 131072" by linarith+
  with \<open>fl_round F32 a = Fin r\<close> \<open>0 \<le> r\<close> show ?thesis by blast
qed

lemma u8_rat: "0 \<le> (of_int (uint (b :: u8)) :: rat)" "(of_int (uint (b :: u8)) :: rat) \<le> 255"
proof -
  have "(of_int 0 :: rat) \<le> of_int (uint b)" "(of_int (uint b) :: rat) \<le> of_int 255"
    using uint_u8_range [of b] by (simp_all only: of_int_le_iff)
  then show "0 \<le> (of_int (uint b) :: rat)" "(of_int (uint b) :: rat) \<le> 255"
    by (simp_all only: of_int_0 of_int_numeral)
qed

lemma gray_sum_close:
  defines "luma r g b \<equiv> 299 / 1000 * of_int (uint r) + 587 / 1000 * of_int (uint g) + 114 / 1000 * of_int (uint b)"
  shows "\<exists>q. gray_sum r g b = Fin q \<and> 0 \<le> q \<and> q < 256 \<and> luma r g b - 1 / 10000 < q \<and> q < luma r g b + 1 / 10000"
proof -
  let ?r = "of_int (uint r) :: rat" and ?g = "of_int (uint g) :: rat" and ?b = "of_int (uint b) :: rat"
  have rng: "0 \<le> ?r" "?r \<le> 255" "0 \<le> ?g" "?g \<le> 255" "0 \<le> ?b" "?b \<le> 255"
    by (rule u8_rat)+
  obtain p1 where p1: "fl_round F32 (10032775 / 33554432 * ?r) = Fin p1" "0 \<le> p1"
      "10032775 / 33554432 * ?r - 1 / 131072 \<le> p1" "p1 \<le> 10032775 / 33554432 * ?r + 1 / 131072"
    using round32_below_256 [of "10032775 / 33554432 * ?r"] rng by auto
  obtain p2 where p2: "fl_round F32 (4924113 / 8388608 * ?g) = Fin p2" "0 \<le> p2"
      "4924113 / 8388608 * ?g - 1 / 131072 \<le> p2" "p2 \<le> 4924113 / 8388608 * ?g + 1 / 131072"
    using round32_below_256 [of "4924113 / 8388608 * ?g"] rng by auto
  obtain p3 where p3: "fl_round F32 (15300821 / 134217728 * ?b) = Fin p3" "0 \<le> p3"
      "15300821 / 134217728 * ?b - 1 / 131072 \<le> p3" "p3 \<le> 15300821 / 134217728 * ?b + 1 / 131072"
    using round32_below_256 [of "15300821 / 134217728 * ?b"] rng by auto
  have "p1 + p2 < 256" using p1 p2 rng by linarith
  then obtain s where s: "fl_round F32 (p1 + p2) = Fin s" "0 \<le> s" "p1 + p2 - 1 / 131072 \<le> s" "s \<le> p1 + p2 + 1 / 131072"
    using round32_below_256 [of "p1 + p2"] p1(2) p2(2) by auto
  have "s + p3 < 256" using s p1 p2 p3 rng by linarith
  then obtain q where q: "fl_round F32 (s + p3) = Fin q" "0 \<le> q" "s + p3 - 1 / 131072 \<le> q" "q \<le> s + p3 + 1 / 131072"
    using round32_below_256 [of "s + p3"] s(2) p3(2) by auto
  have "gray_sum r g b = Fin q"
    by (simp only: gray_sum_def fl_of_byte_def gray_coefficients fl_mul.simps fl_add.simps p1(1) p2(1) p3(1) s(1) q(1))
  moreover have "luma r g b - 1 / 10000 < q" unfolding luma_def using q s p1 p2 p3 rng by linarith
  moreover have "q < luma r g b + 1 / 10000" unfolding luma_def using q s p1 p2 p3 rng by linarith
  moreover have "q < 256" using q s p1 p2 p3 rng by linarith
  ultimately show ?thesis using q(2) by blast
qed

text \<open>In integers: the gray level is the luma rounded down, or one less where the luma is an integer.\<close>

lemma gray_of_luma:
  "1000 * uint (gray_of r g b) \<le> 299 * uint r + 587 * uint g + 114 * uint b"
  "299 * uint r + 587 * uint g + 114 * uint b \<le> 1000 * (uint (gray_of r g b) + 1)"
proof -
  let ?N = "299 * uint r + 587 * uint g + 114 * uint b"
  obtain q where q: "gray_sum r g b = Fin q" "0 \<le> q" "q < 256"
    "299 / 1000 * of_int (uint r) + 587 / 1000 * of_int (uint g) + 114 / 1000 * of_int (uint b) - 1 / 10000 < q"
    "q < 299 / 1000 * of_int (uint r) + 587 / 1000 * of_int (uint g) + 114 / 1000 * of_int (uint b) + 1 / 10000"
    using gray_sum_close [of r g b] by blast
  have u: "uint (gray_of r g b) = \<lfloor>q\<rfloor>" unfolding gray_of_def q(1) by (rule fl_to_byte_Fin [OF q(2,3)])
  have fl: "of_int \<lfloor>q\<rfloor> \<le> q" "q < of_int \<lfloor>q\<rfloor> + 1" by linarith+
  have N: "(of_int ?N :: rat) = 299 * of_int (uint r) + 587 * of_int (uint g) + 114 * of_int (uint b)"
    by (simp only: of_int_add of_int_mult of_int_numeral)
  have "(1000 * of_int \<lfloor>q\<rfloor> :: rat) < of_int ?N + 1" unfolding N using fl q(5) by linarith
  then have "(of_int (1000 * \<lfloor>q\<rfloor>) :: rat) < of_int (?N + 1)"
    by (simp only: of_int_add of_int_mult of_int_numeral of_int_1)
  then have "1000 * \<lfloor>q\<rfloor> < ?N + 1" by (simp only: of_int_less_iff)
  then show "1000 * uint (gray_of r g b) \<le> ?N" by (simp add: u)
  have "of_int ?N < (1000 * of_int \<lfloor>q\<rfloor> + 1001 :: rat)" unfolding N using fl q(4) by linarith
  then have "(of_int ?N :: rat) < of_int (1000 * \<lfloor>q\<rfloor> + 1001)"
    by (simp only: of_int_add of_int_mult of_int_numeral)
  then have "?N < 1000 * \<lfloor>q\<rfloor> + 1001" by (simp only: of_int_less_iff)
  then show "?N \<le> 1000 * (uint (gray_of r g b) + 1)" by (simp add: u)
qed

lemma gray_of_bounds:
  assumes "m \<le> uint r" "uint r \<le> n" "m \<le> uint g" "uint g \<le> n" "m \<le> uint b" "uint b \<le> n"
  shows "m - 1 \<le> uint (gray_of r g b)" "uint (gray_of r g b) \<le> n"
proof -
  have mean: "m - 1 \<le> l \<and> l \<le> n"
    if "1000 * l \<le> 299 * x + 587 * y + 114 * z" "299 * x + 587 * y + 114 * z \<le> 1000 * (l + 1)"
      "m \<le> x" "x \<le> n" "m \<le> y" "y \<le> n" "m \<le> z" "z \<le> n" for l x y z :: int
    using that by (simp add: algebra_simps)
  then show "m - 1 \<le> uint (gray_of r g b)" "uint (gray_of r g b) \<le> n"
    using mean [OF gray_of_luma assms] by simp_all
qed

section \<open>Sharpening with an integer intensity is exact\<close>

lemma mac_int:
  assumes "\<bar>a\<bar> + \<bar>v * k\<bar> \<le> 2 ^ 24"
  shows "mac (Fin (of_int a)) (Fin (of_int v)) (Fin (of_int k)) = Fin (of_int (a + v * k))"
proof -
  have "fl_round F32 (of_int (v * k)) = Fin (of_int (v * k))"
    "fl_round F32 (of_int (a + v * k)) = Fin (of_int (a + v * k))"
    using assms by (intro fl_round_int32; linarith)+
  then show ?thesis by (simp add: mac_def)
qed

lemma clampToByte_int: "clampToByte (Fin (of_int z)) = word_of_int (max 0 (min 255 z))"
proof -
  have "rat_trunc (of_int z) = z" if "0 \<le> z" using that by (simp add: rat_trunc_def)
  then show ?thesis by (auto simp: clampToByte_def max_def min_def not_less Let_def)
qed

text \<open>The discrete Laplacian of a channel, and the sharpened value it gives.\<close>

definition sharpen_int :: "int \<Rightarrow> (int \<Rightarrow> int \<Rightarrow> int) \<Rightarrow> int \<Rightarrow> int \<Rightarrow> int" where
  "sharpen_int n p y x = p y x + n * (4 * p y x - p (y - 1) x - p y (x - 1) - p y (x + 1) - p (y + 1) x)"

lemma sharpen_kernel_int:
  assumes "0 \<le> n" "n \<le> 8000"
  shows "sharpen_kernel (Fin (of_int n)) = map (Fin \<circ> of_int) [0, - n, 0, - n, 1 + 4 * n, - n, 0, - n, 0]"
proof -
  have "fl_round F32 (of_int (4 * n)) = Fin (of_int (4 * n))"
    "fl_round F32 (of_int (1 + 4 * n)) = Fin (of_int (1 + 4 * n))"
    using assms by (intro fl_round_int32; simp)+
  then show ?thesis by (simp add: sharpen_kernel_def)
qed

lemma mac_fold:
  assumes "\<bar>a\<bar> + 255 * (\<Sum>(v, k)\<leftarrow>vs. \<bar>k\<bar>) \<le> 2 ^ 24"
  shows "foldl (\<lambda>s (v, k). mac s (fl_of_byte v) (Fin (of_int k))) (Fin (of_int a)) vs =
    Fin (of_int (a + (\<Sum>(v, k)\<leftarrow>vs. uint v * k)))"
  using assms
proof (induction vs arbitrary: a)
  case (Cons vk vs)
  obtain v k where vk: "vk = (v, k)" by (cases vk)
  have v: "\<bar>uint v * k\<bar> \<le> 255 * \<bar>k\<bar>"
    using uint_u8_range [of v] by (simp add: abs_mult mult_right_mono)
  have pos: "0 \<le> (\<Sum>(v, k)\<leftarrow>vs. \<bar>k\<bar>)" by (induction vs) auto
  have "mac (Fin (of_int a)) (fl_of_byte v) (Fin (of_int k)) = Fin (of_int (a + uint v * k))"
    unfolding fl_of_byte_def by (rule mac_int) (use Cons.prems v pos in \<open>simp add: vk\<close>)
  moreover have "\<bar>a + uint v * k\<bar> + 255 * (\<Sum>(v, k)\<leftarrow>vs. \<bar>k\<bar>) \<le> 2 ^ 24"
    using Cons.prems v by (simp add: vk)
  ultimately show ?case
    using Cons.IH [of "a + uint v * k"] by (simp add: vk add.assoc)
qed simp

lemma sharpen_val_int:
  assumes n: "0 \<le> n" "n \<le> 8000"
  shows "sharpen_val input (sharpen_kernel (Fin (of_int n))) w y x c =
    Fin (of_int (sharpen_int n (\<lambda>y x. uint (pixel input w y x c)) y x))"
proof -
  let ?u = "\<lambda>ky kx. pixel input w (y + ky) (x + kx) c"
  let ?vs = "[(?u (-1) (-1), 0), (?u (-1) 0, - n), (?u (-1) 1, 0), (?u 0 (-1), - n), (?u 0 0, 1 + 4 * n),
    (?u 0 1, - n), (?u 1 (-1), 0), (?u 1 0, - n), (?u 1 1, 0)]"
  have "sharpen_val input (sharpen_kernel (Fin (of_int n))) w y x c =
      foldl (\<lambda>s (v, k). mac s (fl_of_byte v) (Fin (of_int k))) (Fin (of_int 0)) ?vs"
    by (simp add: sharpen_val_def around_def sharpen_kernel_int [OF n])
  also have "\<dots> = Fin (of_int (0 + (\<Sum>(v, k)\<leftarrow>?vs. uint v * k)))"
    by (rule mac_fold) (use n in simp)
  also have "0 + (\<Sum>(v, k)\<leftarrow>?vs. uint v * k) = sharpen_int n (\<lambda>y x. uint (pixel input w y x c)) y x"
    by (simp add: sharpen_int_def algebra_simps)
  finally show ?thesis .
qed

section \<open>The weights of a regular kernel\<close>

text \<open>
  What the documentation of \<open>math.Exp\<close> promises on the arguments the kernel uses: the
  exponential of a non-positive number lies between 0 and 1, of 0 it is 1, of \<open>-Inf\<close> it is 0.
\<close>

definition exp_contract :: "(fl \<Rightarrow> fl) \<Rightarrow> bool" where
  "exp_contract mexp \<longleftrightarrow> mexp (Fin 0) = Fin 1 \<and> mexp (Inf True) = Fin 0 \<and>
     (\<forall>q \<le> 0. \<exists>r. mexp (Fin q) = Fin r \<and> 0 \<le> r \<and> r \<le> 1)"

text \<open>A unit value: a finite number between 0 and 1.\<close>

definition unit_fl :: "fl \<Rightarrow> bool" where
  "unit_fl x \<longleftrightarrow> (\<exists>q. x = Fin q \<and> 0 \<le> q \<and> q \<le> 1)"

lemma round32_bounded:
  assumes "0 \<le> q" "q \<le> of_int b" "b \<le> 2 ^ 24"
  shows "\<exists>r. fl_round F32 q = Fin r \<and> 0 \<le> r \<and> r \<le> of_int b"
proof (rule fl_round_le [OF assms(1,2)])
  have b: "0 \<le> b" using order_trans [OF assms(1,2)] by simp
  then show "mag F32 (of_int b) = of_int b" using assms(3) by (intro mag_int) simp_all
  have "(of_int b :: rat) \<le> of_int (2 ^ 24)" using assms(3) by (simp only: of_int_le_iff)
  also have "\<dots> < pow2 (emax F32 + 1)" by (simp add: pow2_def)
  finally show "of_int b < pow2 (emax F32 + 1)" .
qed simp

lemma fl_round_sign: "q \<le> 0 \<Longrightarrow> fl_round F q = Inf True \<or> (\<exists>r \<le> 0. fl_round F q = Fin r)"
  by (auto simp: fl_round_def Let_def mag_nonneg)

text \<open>The parameter \<open>sigma2\<close> of the kernel is regular when it neither vanishes nor is NaN.\<close>

definition regular_sigma2 :: "fl \<Rightarrow> bool" where
  "regular_sigma2 s \<longleftrightarrow> s = Inf False \<or> (\<exists>q > 0. s = Fin q)"

lemma kernel_exp_unit:
  assumes "exp_contract mexp" and "regular_sigma2 s2" and "\<bar>i - half\<bar> \<le> 15"
  shows "unit_fl (kernel_exp mexp half s2 i)" and "i = half \<Longrightarrow> kernel_exp mexp half s2 i = Fin 1"
proof -
  let ?a = "i - half"
  have x: "fl_round F32 (of_int ?a) = Fin (of_int ?a)"
    by (rule fl_round_int32) (use assms(3) in simp)
  have "\<bar>?a\<bar> * \<bar>?a\<bar> \<le> 15 * 15" using assms(3) by (intro mult_mono) simp_all
  moreover have "\<bar>- ?a * ?a\<bar> = \<bar>?a\<bar> * \<bar>?a\<bar>" by (simp only: abs_mult abs_minus_cancel)
  ultimately have "\<bar>- ?a * ?a\<bar> \<le> 15 * 15" by (simp only:)
  then have "\<bar>- ?a * ?a\<bar> \<le> 2 ^ 24" by (rule order_trans) simp
  then have sq: "fl_round F32 (of_int (- ?a * ?a)) = Fin (of_int (- ?a * ?a))"
    by (rule fl_round_int32)
  have one: "fl_round F32 1 = Fin 1" using fl_round_int32 [of 1] by simp
  have neg: "- ?a * ?a \<le> 0" using zero_le_square [of ?a] by linarith
  let ?arg = "fl_conv F64 (fl_div F32 (Fin (of_int (- ?a * ?a))) s2)"
  have arg: "?arg = Inf True \<or> (\<exists>q \<le> 0. ?arg = Fin q)"
  proof (cases s2)
    case (Fin q)
    with assms(2) have q: "0 < q" by (simp add: regular_sigma2_def)
    have le: "of_int (- ?a * ?a) / q \<le> (0 :: rat)"
      using neg q by (simp only: of_int_le_0_iff divide_le_0_iff) simp
    have div: "fl_div F32 (Fin (of_int (- ?a * ?a))) s2 = fl_round F32 (of_int (- ?a * ?a) / q)"
      using Fin q by (simp del: of_int_mult of_int_minus)
    from fl_round_sign [OF le, of F32] show ?thesis
    proof (elim disjE exE conjE)
      fix r :: rat
      assume "r \<le> 0" and r: "fl_round F32 (of_int (- ?a * ?a) / q) = Fin r"
      from fl_round_sign [OF this(1), of F64] show ?thesis by (simp only: div r fl_conv.simps)
    qed (simp only: div fl_conv.simps simp_thms)
  next
    case (Inf t)
    then show ?thesis by (simp add: one)
  qed (use assms(2) in \<open>simp add: regular_sigma2_def\<close>)
  have e: "kernel_exp mexp half s2 i = fl_conv F32 (mexp ?arg)"
    using x sq by (simp add: kernel_exp_def Let_def)
  obtain r where r: "mexp ?arg = Fin r" "0 \<le> r" "r \<le> 1"
    using arg assms(1) by (auto simp: exp_contract_def)
  show "unit_fl (kernel_exp mexp half s2 i)"
    using round32_bounded [of r 1] r by (auto simp: e unit_fl_def)
  show "kernel_exp mexp half s2 i = Fin 1" if "i = half"
  proof -
    have "?arg = Fin 0" using that assms(2) one by (auto simp: regular_sigma2_def)
    then show ?thesis using assms(1) by (simp add: e exp_contract_def one)
  qed
qed

text \<open>The running sum of unit values: below the number of terms, and at least any term.\<close>

lemma unit_sum:
  assumes "\<forall>x \<in> set xs. unit_fl x" and "0 \<le> a" "a \<le> of_int m" "0 \<le> m" "m + int (length xs) \<le> 2 ^ 24"
  shows "\<exists>s. foldl (fl_add F32) (Fin a) xs = Fin s \<and> 0 \<le> s \<and> s \<le> of_int (m + int (length xs)) \<and>
    (1 \<le> a \<or> Fin 1 \<in> set xs \<longrightarrow> 1 \<le> s)"
  using assms
proof (induction xs arbitrary: a m)
  case (Cons x xs)
  obtain q where q: "x = Fin q" "0 \<le> q" "q \<le> 1" using Cons.prems(1) by (auto simp: unit_fl_def)
  obtain r where r: "fl_round F32 (a + q) = Fin r" "0 \<le> r" "r \<le> of_int (m + 1)"
    using round32_bounded [of "a + q" "m + 1"] Cons.prems q by auto
  have one: "1 \<le> r" if "1 \<le> a \<or> q = 1"
  proof -
    have "mag F32 (of_int 1) \<le> mag F32 (a + q)" using that q Cons.prems(2) by (intro mag_mono) auto
    moreover have "mag F32 (of_int 1) = of_int 1" by (rule mag_int) simp_all
    moreover have "0 \<le> a + q" using q Cons.prems(2) by simp
    then have "mag F32 (a + q) = r" using r(1) by (simp add: fl_round_def Let_def split: if_splits)
    ultimately show ?thesis by simp
  qed
  obtain s where s: "foldl (fl_add F32) (Fin r) xs = Fin s" "0 \<le> s"
      "s \<le> of_int (m + 1 + int (length xs))" "1 \<le> r \<or> Fin 1 \<in> set xs \<longrightarrow> 1 \<le> s"
    using Cons.IH [of r "m + 1"] Cons.prems r by auto
  then show ?case using one q by (auto simp: r(1))
qed auto

lemma weights_unit:
  assumes "exp_contract mexp" and n: "odd n" "3 \<le> n" "n \<le> 31"
    and reg: "regular_sigma2 (fl_mul F32 (fl_mul F32 (Fin 2) sigma) sigma)"
  shows "\<forall>x \<in> set (gaussian_weights mexp n sigma). unit_fl x"
proof -
  define s2 where "s2 = fl_mul F32 (fl_mul F32 (Fin 2) sigma) sigma"
  note reg = reg [folded s2_def]
  let ?e = "kernel_exp mexp (n div 2) s2"
  let ?es = "map ?e [0..n - 1]"
  have idx: "\<bar>i - n div 2\<bar> \<le> 15" if "i \<in> {0..n - 1}" for i
    using that n(3) by (auto simp: abs_le_iff)
  have u: "\<forall>x \<in> set ?es. unit_fl x"
    using kernel_exp_unit(1) [OF assms(1) reg] idx by simp
  have "?e (n div 2) = Fin 1" by (rule kernel_exp_unit(2) [OF assms(1) reg]) simp_all
  moreover have "n div 2 \<in> {0..n - 1}" using n(2) by auto
  then have "?e (n div 2) \<in> ?e ` {0..n - 1}" by (rule imageI)
  ultimately have mem: "Fin 1 \<in> set ?es" by (simp only: set_map set_upto)
  have "int (length ?es) \<le> 31" using n by simp
  then obtain s where s: "foldl (fl_add F32) (Fin 0) ?es = Fin s" "1 \<le> s"
    using unit_sum [OF u, of 0 0] mem by auto
  have div: "unit_fl (fl_div F32 x (Fin s))" if x: "unit_fl x" for x
  proof -
    obtain q where q: "x = Fin q" "0 \<le> q" "q \<le> 1" using x by (auto simp: unit_fl_def)
    have "0 \<le> q / s" "q / s \<le> of_int 1" using q s(2) by (simp_all add: divide_le_eq)
    from round32_bounded [OF this] show ?thesis using q s(2) by (auto simp: unit_fl_def)
  qed
  show ?thesis using u div by (simp add: gaussian_weights_def Let_def s(1) flip: s2_def)
qed

section \<open>The blur is monotone\<close>

text \<open>
  With unit weights every partial sum of \<open>float32\<close> operations stays below an integer the
  format represents, so rounding never overflows, and it preserves the order.
\<close>

lemma round32_mono:
  assumes "0 \<le> p" "p \<le> q" "q \<le> of_int b" "b \<le> 2 ^ 24"
  shows "\<exists>r s. fl_round F32 p = Fin r \<and> fl_round F32 q = Fin s \<and> 0 \<le> r \<and> r \<le> s \<and> s \<le> of_int b"
proof -
  obtain r where r: "fl_round F32 p = Fin r" "0 \<le> r"
    using round32_bounded [of p b] assms by auto
  obtain s where s: "fl_round F32 q = Fin s" "s \<le> of_int b"
    using round32_bounded [of q b] assms by auto
  have "r = mag F32 p" "s = mag F32 q"
    using r s assms by (auto simp: fl_round_def Let_def split: if_splits)
  then show ?thesis using r s mag_mono [OF assms(1,2), of F32] by simp
qed

lemma mac_mono:
  assumes a: "0 \<le> a" "a \<le> a'" "a' \<le> of_int m" and v: "0 \<le> v" "v \<le> v'" "v' \<le> of_int b"
    and k: "unit_fl k" and lim: "m + b \<le> 2 ^ 24" "0 \<le> m"
  shows "\<exists>r s. mac (Fin a) (Fin v) k = Fin r \<and> mac (Fin a') (Fin v') k = Fin s \<and>
    0 \<le> r \<and> r \<le> s \<and> s \<le> of_int (m + b)"
proof -
  obtain q where q: "k = Fin q" "0 \<le> q" "q \<le> 1" using k by (auto simp: unit_fl_def)
  have "v' * q \<le> v' * 1" using q v by (intro mult_left_mono) simp_all
  then obtain x y where xy: "fl_round F32 (v * q) = Fin x" "fl_round F32 (v' * q) = Fin y"
      "0 \<le> x" "x \<le> y" "y \<le> of_int b"
    using round32_mono [of "v * q" "v' * q" b] v q lim by (auto simp: mult_right_mono)
  have "a' + y \<le> of_int (m + b)" using a xy by simp
  then obtain r s where "fl_round F32 (a + x) = Fin r" "fl_round F32 (a' + y) = Fin s"
      "0 \<le> r" "r \<le> s" "s \<le> of_int (m + b)"
    using round32_mono [of "a + x" "a' + y" "m + b"] a xy lim by auto
  then show ?thesis using xy by (simp add: mac_def q(1))
qed

lemma fold_mac_mono:
  assumes "\<forall>k \<in> set ks. \<exists>a a'. v k = Fin a \<and> v' k = Fin a' \<and> 0 \<le> a \<and> a \<le> a' \<and> a' \<le> of_int b"
    and "\<forall>k \<in> set ks. unit_fl (w k)" and "0 \<le> b"
    and "0 \<le> a" "a \<le> a'" "a' \<le> of_int m" "0 \<le> m" "m + int (length ks) * b \<le> 2 ^ 24"
  shows "\<exists>r s. fold (\<lambda>k s. mac s (v k) (w k)) ks (Fin a) = Fin r \<and>
    fold (\<lambda>k s. mac s (v' k) (w k)) ks (Fin a') = Fin s \<and>
    0 \<le> r \<and> r \<le> s \<and> s \<le> of_int (m + int (length ks) * b)"
  using assms
proof (induction ks arbitrary: a a' m)
  case (Cons k ks)
  obtain c c' where c: "v k = Fin c" "v' k = Fin c'" "0 \<le> c" "c \<le> c'" "c' \<le> of_int b"
    using Cons.prems(1) by auto
  have "0 \<le> int (length ks) * b" using Cons.prems(3) by simp
  then have "m + b \<le> 2 ^ 24" using Cons.prems(8) by (simp add: distrib_right)
  then obtain x y where xy: "mac (Fin a) (Fin c) (w k) = Fin x" "mac (Fin a') (Fin c') (w k) = Fin y"
      "0 \<le> x" "x \<le> y" "y \<le> of_int (m + b)"
    using mac_mono [of a a' m c c' b "w k"] Cons.prems c by auto
  have "\<exists>r s. fold (\<lambda>k s. mac s (v k) (w k)) ks (Fin x) = Fin r \<and>
      fold (\<lambda>k s. mac s (v' k) (w k)) ks (Fin y) = Fin s \<and>
      0 \<le> r \<and> r \<le> s \<and> s \<le> of_int (m + b + int (length ks) * b)"
    by (rule Cons.IH) (use Cons.prems xy in \<open>simp_all add: distrib_right\<close>)
  then show ?case using c xy by (simp add: distrib_right add.assoc)
qed auto

lemma tap_sum_mono:
  assumes "\<And>k. 0 \<le> k \<Longrightarrow> k < int (length ws) \<Longrightarrow>
      \<exists>a a'. v k = Fin a \<and> v' k = Fin a' \<and> 0 \<le> a \<and> a \<le> a' \<and> a' \<le> of_int b"
    and "\<forall>x \<in> set ws. unit_fl x" and "0 \<le> b" "int (length ws) * b \<le> 2 ^ 24"
  shows "\<exists>r s. tap_sum v ws = Fin r \<and> tap_sum v' ws = Fin s \<and> 0 \<le> r \<and> r \<le> s \<and>
    s \<le> of_int (int (length ws) * b)"
proof -
  have "\<forall>k \<in> set [0..int (length ws) - 1]. unit_fl (ws ! nat k)"
    using assms(2) by (simp add: nat_less_iff)
  then show ?thesis
    using fold_mac_mono [of "[0..int (length ws) - 1]" v v' b "\<lambda>k. ws ! nat k" 0 0 0] assms
    by (simp add: tap_sum_def)
qed

lemma clampToByte_mono:
  assumes "0 \<le> a" "a \<le> b"
  shows "uint (clampToByte (Fin a)) \<le> uint (clampToByte (Fin b))"
proof -
  have c: "uint (clampToByte (Fin q)) = (if 255 < q then 255 else \<lfloor>q\<rfloor>)" if "0 \<le> q" for q
    using that fl_to_byte_Fin [of q] by (simp add: clampToByte_def not_less del: fl_to_byte.simps)
  have "\<lfloor>a\<rfloor> \<le> 255" if "\<not> 255 < a" using that by (simp add: floor_le_iff)
  then show ?thesis using assms by (auto simp: c floor_mono)
qed

lemma blur_v_mono:
  assumes ws: "\<forall>x \<in> set ws. unit_fl x" "length ws \<le> 31"
    and px: "\<And>y x. 0 \<le> y \<Longrightarrow> y < h \<Longrightarrow> 0 \<le> x \<Longrightarrow> x < w \<Longrightarrow>
      uint (pixel i1 w y x c) \<le> uint (pixel i2 w y x c)"
    and yx: "0 \<le> y" "y < h" "0 \<le> x" "x < w"
  shows "uint (blur_v i1 ws w h y x c) \<le> uint (blur_v i2 ws w h y x c)"
proof -
  have w: "0 < w" and h: "0 < h" using yx by simp_all
  have h_mono: "\<exists>r s. blur_h i1 ws w y' x c = Fin r \<and> blur_h i2 ws w y' x c = Fin s \<and> 0 \<le> r \<and> r \<le> s \<and>
      s \<le> of_int (int (length ws) * 255)" if y': "0 \<le> y'" "y' < h" for y'
    unfolding blur_h_def
  proof (rule tap_sum_mono [OF _ ws(1)])
    fix k
    note cx = clamp_ix_range [OF w, of "x - int (length ws) div 2 + k"]
    show "\<exists>a a'. fl_of_byte (pixel i1 w y' (clamp_ix w (x - int (length ws) div 2 + k)) c) = Fin a \<and>
        fl_of_byte (pixel i2 w y' (clamp_ix w (x - int (length ws) div 2 + k)) c) = Fin a' \<and>
        0 \<le> a \<and> a \<le> a' \<and> a' \<le> of_int 255"
      using px [OF y', of "clamp_ix w (x - int (length ws) div 2 + k)"] cx u8_rat
      by (simp only: fl_of_byte_def fl.inject ex_simps simp_thms of_int_le_iff of_int_numeral)
  qed (use ws(2) in simp_all)
  have "\<exists>r s. tap_sum (\<lambda>k. blur_h i1 ws w (clamp_ix h (y - int (length ws) div 2 + k)) x c) ws = Fin r \<and>
      tap_sum (\<lambda>k. blur_h i2 ws w (clamp_ix h (y - int (length ws) div 2 + k)) x c) ws = Fin s \<and>
      0 \<le> r \<and> r \<le> s \<and> s \<le> of_int (int (length ws) * (int (length ws) * 255))"
  proof (rule tap_sum_mono [OF _ ws(1)])
    have "int (length ws) * int (length ws) \<le> 31 * 31" using ws(2) by (intro mult_mono) simp_all
    then show "int (length ws) * (int (length ws) * 255) \<le> 2 ^ 24" by simp
  qed (use h_mono clamp_ix_range [OF h] in simp_all)
  then show ?thesis using clampToByte_mono by (auto simp: blur_v_def)
qed

section \<open>A radius whose square vanishes\<close>

lemma foldl_NaN: "foldl (fl_add F) NaN xs = NaN"
  by (induction xs) simp_all

lemma fl_add_NaN [simp]: "fl_add F x NaN = NaN" and fl_mul_NaN [simp]: "fl_mul F x NaN = NaN"
  and fl_div_NaN [simp]: "fl_div F x NaN = NaN"
  by (cases x; simp)+

lemma foldl_NaN_mem: "NaN \<in> set xs \<Longrightarrow> foldl (fl_add F) a xs = NaN"
  by (induction xs arbitrary: a) (auto simp: foldl_NaN)

lemma vanishing_weights:
  assumes "fl_mul F32 (fl_mul F32 (Fin 2) sigma) sigma = Fin 0" "mexp NaN = NaN" "0 < n"
  shows "gaussian_weights mexp n sigma = replicate (nat n) NaN"
proof -
  let ?es = "map (kernel_exp mexp (n div 2) (Fin 0)) [0..n - 1]"
  have "kernel_exp mexp (n div 2) (Fin 0) (n div 2) = NaN"
    using assms(2) by (simp add: kernel_exp_def Let_def)
  moreover have "n div 2 \<in> {0..n - 1}" using assms(3) by auto
  then have "kernel_exp mexp (n div 2) (Fin 0) (n div 2) \<in> kernel_exp mexp (n div 2) (Fin 0) ` {0..n - 1}"
    by (rule imageI)
  ultimately have "NaN \<in> set ?es" by (simp only: set_map set_upto)
  then have "foldl (fl_add F32) (Fin 0) ?es = NaN" by (rule foldl_NaN_mem)
  then show ?thesis
    by (intro nth_equalityI) (simp_all add: gaussian_weights_def assms(1))
qed

lemma tap_sum_NaN: "0 < n \<Longrightarrow> tap_sum v (replicate n NaN) = NaN"
proof -
  assume "0 < n"
  then have "[0..int n - 1] = [0..int n - 2] @ [int n - 1]"
    by (simp add: upto_rec2)
  then show ?thesis using \<open>0 < n\<close> by (simp add: tap_sum_def mac_def)
qed

section \<open>The filter interface\<close>

text \<open>
  What the gRPC server relies on: a filter called with a frame whose size fits its dimensions
  does not panic and returns a frame of the same size. The dimensions are not assumed to be
  non-negative: the server's size check does not exclude a frame of two negative dimensions.
\<close>

definition frame_fits :: "bytes \<Rightarrow> int \<Rightarrow> int \<Rightarrow> bool" where
  "frame_fits input w h \<longleftrightarrow> int (length input) = w * h * 3 \<and> in_i64 (w * h * 3)"

lemma GaussianBlur_defined:
  assumes "frame_fits input w h" "length buf = 31"
  shows "\<exists>out buf'. GaussianBlur mexp buf input w h radius = Some (out, buf') \<and>
    length out = length input \<and> length buf' = 31"
  using GaussianBlur_eq [of input w h buf mexp radius] assms by (auto simp: frame_fits_def)

text \<open>The blurred frame does not depend on the contents of the buffer.\<close>

lemma empty_loops: "w \<le> 0 \<or> h \<le> 0 \<Longrightarrow> for_loop 0 h (\<lambda>y. for_loop 0 w (f y)) s = Some s"
  using for_loop_rule [of "\<lambda>_ s'. s' = s" 0 s h "\<lambda>y. for_loop 0 w (f y)"]
  by (cases "h \<le> 0") auto

lemma GaussianBlur_any_buffer:
  assumes fits: "frame_fits input w h" and buf: "length buf = 31" "length buf' = 31"
  shows "map_option fst (GaussianBlur mexp buf input w h radius) =
    map_option fst (GaussianBlur mexp buf' input w h radius)"
proof (cases "w \<le> 0 \<or> h \<le> 0")
  case True
  have n: "kernel_size radius \<le> 31" "0 \<le> kernel_size radius"
    using kernel_size_bounds [of radius] by simp_all
  show ?thesis
    using n buf by (simp add: GaussianBlur_def Let_def slice_to_def generateGaussianKernel_eq
        empty_loops [OF True] bind_eq_None_conv split: Option.bind_split)
next
  case False
  then have "0 \<le> w" "0 \<le> h" by auto
  have len: "int (length input) = w * h * 3" and i64: "in_i64 (w * h * 3)"
    using fits by (simp_all add: frame_fits_def)
  obtain out b where out: "GaussianBlur mexp buf input w h radius = Some (out, b)" "length out = length input"
    and px: "\<And>y x c. 0 \<le> y \<Longrightarrow> y < h \<Longrightarrow> 0 \<le> x \<Longrightarrow> x < w \<Longrightarrow> 0 \<le> c \<Longrightarrow> c < 3 \<Longrightarrow>
      pixel out w y x c = blur_v input (gaussian_weights mexp (kernel_size radius) radius) w h y x c"
    using GaussianBlur_eq [OF len i64 buf(1)] by blast
  obtain out' b' where out': "GaussianBlur mexp buf' input w h radius = Some (out', b')" "length out' = length input"
    and px': "\<And>y x c. 0 \<le> y \<Longrightarrow> y < h \<Longrightarrow> 0 \<le> x \<Longrightarrow> x < w \<Longrightarrow> 0 \<le> c \<Longrightarrow> c < 3 \<Longrightarrow>
      pixel out' w y x c = blur_v input (gaussian_weights mexp (kernel_size radius) radius) w h y x c"
    using GaussianBlur_eq [OF len i64 buf(2)] by blast
  have "out = out'"
    using image_eqI [of out out' w h] out(2) out'(2) len \<open>0 \<le> w\<close> \<open>0 \<le> h\<close> px px' by simp
  then show ?thesis using out(1) out'(1) by simp
qed

locale pixel_filter =
  fixes f :: "bytes \<Rightarrow> int \<Rightarrow> int \<Rightarrow> bytes option"
  assumes total: "frame_fits input w h \<Longrightarrow> \<exists>out. f input w h = Some out \<and> length out = length input"
begin

lemma no_panic: "frame_fits input w h \<Longrightarrow> f input w h \<noteq> None"
  using total by fastforce

lemma size_kept: "frame_fits input w h \<Longrightarrow> f input w h = Some out \<Longrightarrow> length out = length input"
  using total by fastforce

lemma fits_again: "frame_fits input w h \<Longrightarrow> f input w h = Some out \<Longrightarrow> frame_fits out w h"
  using size_kept by (fastforce simp: frame_fits_def)

end

definition blur_only :: "(fl \<Rightarrow> fl) \<Rightarrow> fl \<Rightarrow> bytes \<Rightarrow> int \<Rightarrow> int \<Rightarrow> bytes option" where
  "blur_only mexp radius input w h = map_option fst (GaussianBlur mexp (replicate 31 (Fin 0)) input w h radius)"

interpretation blur: pixel_filter "blur_only mexp radius" for mexp radius
proof
  fix input w h assume "frame_fits input w h"
  then show "\<exists>out. blur_only mexp radius input w h = Some out \<and> length out = length input"
    using GaussianBlur_defined [of input w h "replicate 31 (Fin 0)" mexp radius]
    by (auto simp: blur_only_def)
qed

interpretation gray: pixel_filter Grayscale
  by unfold_locales (use Grayscale_eq in \<open>fastforce simp: frame_fits_def\<close>)

interpretation sharpen: pixel_filter "\<lambda>input w h. Sharpen input w h intensity" for intensity
  by unfold_locales (use Sharpen_eq in \<open>fastforce simp: frame_fits_def\<close>)

interpretation edge: pixel_filter EdgeDetect
  by unfold_locales (use EdgeDetect_eq in \<open>fastforce simp: frame_fits_def\<close>)

section \<open>Properties\<close>

text \<open>A stand-in for \<open>math.Exp\<close> that meets its contract, for concrete instances.\<close>

fun sample_exp :: "fl \<Rightarrow> fl" where
  "sample_exp (Fin q) = (if q \<le> 0 then Fin (1 / (1 - q)) else Fin 1)"
| "sample_exp (Inf s) = (if s then Fin 0 else Inf False)"
| "sample_exp NaN = NaN"

lemma sample_exp_contract: "exp_contract sample_exp"
  by (auto simp: exp_contract_def divide_le_eq)

lemma sigma2_one: "regular_sigma2 (fl_mul F32 (fl_mul F32 (Fin 2) (Fin 1)) (Fin 1))"
  using fl_round_int32 [of 2] by (simp add: regular_sigma2_def)

text \<open>
  C11. The blur is the separable convolution: with a frame whose size fits its dimensions and a
  31-element buffer from the pool, \<open>GaussianBlur\<close> returns without panicking, keeps the frame's
  size, returns a buffer of 31 elements to the pool, and every channel of every pixel is the
  clamped vertical sum of the horizontal sums under the normalised weights, with coordinates
  clamped to the frame, in the order the code adds them.
\<close>

theorem GaussianBlur_convolution:
  assumes "frame_fits input w h" and "length buf = 31"
  shows "\<exists>out buf'. GaussianBlur mexp buf input w h radius = Some (out, buf') \<and>
    length out = length input \<and> length buf' = 31 \<and>
    (\<forall>y x c. 0 \<le> y \<longrightarrow> y < h \<longrightarrow> 0 \<le> x \<longrightarrow> x < w \<longrightarrow> 0 \<le> c \<longrightarrow> c < 3 \<longrightarrow>
      pixel out w y x c = blur_v input (gaussian_weights mexp (kernel_size radius) radius) w h y x c)"
  by (rule GaussianBlur_eq) (use assms in \<open>simp_all add: frame_fits_def\<close>)

theorem GaussianBlur_convolution_witness:
  "\<exists>out buf'. GaussianBlur sample_exp (replicate 31 NaN) [10, 20, 30, 40, 50, 60] 2 1 (Fin 1) = Some (out, buf') \<and>
    length out = 6 \<and> length buf' = 31"
  using GaussianBlur_convolution [of "[10, 20, 30, 40, 50, 60]" 2 1 "replicate 31 NaN" sample_exp "Fin 1"]
  by (auto simp: frame_fits_def in_i64_def)

text \<open>
  Pooled buffers do not leak into the result: what an earlier frame left in the kernel
  buffer taken from \<open>kernelPool\<close> has no effect on the blurred frame.
\<close>

theorem GaussianBlur_ignores_pool_contents:
  assumes "frame_fits input w h" and "length buf = 31" and "length buf' = 31"
  shows "map_option fst (GaussianBlur mexp buf input w h radius) =
    map_option fst (GaussianBlur mexp buf' input w h radius)"
  using GaussianBlur_any_buffer [OF assms] by simp

theorem GaussianBlur_ignores_pool_contents_witness:
  "map_option fst (GaussianBlur sample_exp (replicate 31 NaN) [7, 8, 9] 1 1 (Fin 1)) =
   map_option fst (GaussianBlur sample_exp (replicate 31 (Fin 5)) [7, 8, 9] 1 1 (Fin 1))"
  by (rule GaussianBlur_ignores_pool_contents) (simp_all add: frame_fits_def in_i64_def)

text \<open>
  The blur preserves order: if one frame is nowhere brighter than another in a channel, its
  blurred frame is not either. With \<open>math.Exp\<close> within its contract and a radius whose
  \<open>sigma2\<close> does not vanish, no intermediate \<open>float32\<close> overflows or becomes NaN.
\<close>

theorem GaussianBlur_monotone:
  assumes "exp_contract mexp" and "regular_sigma2 (fl_mul F32 (fl_mul F32 (Fin 2) radius) radius)"
    and "frame_fits input w h" and "length input' = length input" and "length buf = 31"
    and "\<And>y x. 0 \<le> y \<Longrightarrow> y < h \<Longrightarrow> 0 \<le> x \<Longrightarrow> x < w \<Longrightarrow>
      uint (pixel input w y x c) \<le> uint (pixel input' w y x c)"
    and "GaussianBlur mexp buf input w h radius = Some (out, b)"
    and "GaussianBlur mexp buf input' w h radius = Some (out', b')"
    and "0 \<le> y" "y < h" "0 \<le> x" "x < w" "0 \<le> c" "c < 3"
  shows "uint (pixel out w y x c) \<le> uint (pixel out' w y x c)"
proof -
  have fits: "int (length input) = w * h * 3" "int (length input') = w * h * 3" "in_i64 (w * h * 3)"
    using assms(3,4) by (simp_all add: frame_fits_def)
  let ?ws = "gaussian_weights mexp (kernel_size radius) radius"
  have "\<forall>x \<in> set ?ws. unit_fl x"
    by (rule weights_unit [OF assms(1) kernel_size_odd kernel_size_bounds assms(2)])
  moreover have "length ?ws \<le> 31" using kernel_size_bounds [of radius] by simp
  ultimately have "uint (blur_v input ?ws w h y x c) \<le> uint (blur_v input' ?ws w h y x c)"
    using assms(6,9-12) by (intro blur_v_mono)
  then show ?thesis
    using GaussianBlur_eq [OF fits(1,3) assms(5), of mexp radius]
      GaussianBlur_eq [OF fits(2,3) assms(5), of mexp radius] assms(7-14)
    by auto
qed

theorem GaussianBlur_monotone_witness:
  "\<exists>out out' b b'. GaussianBlur sample_exp (replicate 31 NaN) [10, 20, 30] 1 1 (Fin 1) = Some (out, b) \<and>
    GaussianBlur sample_exp (replicate 31 NaN) [11, 20, 40] 1 1 (Fin 1) = Some (out', b') \<and>
    uint (pixel out 1 0 0 2) \<le> uint (pixel out' 1 0 0 2)"
proof -
  have fits: "frame_fits [10, 20, 30] 1 1" "frame_fits [11, 20, 40] 1 1"
    by (simp_all add: frame_fits_def in_i64_def)
  obtain out b where o1: "GaussianBlur sample_exp (replicate 31 NaN) [10, 20, 30] 1 1 (Fin 1) = Some (out, b)"
    using GaussianBlur_defined [OF fits(1), of "replicate 31 NaN" sample_exp "Fin 1"] by auto
  obtain out' b' where o2: "GaussianBlur sample_exp (replicate 31 NaN) [11, 20, 40] 1 1 (Fin 1) = Some (out', b')"
    using GaussianBlur_defined [OF fits(2), of "replicate 31 NaN" sample_exp "Fin 1"] by auto
  have px: "uint (pixel [10, 20, 30 :: u8] 1 y x 2) \<le> uint (pixel [11, 20, 40 :: u8] 1 y x 2)"
    if "0 \<le> y" "y < 1" "0 \<le> x" "x < 1" for y x
    using that by (simp add: pixel_def)
  show ?thesis
    using GaussianBlur_monotone [OF sample_exp_contract sigma2_one fits(1), of "[11, 20, 40]" "replicate 31 NaN" 2,
        OF _ _ px o1 o2, of 0 0] o1 o2
    by auto
qed

lemma tap_sum_const: "tap_sum (\<lambda>k. v) ws = fold (\<lambda>k s. mac s v (ws ! nat k)) [0..int (length ws) - 1] (Fin 0)"
  by (simp add: tap_sum_def)

lemma tap_sum_cong: "(\<And>k. v k = v' k) \<Longrightarrow> tap_sum v ws = tap_sum v' ws"
  by (simp add: tap_sum_def)

lemma blur_v_flat:
  assumes "\<And>y x. 0 \<le> y \<Longrightarrow> y < h \<Longrightarrow> 0 \<le> x \<Longrightarrow> x < w \<Longrightarrow> pixel input w y x c = v"
    and "0 < w" "0 < h"
  shows "blur_v input ws w h y x c = clampToByte (tap_sum (\<lambda>k. tap_sum (\<lambda>k. fl_of_byte v) ws) ws)"
proof -
  have "blur_h input ws w y' x c = tap_sum (\<lambda>k. fl_of_byte v) ws" if "0 \<le> y'" "y' < h" for y'
    unfolding blur_h_def
    by (rule tap_sum_cong) (use assms(1) that clamp_ix_range [OF assms(2)] in simp)
  then have "tap_sum (\<lambda>k. blur_h input ws w (clamp_ix h (y - int (length ws) div 2 + k)) x c) ws =
      tap_sum (\<lambda>k. tap_sum (\<lambda>k. fl_of_byte v) ws) ws"
    by (intro tap_sum_cong) (use clamp_ix_range [OF assms(3)] in simp)
  then show ?thesis by (simp add: blur_v_def)
qed

text \<open>
  A flat channel stays flat, borders included: where a channel has the same value in every
  pixel of a frame, the blurred channel has one value in every pixel too.
\<close>

theorem GaussianBlur_flat:
  assumes "frame_fits input w h" and "length buf = 31"
    and "\<And>y x. 0 \<le> y \<Longrightarrow> y < h \<Longrightarrow> 0 \<le> x \<Longrightarrow> x < w \<Longrightarrow> pixel input w y x c = v"
    and "GaussianBlur mexp buf input w h radius = Some (out, b)"
    and "0 \<le> y" "y < h" "0 \<le> x" "x < w" "0 \<le> c" "c < 3"
  shows "pixel out w y x c = pixel out w 0 0 c"
proof -
  have len: "int (length input) = w * h * 3" and i64: "in_i64 (w * h * 3)"
    using assms(1) by (simp_all add: frame_fits_def)
  have wh: "0 < w" "0 < h" using assms(5-8) by simp_all
  show ?thesis
    using GaussianBlur_eq [OF len i64 assms(2), of mexp radius] assms(4-10) wh
      blur_v_flat [of h w input c v, OF assms(3) wh] by auto
qed

theorem GaussianBlur_flat_witness:
  "\<exists>out b. GaussianBlur sample_exp (replicate 31 NaN) [9, 1, 2, 9, 3, 4] 2 1 (Fin 1) = Some (out, b) \<and>
    pixel out 2 0 1 0 = pixel out 2 0 0 0"
proof -
  have fits: "frame_fits [9, 1, 2, 9, 3, 4] 2 1" by (simp add: frame_fits_def in_i64_def)
  obtain out b where o: "GaussianBlur sample_exp (replicate 31 NaN) [9, 1, 2, 9, 3, 4] 2 1 (Fin 1) = Some (out, b)"
    using GaussianBlur_defined [OF fits, of "replicate 31 NaN" sample_exp "Fin 1"] by auto
  have px: "pixel [9, 1, 2, 9, 3, 4 :: u8] 2 y x 0 = 9" if "0 \<le> y" "y < 1" "0 \<le> x" "x < 2" for y x
  proof -
    have "y = 0" "x = 0 \<or> x = 1" using that by linarith+
    then show ?thesis by (auto simp: pixel_def)
  qed
  show ?thesis using GaussianBlur_flat [OF fits _ px o, of 0 1] o by simp
qed


lemma tiny_sigma2: "fl_mul F32 (fl_mul F32 (Fin 2) (Fin (1 / 2 ^ 80))) (Fin (1 / 2 ^ 80)) = Fin 0"
  by code_simp


text \<open>
  The shape of the kernel: for every radius it has an odd number of weights between 3 and
  31; the weights are symmetric about the centre whatever \<open>math.Exp\<close> returns, and they lie
  between 0 and 1 when \<open>math.Exp\<close> meets its contract and \<open>sigma2\<close> does not vanish. The
  previous contents of the slice it is generated into do not matter.
\<close>

theorem generateGaussianKernel_shape:
  assumes "exp_contract mexp" and "regular_sigma2 (fl_mul F32 (fl_mul F32 (Fin 2) sigma) sigma)"
    and "int (length ker) = kernel_size sigma"
  shows "odd (length ker) \<and> 3 \<le> length ker \<and> length ker \<le> 31 \<and>
    (\<exists>ws. generateGaussianKernel mexp ker sigma = Some ws \<and> length ws = length ker \<and>
      (\<forall>x \<in> set ws. unit_fl x) \<and> (\<forall>i < length ws. ws ! (length ws - 1 - i) = ws ! i))"
proof -
  let ?n = "kernel_size sigma"
  let ?ws = "gaussian_weights mexp ?n sigma"
  note n = kernel_size_bounds [of sigma] kernel_size_odd [of sigma]
  have len: "length ker = nat ?n" using assms(3) by simp
  have gen: "generateGaussianKernel mexp ker sigma = Some ?ws"
    by (simp add: generateGaussianKernel_eq assms(3))
  have mirror: "?ws ! (length ?ws - 1 - i) = ?ws ! i" if "i < length ?ws" for i
  proof -
    have i: "int i < ?n" using that by simp
    have "nat (?n - 1 - int i) = length ?ws - 1 - i" using n by simp
    then show ?thesis using gaussian_weights_mirror [of ?n "int i" mexp sigma] n i by simp
  qed
  have "odd (length ker)" using n(3) by (simp flip: assms(3))
  then show ?thesis
    using gen mirror n(1,2) len weights_unit [OF assms(1) n(3,1,2) assms(2)] by auto
qed

lemma kernel_size_one: "kernel_size (Fin 1) = 7"
proof -
  have six: "fl_mul F64 (fl_conv F64 (Fin 1)) (Fin 6) = Fin 6"
    using fl_round_int64 [of 1] fl_round_int64 [of 6] by simp
  show ?thesis unfolding kernel_size_def six by (simp add: Let_def rat_trunc_def in_i64_def)
qed

theorem generateGaussianKernel_shape_witness:
  "\<exists>ws. generateGaussianKernel sample_exp (replicate 7 NaN) (Fin 1) = Some ws \<and> length ws = 7 \<and> ws ! 6 = ws ! 0"
proof -
  obtain ws where ws: "generateGaussianKernel sample_exp (replicate 7 NaN) (Fin 1) = Some ws" "length ws = 7"
    and sym: "\<forall>i < 7. ws ! (6 - i) = ws ! i"
    using generateGaussianKernel_shape [OF sample_exp_contract sigma2_one, of "replicate 7 NaN"]
    by (auto simp: kernel_size_one)
  from sym have "ws ! (6 - 0) = ws ! 0" by (rule allE [of _ 0]) simp
  with ws show ?thesis by simp
qed

text \<open>
  Grayscale: for a frame whose size fits its dimensions, even two negative ones, the filter
  returns a frame of the same size whose three channels agree in every pixel; the gray level is
  never above the brightest and at most one below the darkest of the pixel's channels, so the
  conversion to a byte never wraps.
\<close>

theorem Grayscale_bounds:
  assumes "frame_fits input w h"
  shows "\<exists>out. Grayscale input w h = Some out \<and> length out = length input \<and>
    (\<forall>i. 0 \<le> i \<longrightarrow> i < w * h \<longrightarrow>
      cell out i 0 = cell out i 1 \<and> cell out i 1 = cell out i 2 \<and>
      uint (cell out i 0) \<le> max (uint (cell input i 0)) (max (uint (cell input i 1)) (uint (cell input i 2))) \<and>
      min (uint (cell input i 0)) (min (uint (cell input i 1)) (uint (cell input i 2))) - 1 \<le> uint (cell out i 0))"
proof -
  obtain out where out: "Grayscale input w h = Some out" "length out = length input"
    and cells: "\<And>i c. 0 \<le> i \<Longrightarrow> i < w * h \<Longrightarrow> 0 \<le> c \<Longrightarrow> c < 3 \<Longrightarrow> cell out i c = gray_at input i"
    using Grayscale_eq [of input w h] assms by (auto simp: frame_fits_def)
  have bounds: "uint (gray_at input i) \<le> max (uint (cell input i 0)) (max (uint (cell input i 1)) (uint (cell input i 2)))"
    "min (uint (cell input i 0)) (min (uint (cell input i 1)) (uint (cell input i 2))) - 1 \<le> uint (gray_at input i)" for i
  proof -
    show "uint (gray_at input i) \<le> max (uint (cell input i 0)) (max (uint (cell input i 1)) (uint (cell input i 2)))"
      unfolding gray_at_def
      by (rule gray_of_bounds(2) [where m = 0]) simp_all
    show "min (uint (cell input i 0)) (min (uint (cell input i 1)) (uint (cell input i 2))) - 1 \<le> uint (gray_at input i)"
      unfolding gray_at_def
      by (rule gray_of_bounds(1) [where n = 255]) (simp_all add: uint_u8_range)
  qed
  then show ?thesis using out cells by (intro exI [of _ out]) simp
qed

theorem Grayscale_bounds_witness:
  "\<exists>out. Grayscale [37, 37, 37] (- 1) (- 1) = Some out \<and> length out = 3 \<and> uint (cell out 0 0) \<le> 37"
  using Grayscale_bounds [of "[37, 37, 37]" "- 1" "- 1"]
  by (auto simp: frame_fits_def in_i64_def cell_def)



text \<open>
  C14. Edge detection is the exact Sobel operator: in the interior the three channels are the
  integer square root of \<open>gx\<^sup>2 + gy\<^sup>2\<close> over the gray levels, cut at 255 (neither \<open>math.Sqrt\<close> nor
  the conversions lose anything), and the one-pixel border is black.
\<close>

theorem EdgeDetect_sobel:
  assumes "frame_fits input w h"
  shows "\<exists>out. EdgeDetect input w h = Some out \<and> length out = length input \<and>
    (\<forall>y x c. 0 \<le> y \<longrightarrow> y < h \<longrightarrow> 0 \<le> x \<longrightarrow> x < w \<longrightarrow> 0 \<le> c \<longrightarrow> c < 3 \<longrightarrow>
      (let p = (\<lambda>y x. uint (gray_at input (y * w + x))); gx = sobel_gx p y x; gy = sobel_gy p y x in
        uint (pixel out w y x c) = (if interior w h y x then min 255 (isqrt (gx * gx + gy * gy)) else 0)))"
proof -
  have "uint (word_of_int (edge_val input w y x) :: u8) = edge_val input w y x" for y x
    by (simp add: uint_word_of_int edge_val_def Let_def min_def)
  then show ?thesis
    using EdgeDetect_eq [of input w h] assms by (auto simp: frame_fits_def Let_def edge_val_def)
qed

theorem EdgeDetect_sobel_witness:
  "\<exists>out. EdgeDetect (replicate 27 100) 3 3 = Some out \<and> uint (pixel out 3 1 1 0) = 0"
proof -
  obtain out where out: "EdgeDetect (replicate 27 100) 3 3 = Some out"
    and px: "\<And>y x c. 0 \<le> y \<Longrightarrow> y < 3 \<Longrightarrow> 0 \<le> x \<Longrightarrow> x < 3 \<Longrightarrow> 0 \<le> c \<Longrightarrow> c < 3 \<Longrightarrow>
      (let p = (\<lambda>y x. uint (gray_at (replicate 27 100) (y * 3 + x))); gx = sobel_gx p y x; gy = sobel_gy p y x in
        uint (pixel out 3 y x c) = (if interior 3 3 y x then min 255 (isqrt (gx * gx + gy * gy)) else 0))"
    using EdgeDetect_sobel [of "replicate 27 100" 3 3] by (auto simp: frame_fits_def in_i64_def)
  have "gray_at (replicate 27 100) i = gray_of 100 100 100" if "0 \<le> i" "i < 9" for i
    using that by (simp add: gray_at_def cell_def nat_less_iff)
  then show ?thesis
    using out px [of 1 1 0] by (simp add: interior_def sobel_gx_def sobel_gy_def)
qed

end
