(* ===== verification/Processor_Server.thy ===== *)
theory Processor_Server
  imports Proto Image_Processor
begin

text \<open>
  The gRPC service of \<open>processor-go/cmd/server/main.go\<close>: \<open>processChunk\<close>, the stream loop
  \<open>ProcessMediaStream\<close>, \<open>GetStats\<close> and the numbers behind \<open>/runtime\<close> and \<open>/stats\<close>.

  The package's variables are one record: the atomic counters \<open>globalStats\<close>, the buffers held by
  \<open>kernelPool\<close> and the two Prometheus instruments the handlers touch. What a call reads from
  outside (the clock, the memory statistics, which pooled buffer \<open>sync.Pool\<close> hands out) is
  a record of inputs. \<open>math.Exp\<close> is the parameter \<open>mexp\<close>.
\<close>

section \<open>State\<close>

record globalStats =
  totalFrames :: i64
  totalTimeNs :: i64
  totalAllocs :: i64
  totalPoolGets :: i64
  totalPoolPuts :: i64
  startTime :: int

record processor_state =
  stats :: globalStats
  kernelPool :: "fl list list"
  framesProcessed :: nat
  processingTime :: "fl list"

definition initial_processor :: "int \<Rightarrow> processor_state" where
  "initial_processor now =
     \<lparr>stats = \<lparr>totalFrames = 0, totalTimeNs = 0, totalAllocs = 0, totalPoolGets = 0, totalPoolPuts = 0,
               startTime = now\<rparr>,
      kernelPool = [], framesProcessed = 0, processingTime = []\<rparr>"

text \<open>The inputs of one call; \<open>pool_pick\<close> is the buffer \<open>sync.Pool\<close> chooses, if it has one.\<close>

record call_env =
  elapsed_ns :: i64
  mem_HeapAlloc :: i64
  mem_HeapSys :: i64
  mem_Mallocs :: i64
  pool_pick :: "nat option"

section \<open>The pool of kernel buffers\<close>

definition kernel_New :: "fl list" where
  "kernel_New = replicate 31 (Fin 0)"

definition pool_Get :: "nat option \<Rightarrow> fl list list \<Rightarrow> fl list \<times> fl list list" where
  "pool_Get pick pool = (case pick of
     Some i \<Rightarrow> if i < length pool then (pool ! i, take i pool @ drop (Suc i) pool) else (kernel_New, pool)
   | None \<Rightarrow> (kernel_New, pool))"

definition pool_Put :: "fl list \<Rightarrow> fl list list \<Rightarrow> fl list list" where
  "pool_Put buf pool = buf # pool"

text \<open>The blur as the server calls it: with the pool and the two pool counters.\<close>

definition pooled_blur ::
  "(fl \<Rightarrow> fl) \<Rightarrow> call_env \<Rightarrow> bytes \<Rightarrow> int \<Rightarrow> int \<Rightarrow> fl \<Rightarrow> processor_state \<Rightarrow> (bytes \<times> processor_state) option" where
  "pooled_blur mexp env input width height radius st = (
     let (buf, pool) = pool_Get (pool_pick env) (kernelPool st);
         st = st\<lparr>kernelPool := pool, stats := (stats st)\<lparr>totalPoolGets := totalPoolGets (stats st) + 1\<rparr>\<rparr>
     in do {
       (output, buf) \<leftarrow> GaussianBlur mexp buf input width height radius;
       Some (output, st\<lparr>kernelPool := pool_Put buf (kernelPool st),
                        stats := (stats st)\<lparr>totalPoolPuts := totalPoolPuts (stats st) + 1\<rparr>\<rparr>) })"

section \<open>One chunk\<close>

definition size_error :: "int \<Rightarrow> nat \<Rightarrow> string" where
  "size_error expected got =
     ''Invalid data size: expected '' @ show_int expected @ '', got '' @ show_int (int got)"

text \<open>The filter with its radius and intensity, the defaults filled in.\<close>

definition chunk_params :: "ProcessingParams option \<Rightarrow> FilterType \<times> fl \<times> fl" where
  "chunk_params params = (case params of
     None \<Rightarrow> (FILTER_TYPE_GAUSSIAN_BLUR, Fin 5, Fin 1)
   | Some p \<Rightarrow>
       (pp_Filter p,
        if fl_less (Fin 0) (pp_BlurRadius p) then pp_BlurRadius p else Fin 5,
        if fl_less (Fin 0) (pp_Intensity p) then pp_Intensity p else Fin 1))"

definition apply_filter ::
  "(fl \<Rightarrow> fl) \<Rightarrow> call_env \<Rightarrow> FilterType \<times> fl \<times> fl \<Rightarrow> bytes \<Rightarrow> int \<Rightarrow> int \<Rightarrow>
     processor_state \<Rightarrow> (bytes \<times> processor_state) option" where
  "apply_filter mexp env choice data width height st =
     (case choice of (filt, blurRadius, intensity) \<Rightarrow>
      if filt = FILTER_TYPE_GAUSSIAN_BLUR then pooled_blur mexp env data width height blurRadius st
      else if filt = FILTER_TYPE_GRAYSCALE then map_option (\<lambda>out. (out, st)) (Grayscale data width height)
      else if filt = FILTER_TYPE_SHARPEN then map_option (\<lambda>out. (out, st)) (Sharpen data width height intensity)
      else if filt = FILTER_TYPE_EDGE_DETECT then map_option (\<lambda>out. (out, st)) (EdgeDetect data width height)
      else pooled_blur mexp env data width height blurRadius st)"

text \<open>The counters after a processed chunk.\<close>

definition count_chunk :: "i64 \<Rightarrow> processor_state \<Rightarrow> processor_state" where
  "count_chunk ns st = st\<lparr>
     stats := (stats st)\<lparr>totalFrames := totalFrames (stats st) + 1,
                         totalTimeNs := totalTimeNs (stats st) + ns,
                         totalAllocs := totalAllocs (stats st) + 1\<rparr>,
     framesProcessed := framesProcessed st + 1,
     processingTime := processingTime st @ [fl_div F64 (float64_of ns) (Fin (10 ^ 9))]\<rparr>"

definition processChunk ::
  "(fl \<Rightarrow> fl) \<Rightarrow> call_env \<Rightarrow> MediaChunk \<Rightarrow> processor_state \<Rightarrow> (ProcessedChunk \<times> processor_state) option" where
  "processChunk mexp env chunk st = (
     let result = blank_result (mc_SequenceId chunk) in
     if mc_Type chunk \<noteq> MEDIA_TYPE_VIDEO \<and> mc_Type chunk \<noteq> MEDIA_TYPE_IMAGE
     then Some (result\<lparr>pc_Success := False, pc_ErrorMessage := ''Unsupported media type''\<rparr>, st)
     else
       let width = sint (mc_Width chunk);
           height = sint (mc_Height chunk);
           expectedSize = wrap64 (width * height * 3)
       in if int (length (mc_Data chunk)) \<noteq> expectedSize
          then Some (result\<lparr>pc_Success := False,
                            pc_ErrorMessage := size_error expectedSize (length (mc_Data chunk))\<rparr>, st)
          else do {
            (output, st) \<leftarrow> apply_filter mexp env (chunk_params (mc_Params chunk)) (mc_Data chunk) width height st;
            Some (result\<lparr>pc_Data := output, pc_Success := True, pc_ProcessingTimeNs := elapsed_ns env,
                         pc_MemoryMetrics := Some \<lparr>mm_ArenaAllocatedBytes = 0, mm_ArenaUsedBytes = 0,
                           mm_TotalAllocations = mem_Mallocs env, mm_HeapUsedBytes = mem_HeapAlloc env\<rparr>\<rparr>,
                  count_chunk (elapsed_ns env) st) })"

section \<open>A stream\<close>

text \<open>
  What the transport does in one round: the outcome of \<open>Recv\<close>, the inputs of the call and
  the outcome of \<open>Send\<close>. The loop ends with \<open>nil\<close> at the end of the stream and with the error
  otherwise. \<open>Waiting\<close> is the loop still at \<open>Recv\<close> when the list of rounds ends.
\<close>

datatype recv = Received MediaChunk | EOF | RecvFailed string

datatype stream_end = Finished | Failed string | Waiting

fun ProcessMediaStream ::
  "(fl \<Rightarrow> fl) \<Rightarrow> (recv \<times> call_env \<times> string option) list \<Rightarrow> processor_state \<Rightarrow>
     (ProcessedChunk list \<times> stream_end \<times> processor_state) option" where
  "ProcessMediaStream mexp [] st = Some ([], Waiting, st)"
| "ProcessMediaStream mexp ((EOF, env, sent) # rounds) st = Some ([], Finished, st)"
| "ProcessMediaStream mexp ((RecvFailed e, env, sent) # rounds) st = Some ([], Failed e, st)"
| "ProcessMediaStream mexp ((Received chunk, env, sent) # rounds) st = do {
     (result, st) \<leftarrow> processChunk mexp env chunk st;
     case sent of
       Some e \<Rightarrow> Some ([], Failed e, st)
     | None \<Rightarrow> do {
         (results, stop, st) \<leftarrow> ProcessMediaStream mexp rounds st;
         Some (result # results, stop, st) } }"

section \<open>Statistics\<close>

text \<open>\<open>uptime\<close> is \<open>time.Since(globalStats.startTime)\<close>.\<close>

definition average_ms :: "i64 \<Rightarrow> i64 \<Rightarrow> fl" where
  "average_ms time frames =
     (if 0 < sint frames
      then fl_div F64 (fl_div F64 (float64_of time) (float64_of frames)) (Fin (10 ^ 6)) else Fin 0)"

definition frame_rate :: "i64 \<Rightarrow> i64 \<Rightarrow> fl" where
  "frame_rate frames uptime =
     (let elapsed = duration_seconds uptime
      in if fl_less (Fin 0) elapsed then fl_div F64 (float64_of frames) elapsed else Fin 0)"

definition GetStats :: "call_env \<Rightarrow> i64 \<Rightarrow> processor_state \<Rightarrow> StatsResponse" where
  "GetStats env uptime st = (let s = stats st in
     \<lparr>sr_TotalFramesProcessed = totalFrames s,
      sr_TotalProcessingTimeNs = totalTimeNs s,
      sr_AvgProcessingTimeMs = average_ms (totalTimeNs s) (totalFrames s),
      sr_CurrentArenaSizeBytes = mem_HeapAlloc env,
      sr_PeakArenaSizeBytes = mem_HeapSys env,
      sr_TotalArenaAllocations = totalAllocs s,
      sr_TotalArenaResets = totalPoolPuts s,
      sr_FramesPerSecond = frame_rate (totalFrames s) uptime\<rparr>)"

text \<open>The reuse ratio that \<open>/runtime\<close> prints.\<close>

definition reuse_ratio :: "globalStats \<Rightarrow> fl" where
  "reuse_ratio s =
     (if 0 < sint (totalPoolGets s)
      then fl_div F64 (float64_of (totalPoolPuts s)) (float64_of (totalPoolGets s)) else Fin 0)"

section \<open>The size check\<close>

lemma i32_product_range:
  fixes w h :: i32
  shows "- (2 ^ 62) < sint w * sint h" and "sint w * sint h \<le> 2 ^ 62"
proof -
  have w: "\<bar>sint w\<bar> \<le> 2 ^ 31" and h: "\<bar>sint h\<bar> \<le> 2 ^ 31"
    using sint_i32_range [of w] sint_i32_range [of h] by linarith+
  then have "\<bar>sint w\<bar> * \<bar>sint h\<bar> \<le> 2 ^ 31 * 2 ^ 31" by (intro mult_mono) simp_all
  then have abs: "\<bar>sint w * sint h\<bar> \<le> 2 ^ 62" by (simp add: abs_mult)
  then show "sint w * sint h \<le> 2 ^ 62" by linarith
  show "- (2 ^ 62) < sint w * sint h"
  proof (rule ccontr)
    assume "\<not> - (2 ^ 62) < sint w * sint h"
    then have low: "sint w * sint h \<le> - (2 ^ 62)" by simp
    have strict: "\<bar>x * y\<bar> < 2 ^ 62" if "0 < x" "x < 2 ^ 31" "\<bar>y\<bar> \<le> 2 ^ 31" for x y :: int
    proof -
      have "\<bar>x\<bar> * \<bar>y\<bar> \<le> (2 ^ 31 - 1) * 2 ^ 31" using that by (intro mult_mono) simp_all
      then show ?thesis by (simp add: abs_mult)
    qed
    have "0 < sint w \<or> 0 < sint h"
    proof (rule ccontr)
      assume "\<not> (0 < sint w \<or> 0 < sint h)"
      then have "0 \<le> sint w * sint h" by (intro mult_nonpos_nonpos) simp_all
      with low show False by simp
    qed
    then show False
      using strict [of "sint w" "sint h"] strict [of "sint h" "sint w"] w h low
        sint_i32_range [of w] sint_i32_range [of h] by (auto simp: mult.commute)
  qed
qed

text \<open>
  The check multiplies in 64-bit arithmetic, which can wrap; but no slice is long enough to meet
  a wrapped size.
\<close>

lemma size_check_exact:
  fixes w h :: i32
  assumes "0 \<le> n" "n < 2 ^ 62"
  shows "n = wrap64 (sint w * sint h * 3) \<longleftrightarrow> n = sint w * sint h * 3"
proof -
  define p where "p = sint w * sint h"
  have p: "- (2 ^ 62) < p" "p \<le> 2 ^ 62" unfolding p_def by (rule i32_product_range)+
  have "wrap64 (p * 3) = n \<longleftrightarrow> p * 3 = n"
  proof
    assume eq: "wrap64 (p * 3) = n"
    have "(p * 3 + 2 ^ 63) mod 2 ^ 64 = n + 2 ^ 63" using eq by (simp add: wrap64_def)
    then have "\<exists>k. p * 3 + 2 ^ 63 = n + 2 ^ 63 + 2 ^ 64 * k"
      by (metis mult_div_mod_eq add.commute)
    then obtain k where k: "p * 3 = n + 2 ^ 64 * k" by auto
    then have "k = 0" using p assms by simp
    then show "p * 3 = n" using k by simp
  next
    assume "p * 3 = n"
    then show "wrap64 (p * 3) = n" using assms by (simp add: wrap64_id in_i64_def)
  qed
  then show ?thesis unfolding p_def by metis
qed

section \<open>The pool\<close>

definition pool_ok :: "fl list list \<Rightarrow> bool" where
  "pool_ok pool \<longleftrightarrow> (\<forall>buf \<in> set pool. length buf = 31)"

lemma pool_Get_ok:
  assumes "pool_ok pool" "pool_Get pick pool = (buf, rest)"
  shows "length buf = 31" and "pool_ok rest"
proof -
  have mem: "set (take i pool @ drop (Suc i) pool) \<subseteq> set pool" for i
    using set_take_subset [of i pool] set_drop_subset [of "Suc i" pool] by simp
  from assms show "length buf = 31"
    by (auto simp: pool_ok_def pool_Get_def kernel_New_def split: option.splits if_splits)
  have "rest = pool \<or> (\<exists>i. rest = take i pool @ drop (Suc i) pool)"
    using assms(2) by (auto simp: pool_Get_def split: option.splits if_splits)
  then have "set rest \<subseteq> set pool" using mem by blast
  then show "pool_ok rest" using assms(1) by (auto simp: pool_ok_def)
qed

lemma pooled_blur_spec:
  assumes fits: "frame_fits input w h" and pool: "pool_ok (kernelPool st)"
  shows "\<exists>out pool'. pooled_blur mexp env input w h radius st = Some (out,
      st\<lparr>kernelPool := pool', stats := (stats st)\<lparr>totalPoolGets := totalPoolGets (stats st) + 1,
                                                totalPoolPuts := totalPoolPuts (stats st) + 1\<rparr>\<rparr>) \<and>
    pool_ok pool' \<and> blur_only mexp radius input w h = Some out \<and> length out = length input"
proof -
  obtain buf rest where get: "pool_Get (pool_pick env) (kernelPool st) = (buf, rest)" by fastforce
  note ok = pool_Get_ok [OF pool get]
  obtain out buf' where run: "GaussianBlur mexp buf input w h radius = Some (out, buf')"
    "length out = length input" "length buf' = 31"
    using GaussianBlur_defined [OF fits ok(1)] by blast
  have "blur_only mexp radius input w h = Some out"
    using GaussianBlur_any_buffer [OF fits, of "replicate 31 (Fin 0)" buf mexp radius] ok(1) run(1)
    by (simp add: blur_only_def)
  moreover have "pool_ok (pool_Put buf' rest)" using ok(2) run(3) by (simp add: pool_ok_def pool_Put_def)
  ultimately show ?thesis
    using run get by (intro exI [of _ out] exI [of _ "pool_Put buf' rest"]) (simp add: pooled_blur_def Let_def)
qed

section \<open>What a chunk is answered with\<close>

text \<open>The filter a chunk asks for, as a function of the frame alone.\<close>

definition filter_frame :: "(fl \<Rightarrow> fl) \<Rightarrow> FilterType \<times> fl \<times> fl \<Rightarrow> bytes \<Rightarrow> int \<Rightarrow> int \<Rightarrow> bytes option" where
  "filter_frame mexp choice input w h = (case choice of (filt, radius, intensity) \<Rightarrow>
     if filt = FILTER_TYPE_GRAYSCALE then Grayscale input w h
     else if filt = FILTER_TYPE_SHARPEN then Sharpen input w h intensity
     else if filt = FILTER_TYPE_EDGE_DETECT then EdgeDetect input w h
     else blur_only mexp radius input w h)"

interpretation chosen: pixel_filter "filter_frame mexp choice" for mexp choice
  by unfold_locales
    (auto simp: filter_frame_def gray.total sharpen.total edge.total blur.total split: prod.splits)

definition valid_chunk :: "MediaChunk \<Rightarrow> bool" where
  "valid_chunk chunk \<longleftrightarrow> mc_Type chunk \<in> {MEDIA_TYPE_VIDEO, MEDIA_TYPE_IMAGE} \<and>
     int (length (mc_Data chunk)) = sint (mc_Width chunk) * sint (mc_Height chunk) * 3"

definition chunk_frame :: "(fl \<Rightarrow> fl) \<Rightarrow> MediaChunk \<Rightarrow> bytes option" where
  "chunk_frame mexp chunk = filter_frame mexp (chunk_params (mc_Params chunk)) (mc_Data chunk)
     (sint (mc_Width chunk)) (sint (mc_Height chunk))"

text \<open>
  The contract: the answer to a chunk, without the server's state. Only the processing time and
  the memory figures depend on the environment.
\<close>

definition chunk_reply :: "(fl \<Rightarrow> fl) \<Rightarrow> call_env \<Rightarrow> MediaChunk \<Rightarrow> ProcessedChunk" where
  "chunk_reply mexp env chunk =
     (let blank = blank_result (mc_SequenceId chunk) in
      if mc_Type chunk \<notin> {MEDIA_TYPE_VIDEO, MEDIA_TYPE_IMAGE}
      then blank\<lparr>pc_ErrorMessage := ''Unsupported media type''\<rparr>
      else if \<not> valid_chunk chunk
      then blank\<lparr>pc_ErrorMessage := size_error (wrap64 (sint (mc_Width chunk) * sint (mc_Height chunk) * 3))
             (length (mc_Data chunk))\<rparr>
      else blank\<lparr>pc_Data := the (chunk_frame mexp chunk), pc_Success := True,
             pc_ProcessingTimeNs := elapsed_ns env,
             pc_MemoryMetrics := Some \<lparr>mm_ArenaAllocatedBytes = 0, mm_ArenaUsedBytes = 0,
               mm_TotalAllocations = mem_Mallocs env, mm_HeapUsedBytes = mem_HeapAlloc env\<rparr>\<rparr>)"

lemma chunk_reply_facts:
  "pc_SequenceId (chunk_reply mexp env chunk) = mc_SequenceId chunk"
  "pc_Success (chunk_reply mexp env chunk) = valid_chunk chunk"
  "pc_Data (chunk_reply mexp env chunk) = (if valid_chunk chunk then the (chunk_frame mexp chunk) else [])"
  "pc_ErrorMessage (chunk_reply mexp env chunk) = [] \<longleftrightarrow> valid_chunk chunk"
proof -
  have "mc_Type chunk \<in> {MEDIA_TYPE_VIDEO, MEDIA_TYPE_IMAGE}" if "valid_chunk chunk"
    using that by (simp add: valid_chunk_def)
  then show "pc_SequenceId (chunk_reply mexp env chunk) = mc_SequenceId chunk"
    "pc_Success (chunk_reply mexp env chunk) = valid_chunk chunk"
    "pc_Data (chunk_reply mexp env chunk) = (if valid_chunk chunk then the (chunk_frame mexp chunk) else [])"
    "pc_ErrorMessage (chunk_reply mexp env chunk) = [] \<longleftrightarrow> valid_chunk chunk"
    by (auto simp: chunk_reply_def blank_result_def size_error_def Let_def)
qed

text \<open>No Go slice reaches this length; the transport refuses messages above 100 MB long before.\<close>

definition sized :: "MediaChunk \<Rightarrow> bool" where
  "sized chunk \<longleftrightarrow> length (mc_Data chunk) < 2 ^ 62"

lemma valid_chunk_fits:
  "valid_chunk chunk \<Longrightarrow> sized chunk \<Longrightarrow>
     frame_fits (mc_Data chunk) (sint (mc_Width chunk)) (sint (mc_Height chunk))"
  by (auto simp: valid_chunk_def sized_def frame_fits_def in_i64_def)

text \<open>What holds of the server between calls.\<close>

definition server_inv :: "processor_state \<Rightarrow> bool" where
  "server_inv st \<longleftrightarrow> pool_ok (kernelPool st) \<and> totalPoolGets (stats st) = totalPoolPuts (stats st) \<and>
     totalAllocs (stats st) = totalFrames (stats st) \<and>
     totalFrames (stats st) = word_of_nat (framesProcessed st) \<and>
     length (processingTime st) = framesProcessed st"

lemma initial_processor_inv: "server_inv (initial_processor now)"
  by (simp add: server_inv_def initial_processor_def pool_ok_def)

lemma apply_filter_spec:
  assumes fits: "frame_fits data w h" and inv: "server_inv st"
  shows "\<exists>out st'. apply_filter mexp env choice data w h st = Some (out, st') \<and> server_inv st' \<and>
    filter_frame mexp choice data w h = Some out \<and> length out = length data \<and>
    framesProcessed st' = framesProcessed st \<and> totalTimeNs (stats st') = totalTimeNs (stats st) \<and>
    startTime (stats st') = startTime (stats st)"
proof -
  obtain filt radius intensity where choice: "choice = (filt, radius, intensity)" by (cases choice)
  have pool: "pool_ok (kernelPool st)" using inv by (simp add: server_inv_def)
  show ?thesis
  proof (cases "filt \<in> {FILTER_TYPE_GRAYSCALE, FILTER_TYPE_SHARPEN, FILTER_TYPE_EDGE_DETECT}")
    case True
    then show ?thesis
      using gray.total [OF fits] sharpen.total [OF fits, of intensity] edge.total [OF fits] inv
      by (auto simp: apply_filter_def filter_frame_def choice)
  next
    case False
    then show ?thesis
      using pooled_blur_spec [OF fits pool, of mexp env radius] inv
      by (auto simp: apply_filter_def filter_frame_def choice server_inv_def)
  qed
qed

lemma count_chunk_inv: "server_inv st \<Longrightarrow> server_inv (count_chunk ns st)"
  by (simp add: server_inv_def count_chunk_def)

lemma processChunk_spec:
  assumes inv: "server_inv st" and sized: "sized chunk"
  shows "\<exists>st'. processChunk mexp env chunk st = Some (chunk_reply mexp env chunk, st') \<and> server_inv st' \<and>
    framesProcessed st' = framesProcessed st + (if valid_chunk chunk then 1 else 0) \<and>
    totalTimeNs (stats st') = totalTimeNs (stats st) + (if valid_chunk chunk then elapsed_ns env else 0) \<and>
    (\<not> valid_chunk chunk \<longrightarrow> st' = st)"
proof -
  let ?w = "sint (mc_Width chunk)" and ?h = "sint (mc_Height chunk)"
  have size: "int (length (mc_Data chunk)) = wrap64 (?w * ?h * 3) \<longleftrightarrow> int (length (mc_Data chunk)) = ?w * ?h * 3"
    by (rule size_check_exact) (use sized in \<open>simp_all add: sized_def\<close>)
  show ?thesis
  proof (cases "valid_chunk chunk")
    case False
    then show ?thesis
      using inv size
      by (auto simp: processChunk_def chunk_reply_def valid_chunk_def Let_def blank_result_def)
  next
    case True
    obtain out st1 where run: "apply_filter mexp env (chunk_params (mc_Params chunk)) (mc_Data chunk) ?w ?h st =
        Some (out, st1)" "server_inv st1" "framesProcessed st1 = framesProcessed st"
      "totalTimeNs (stats st1) = totalTimeNs (stats st)" and frame: "chunk_frame mexp chunk = Some out"
      using apply_filter_spec [OF valid_chunk_fits [OF True sized] inv] unfolding chunk_frame_def by blast
    have type: "mc_Type chunk \<in> {MEDIA_TYPE_VIDEO, MEDIA_TYPE_IMAGE}" using True by (simp add: valid_chunk_def)
    have len: "int (length (mc_Data chunk)) = wrap64 (?w * ?h * 3)"
      using True size by (simp add: valid_chunk_def)
    have "processChunk mexp env chunk st = Some (chunk_reply mexp env chunk, count_chunk (elapsed_ns env) st1)"
      using type by (auto simp: processChunk_def chunk_reply_def True frame len [symmetric] run Let_def)
    then show ?thesis
      using run True by (auto simp: count_chunk_inv) (simp_all add: count_chunk_def)
  qed
qed

lemma processChunk_pure:
  "server_inv st \<Longrightarrow> sized chunk \<Longrightarrow>
     map_option fst (processChunk mexp env chunk st) = Some (chunk_reply mexp env chunk)"
  using processChunk_spec [of st chunk mexp env] by auto

section \<open>The answers of a stream\<close>

fun stream_replies :: "(fl \<Rightarrow> fl) \<Rightarrow> (recv \<times> call_env \<times> string option) list \<Rightarrow> ProcessedChunk list" where
  "stream_replies mexp ((Received chunk, env, None) # rounds) =
     chunk_reply mexp env chunk # stream_replies mexp rounds"
| "stream_replies mexp rounds = []"

fun stream_stop :: "(recv \<times> call_env \<times> string option) list \<Rightarrow> stream_end" where
  "stream_stop [] = Waiting"
| "stream_stop ((EOF, env, sent) # rounds) = Finished"
| "stream_stop ((RecvFailed e, env, sent) # rounds) = Failed e"
| "stream_stop ((Received chunk, env, Some e) # rounds) = Failed e"
| "stream_stop ((Received chunk, env, None) # rounds) = stream_stop rounds"

text \<open>The chunks the loop processes: those before the stream ends and the one whose answer is lost.\<close>

fun stream_chunks :: "(recv \<times> call_env \<times> string option) list \<Rightarrow> (MediaChunk \<times> call_env) list" where
  "stream_chunks ((Received chunk, env, None) # rounds) = (chunk, env) # stream_chunks rounds"
| "stream_chunks ((Received chunk, env, Some e) # rounds) = [(chunk, env)]"
| "stream_chunks rounds = []"

text \<open>The processing times of the valid ones among some chunks.\<close>

definition valid_times :: "(MediaChunk \<times> call_env) list \<Rightarrow> i64 list" where
  "valid_times cs = map (\<lambda>(c, e). elapsed_ns e) (filter (\<lambda>(c, e). valid_chunk c) cs)"

lemma valid_times_Cons [simp]:
  "valid_times [] = []"
  "valid_times ((c, e) # cs) = (if valid_chunk c then elapsed_ns e # valid_times cs else valid_times cs)"
  by (simp_all add: valid_times_def)

lemma ProcessMediaStream_spec:
  assumes "server_inv st" and "\<forall>(chunk, env) \<in> set (stream_chunks rounds). sized chunk"
  shows "\<exists>st'. ProcessMediaStream mexp rounds st = Some (stream_replies mexp rounds, stream_stop rounds, st') \<and>
    server_inv st' \<and>
    framesProcessed st' = framesProcessed st + length (valid_times (stream_chunks rounds)) \<and>
    totalTimeNs (stats st') = totalTimeNs (stats st) + sum_list (valid_times (stream_chunks rounds))"
  using assms
proof (induction rounds arbitrary: st rule: stream_stop.induct)
  case (4 chunk env e rounds)
  then show ?case using processChunk_spec [of st chunk mexp env] by fastforce
next
  case (5 chunk env rounds)
  obtain st1 where st1: "processChunk mexp env chunk st = Some (chunk_reply mexp env chunk, st1)" "server_inv st1"
    "framesProcessed st1 = framesProcessed st + (if valid_chunk chunk then 1 else 0)"
    "totalTimeNs (stats st1) = totalTimeNs (stats st) + (if valid_chunk chunk then elapsed_ns env else 0)"
    using processChunk_spec [of st chunk mexp env] "5.prems" by auto
  show ?case using "5.IH" [OF st1(2)] "5.prems" st1 by (auto simp: algebra_simps)
qed auto

text \<open>A stream the client closes, over a transport that delivers every answer.\<close>

definition clean_stream :: "(MediaChunk \<times> call_env) list \<Rightarrow> call_env \<Rightarrow> (recv \<times> call_env \<times> string option) list" where
  "clean_stream cs env = map (\<lambda>(c, e). (Received c, e, None)) cs @ [(EOF, env, None)]"

lemma clean_stream_facts:
  "stream_replies mexp (clean_stream cs env) = map (\<lambda>(c, e). chunk_reply mexp e c) cs"
  "stream_stop (clean_stream cs env) = Finished"
  "stream_chunks (clean_stream cs env) = cs"
  by (induction cs) (auto simp: clean_stream_def)

section \<open>Rounding of the statistics\<close>

lemma fl_round_mono64:
  assumes "0 \<le> a" "a \<le> b" "b \<le> 2 ^ 64"
  shows "\<exists>r s. fl_round F64 a = Fin r \<and> fl_round F64 b = Fin s \<and> 0 \<le> r \<and> r \<le> s \<and> s \<le> 2 ^ 64"
proof -
  have p: "0 < prec F64" by simp
  have m: "mag F64 (2 ^ 64) = 2 ^ 64" using mag_exact [of 1 F64 64] by (simp add: pow2_def)
  have b: "mag F64 b \<le> 2 ^ 64" using mag_mono [of b "2 ^ 64" F64] assms m by simp
  have "mag F64 a \<le> mag F64 b" using mag_mono [OF assms(1,2) p] .
  moreover have "(2 :: rat) ^ 64 < pow2 (emax F64 + 1)" by (simp add: pow2_def)
  ultimately show ?thesis
    using assms b by (simp add: fl_round_nonneg mag_nonneg)
qed

lemma float64_of_pos:
  assumes "0 < sint n"
  shows "\<exists>q. float64_of n = Fin q \<and> 0 < q"
proof -
  have "sint n < 2 ^ 63" using sint_lt [of n] by simp
  then have "of_int (sint n) \<le> (of_int (2 ^ 64) :: rat)" by (subst of_int_le_iff) simp
  moreover have "(1 :: rat) \<le> of_int (sint n)" using assms by (subst of_int_1_le_iff) simp
  moreover have "fl_round F64 1 = Fin 1" using fl_round_int64 [of 1] by simp
  ultimately obtain s where "fl_round F64 (of_int (sint n)) = Fin s" "1 \<le> s"
    using fl_round_mono64 [of 1 "of_int (sint n)"] by auto
  then show ?thesis by (auto simp: float64_of_def simp del: of_int_sint)
qed

lemma sint_sum_list:
  assumes "\<forall>x \<in> set xs. 0 \<le> sint x \<and> sint x \<le> b" and "int (length xs) * b < 2 ^ 63"
  shows "sint (sum_list xs :: i64) = sum_list (map sint xs)"
    and "0 \<le> sum_list (map sint xs)" and "sum_list (map sint xs) \<le> int (length xs) * b"
proof -
  have "sint (sum_list xs :: i64) = sum_list (map sint xs) \<and> 0 \<le> sum_list (map sint xs) \<and>
      sum_list (map sint xs) \<le> int (length xs) * b"
    using assms
  proof (induction xs)
    case (Cons x xs)
    have x: "0 \<le> sint x" "sint x \<le> b" using Cons.prems(1) by simp_all
    have shorter: "int (length (x # xs)) * b = int (length xs) * b + b" by (simp add: algebra_simps)
    have IH: "sint (sum_list xs) = sum_list (map sint xs)" "0 \<le> sum_list (map sint xs)"
      "sum_list (map sint xs) \<le> int (length xs) * b"
      using Cons.IH Cons.prems shorter x by simp_all
    have "sint x + sint (sum_list xs) < 2 ^ 63"
      using IH x shorter Cons.prems(2) by linarith
    then have "sint (x + sum_list xs) = sint x + sint (sum_list xs)"
      using x IH by (subst sint_plus_i64) simp_all
    then show ?case using IH x shorter by simp
  qed simp
  then show "sint (sum_list xs :: i64) = sum_list (map sint xs)"
    and "0 \<le> sum_list (map sint xs)" and "sum_list (map sint xs) \<le> int (length xs) * b" by simp_all
qed

lemma sum_list_lower:
  fixes xs :: "i64 list" shows "\<forall>x \<in> set xs. a \<le> sint x \<Longrightarrow> int (length xs) * a \<le> sum_list (map sint xs)"
  by (induction xs) (auto simp: algebra_simps)

text \<open>The mean of times between two bounds lies between the rounded bounds.\<close>

lemma average_ms_between:
  assumes F: "0 < sint F" "sint F \<le> 2 ^ 53" and T: "0 \<le> sint T" "sint T \<le> 2 ^ 53"
    and lo: "0 \<le> lo" "sint F * lo \<le> sint T" and hi: "sint T \<le> sint F * hi" "hi \<le> 2 ^ 53"
  shows "\<exists>l a u. fl_div F64 (Fin (of_int lo)) (Fin (10 ^ 6)) = Fin l \<and> average_ms T F = Fin a \<and>
    fl_div F64 (Fin (of_int hi)) (Fin (10 ^ 6)) = Fin u \<and> l \<le> a \<and> a \<le> u"
proof -
  let ?f = "of_int (sint F) :: rat" and ?t = "of_int (sint T) :: rat"
  have f: "0 < ?f" using F by (subst of_int_0_less_iff)
  have le: "of_int lo \<le> ?t / ?f" "?t / ?f \<le> of_int hi"
  proof -
    have "?f * of_int lo \<le> ?t" "?t \<le> ?f * of_int hi"
      using lo(2) hi(1) by (simp_all only: of_int_mult [symmetric] of_int_le_iff)
    then show "of_int lo \<le> ?t / ?f" "?t / ?f \<le> of_int hi"
      using f by (simp_all only: pos_le_divide_eq pos_divide_le_eq mult.commute)
  qed
  have "lo \<le> hi" using le by (meson of_int_le_iff order_trans)
  then have exact: "fl_round F64 (of_int lo) = Fin (of_int lo)" "fl_round F64 (of_int hi) = Fin (of_int hi)"
    using lo hi by (intro fl_round_int64; simp)+
  have hi64: "(of_int hi :: rat) \<le> 2 ^ 64"
  proof -
    have "of_int hi \<le> (of_int (2 ^ 53) :: rat)" using hi(2) by (subst of_int_le_iff)
    then show ?thesis by simp
  qed
  have lo0: "0 \<le> (of_int lo :: rat)" using lo(1) by simp
  obtain r where r: "fl_round F64 (?t / ?f) = Fin r" "of_int lo \<le> r" "r \<le> of_int hi"
    using fl_round_mono64 [OF lo0 le(1)] fl_round_mono64 [of "?t / ?f" "of_int hi"] le hi64 lo0 exact
    by fastforce
  obtain l a where la: "fl_round F64 (of_int lo / 10 ^ 6) = Fin l" "fl_round F64 (r / 10 ^ 6) = Fin a" "l \<le> a"
    using fl_round_mono64 [of "of_int lo / 10 ^ 6" "r / 10 ^ 6"] r hi64 lo0 by auto
  obtain u where u: "fl_round F64 (of_int hi / 10 ^ 6) = Fin u" "a \<le> u"
    using fl_round_mono64 [of "r / 10 ^ 6" "of_int hi / 10 ^ 6"] r hi64 lo0 la(2) by auto
  have "average_ms T F = Fin a"
    using F T f r(1) la(2) by (simp add: average_ms_def float64_of_exact del: of_int_sint)
  then show ?thesis using la u by simp
qed

section \<open>Properties\<close>

text \<open>A request and an environment for concrete instances.\<close>

definition sample_env :: call_env where
  "sample_env = \<lparr>elapsed_ns = 1500000, mem_HeapAlloc = 4096, mem_HeapSys = 8192, mem_Mallocs = 7, pool_pick = Some 0\<rparr>"

definition sample_chunk :: "bytes \<Rightarrow> FilterType \<Rightarrow> i32 \<Rightarrow> i32 \<Rightarrow> MediaChunk" where
  "sample_chunk data filt w h = \<lparr>mc_Data = data, mc_Type = MEDIA_TYPE_IMAGE, mc_Width = w, mc_Height = h,
     mc_Codec = ''raw'', mc_SequenceId = 7, mc_TimestampNs = 0,
     mc_Params = Some \<lparr>pp_Filter = filt, pp_BlurRadius = Fin 1, pp_Intensity = Fin 0\<rparr>\<rparr>"

text \<open>
  C5. Refinement: for every chunk and every reachable server state, \<open>processChunk\<close> does not
  panic, and its answer is the one the stateless contract \<open>chunk_reply\<close> prescribes, whatever the
  pool hands out and whatever was processed before. A rejected chunk leaves the server untouched; an
  accepted one counts one frame and its processing time.
\<close>

theorem processChunk_contract:
  assumes "server_inv st" and "sized chunk"
  shows "\<exists>st'. processChunk mexp env chunk st = Some (chunk_reply mexp env chunk, st') \<and> server_inv st' \<and>
    framesProcessed st' = framesProcessed st + (if valid_chunk chunk then 1 else 0) \<and>
    totalTimeNs (stats st') = totalTimeNs (stats st) + (if valid_chunk chunk then elapsed_ns env else 0) \<and>
    (\<not> valid_chunk chunk \<longrightarrow> st' = st)"
  using processChunk_spec [OF assms] .

theorem processChunk_contract_witness:
  "\<exists>st'. processChunk sample_exp sample_env (sample_chunk [200, 100, 50] 4 1 1) (initial_processor 0) =
     Some (chunk_reply sample_exp sample_env (sample_chunk [200, 100, 50] 4 1 1), st') \<and> framesProcessed st' = 1"
proof -
  have "sized (sample_chunk [200, 100, 50] 4 1 1)" "valid_chunk (sample_chunk [200, 100, 50] 4 1 1)"
    "framesProcessed (initial_processor 0) = 0"
    by (simp_all add: sized_def valid_chunk_def sample_chunk_def initial_processor_def)
  then show ?thesis
    using processChunk_contract [OF initial_processor_inv, of "sample_chunk [200, 100, 50] 4 1 1" sample_exp sample_env 0]
    by auto
qed

text \<open>
  Which chunks are accepted: exactly the video and image chunks whose data has
  \<open>width * height * 3\<close> bytes, as a product of mathematical integers (the 64-bit product the code
  computes never lets another size pass). The answer carries the sequence id; an accepted chunk gets a
  frame of the same size and no message, a rejected one a message and no data.
\<close>

theorem processChunk_accepts:
  assumes "server_inv st" and "sized chunk" and "processChunk mexp env chunk st = Some (r, st')"
  shows "pc_SequenceId r = mc_SequenceId chunk \<and>
    (pc_Success r \<longleftrightarrow> mc_Type chunk \<in> {MEDIA_TYPE_VIDEO, MEDIA_TYPE_IMAGE} \<and>
      int (length (mc_Data chunk)) = sint (mc_Width chunk) * sint (mc_Height chunk) * 3) \<and>
    length (pc_Data r) = (if pc_Success r then length (mc_Data chunk) else 0) \<and>
    (pc_ErrorMessage r = [] \<longleftrightarrow> pc_Success r)"
proof -
  have r: "r = chunk_reply mexp env chunk"
    using processChunk_pure [OF assms(1,2), of mexp env] assms(3) by simp
  have frame: "length (the (chunk_frame mexp chunk)) = length (mc_Data chunk)" if "valid_chunk chunk"
    using chosen.total [OF valid_chunk_fits [OF that assms(2)], of mexp "chunk_params (mc_Params chunk)"]
    by (auto simp: chunk_frame_def)
  show ?thesis unfolding r chunk_reply_facts using frame by (simp add: valid_chunk_def)
qed

theorem processChunk_accepts_witness:
  "\<exists>r st'. processChunk sample_exp sample_env (sample_chunk [200, 100] 4 1 1) (initial_processor 0) = Some (r, st') \<and>
     \<not> pc_Success r \<and> pc_SequenceId r = 7"
proof -
  let ?c = "sample_chunk [200, 100] 4 1 1"
  have ok: "sized ?c" by (simp add: sized_def sample_chunk_def)
  obtain r st' where run: "processChunk sample_exp sample_env ?c (initial_processor 0) = Some (r, st')"
    using processChunk_spec [OF initial_processor_inv ok] by blast
  show ?thesis
    using processChunk_accepts [OF initial_processor_inv ok run] run by (auto simp: sample_chunk_def)
qed

text \<open>
  Defaults: a chunk without parameters is answered, and counted, exactly as one that asks
  for an unknown filter (or for the blur) with a radius that is not positive (zero, negative or
  NaN), whatever its intensity: the blur of radius 5.
\<close>

theorem processChunk_defaults:
  assumes "filt \<notin> {FILTER_TYPE_SHARPEN, FILTER_TYPE_EDGE_DETECT, FILTER_TYPE_GRAYSCALE}" and "\<not> fl_less (Fin 0) radius"
  shows "processChunk mexp env (chunk\<lparr>mc_Params := Some \<lparr>pp_Filter = filt, pp_BlurRadius = radius, pp_Intensity = i\<rparr>\<rparr>) st =
    processChunk mexp env (chunk\<lparr>mc_Params := None\<rparr>) st"
  using assms by (simp add: processChunk_def chunk_params_def apply_filter_def Let_def)

theorem processChunk_defaults_witness:
  "processChunk sample_exp sample_env (sample_chunk [9, 9, 9] 4 1 1
     \<lparr>mc_Params := Some \<lparr>pp_Filter = 99, pp_BlurRadius = NaN, pp_Intensity = Fin 2\<rparr>\<rparr>) (initial_processor 0) =
   processChunk sample_exp sample_env (sample_chunk [9, 9, 9] 4 1 1\<lparr>mc_Params := None\<rparr>) (initial_processor 0)"
  by (rule processChunk_defaults) simp_all

text \<open>
  The size check lets two negative dimensions pass, since only their product is compared: such
  a chunk is answered with success, and with a black frame for every filter but grayscale.
\<close>

theorem processChunk_negative_dimensions:
  assumes "server_inv st" and "sized chunk"
    and "mc_Type chunk \<in> {MEDIA_TYPE_VIDEO, MEDIA_TYPE_IMAGE}"
    and "sint (mc_Width chunk) < 0" and "sint (mc_Height chunk) < 0"
    and "int (length (mc_Data chunk)) = sint (mc_Width chunk) * sint (mc_Height chunk) * 3"
    and "fst (chunk_params (mc_Params chunk)) \<noteq> FILTER_TYPE_GRAYSCALE"
  shows "\<exists>r st'. processChunk mexp env chunk st = Some (r, st') \<and> pc_Success r \<and>
    pc_Data r = replicate (length (mc_Data chunk)) 0"
proof -
  have valid: "valid_chunk chunk" using assms(3,6) by (simp add: valid_chunk_def)
  obtain filt radius intensity where choice: "chunk_params (mc_Params chunk) = (filt, radius, intensity)"
    by (cases "chunk_params (mc_Params chunk)")
  note fits = valid_chunk_fits [OF valid assms(2)]
  have size: "wrap64 (sint (mc_Width chunk) * sint (mc_Height chunk) * 3) = int (length (mc_Data chunk))"
    using fits by (simp add: frame_fits_def wrap64_id)
  have n: "kernel_size radius \<le> 31" "0 \<le> kernel_size radius"
    using kernel_size_bounds [of radius] by simp_all
  have "blur_only mexp radius (mc_Data chunk) (sint (mc_Width chunk)) (sint (mc_Height chunk)) =
      Some (replicate (length (mc_Data chunk)) 0)"
    using n assms(5) by (simp add: blur_only_def GaussianBlur_def Let_def size make_slice_def slice_to_def
        generateGaussianKernel_eq)
  moreover have "Sharpen (mc_Data chunk) (sint (mc_Width chunk)) (sint (mc_Height chunk)) intensity =
      Some (replicate (length (mc_Data chunk)) 0)"
    using assms(5) by (simp add: Sharpen_def Let_def)
  moreover have "EdgeDetect (mc_Data chunk) (sint (mc_Width chunk)) (sint (mc_Height chunk)) =
      Some (replicate (length (mc_Data chunk)) 0)"
    using edge.no_panic [OF fits] assms(5) by (auto simp: EdgeDetect_def Let_def bind_eq_None_conv)
  ultimately have "chunk_frame mexp chunk = Some (replicate (length (mc_Data chunk)) 0)"
    using assms(7) by (simp add: chunk_frame_def filter_frame_def choice)
  then show ?thesis
    using processChunk_spec [OF assms(1,2), of mexp env] valid assms(3)
    by (auto simp: chunk_reply_def Let_def)
qed

theorem processChunk_negative_dimensions_witness:
  "\<exists>r st'. processChunk sample_exp sample_env (sample_chunk [200, 100, 50] 1 (- 1) (- 1)) (initial_processor 0) =
     Some (r, st') \<and> pc_Success r \<and> pc_Data r = [0, 0, 0]"
  using processChunk_negative_dimensions [OF initial_processor_inv [of 0],
      of "sample_chunk [200, 100, 50] 1 (- 1) (- 1)" sample_exp sample_env]
  by (simp add: sized_def sample_chunk_def chunk_params_def numeral_3_eq_3)

text \<open>
  C27. A stream over a working transport: for any sequence of chunks followed by the end of the
  stream, \<open>ProcessMediaStream\<close> returns \<open>nil\<close> after sending one answer per chunk, in the order of the
  chunks, each the one the contract prescribes and with the chunk's own sequence id. The frame
  counter grows by the number of accepted chunks.
\<close>

theorem ProcessMediaStream_answers:
  assumes "server_inv st" and "\<forall>(chunk, env) \<in> set cs. sized chunk"
  shows "\<exists>replies st'. ProcessMediaStream mexp (clean_stream cs eof) st = Some (replies, Finished, st') \<and>
    replies = map (\<lambda>(chunk, env). chunk_reply mexp env chunk) cs \<and>
    map pc_SequenceId replies = map (\<lambda>(chunk, env). mc_SequenceId chunk) cs \<and>
    server_inv st' \<and> framesProcessed st' = framesProcessed st + length (valid_times cs)"
  using ProcessMediaStream_spec [OF assms(1), of "clean_stream cs eof" mexp] assms(2)
  by (auto simp: clean_stream_facts chunk_reply_facts(1) split: prod.splits)

theorem ProcessMediaStream_answers_witness:
  "\<exists>replies st'. ProcessMediaStream sample_exp
      (clean_stream [(sample_chunk [1, 2, 3] 4 1 1, sample_env), (sample_chunk [] 4 1 1, sample_env)] sample_env)
      (initial_processor 0) = Some (replies, Finished, st') \<and>
    map pc_SequenceId replies = [7, 7] \<and> framesProcessed st' = 1"
proof -
  let ?cs = "[(sample_chunk [1, 2, 3] 4 1 1, sample_env), (sample_chunk [] 4 1 1, sample_env)]"
  have "\<forall>(chunk, env) \<in> set ?cs. sized chunk" by (simp add: sized_def sample_chunk_def)
  moreover have "length (valid_times ?cs) = 1" "framesProcessed (initial_processor 0) = 0"
    "map (\<lambda>(chunk, env). mc_SequenceId chunk) ?cs = [7, 7]"
    by (simp_all add: valid_chunk_def sample_chunk_def initial_processor_def)
  ultimately show ?thesis
    using ProcessMediaStream_answers [OF initial_processor_inv [of 0], of ?cs sample_exp sample_env] by auto
qed

text \<open>
  A stream over any transport, failing receives and failing sends included: the handler never
  panics (a panic would end the whole process), the answers it has sent are those of the first chunks
  received, in order, and the server is left in a good state for the other streams.
\<close>

theorem ProcessMediaStream_robust:
  assumes "server_inv st" and "\<forall>(chunk, env) \<in> set (stream_chunks rounds). sized chunk"
  shows "\<exists>replies stop st'. ProcessMediaStream mexp rounds st = Some (replies, stop, st') \<and> server_inv st' \<and>
    (\<exists>lost. map (\<lambda>(chunk, env). chunk_reply mexp env chunk) (stream_chunks rounds) = replies @ lost \<and>
      length lost \<le> 1)"
proof -
  have "\<exists>lost. map (\<lambda>(chunk, env). chunk_reply mexp env chunk) (stream_chunks rounds) =
      stream_replies mexp rounds @ lost \<and> length lost \<le> 1"
    by (induction rounds rule: stream_stop.induct) auto
  then show ?thesis using ProcessMediaStream_spec [OF assms, of mexp] by blast
qed

theorem ProcessMediaStream_robust_witness:
  "\<exists>replies stop st'. ProcessMediaStream sample_exp
      [(Received (sample_chunk [1, 2, 3] 4 1 1), sample_env, Some ''closed'')] (initial_processor 0) =
    Some (replies, stop, st') \<and> server_inv st' \<and> length replies \<le> 1"
proof -
  let ?r = "[(Received (sample_chunk [1, 2, 3] 4 1 1), sample_env, Some ''closed'')]"
  have "\<forall>(chunk, env) \<in> set (stream_chunks ?r). sized chunk" by (simp add: sized_def sample_chunk_def)
  from ProcessMediaStream_robust [OF initial_processor_inv [of 0] this, of sample_exp]
  show ?thesis by (auto simp: Cons_eq_append_conv)
qed

text \<open>
  The statistics after a stream on a fresh server: the total is the exact sum of the
  processing times of the accepted chunks, and when those times lie between two bounds (in ns), the
  mean that \<open>GetStats\<close> reports lies between the bounds in ms, both rounded to \<open>float64\<close>: the
  roundings of the two divisions never carry the mean outside.
\<close>

theorem GetStats_mean:
  assumes "\<forall>(chunk, env) \<in> set cs. sized chunk"
    and "\<forall>t \<in> set (valid_times cs). lo \<le> sint t \<and> sint t \<le> hi" and "0 \<le> lo"
    and "valid_times cs \<noteq> []" and "int (length (valid_times cs)) * hi \<le> 2 ^ 53" and "length cs \<le> 2 ^ 53"
  shows "\<exists>replies st' l a u. ProcessMediaStream mexp (clean_stream cs eof) (initial_processor now) =
      Some (replies, Finished, st') \<and>
    sint (sr_TotalFramesProcessed (GetStats env up st')) = int (length (valid_times cs)) \<and>
    sint (sr_TotalProcessingTimeNs (GetStats env up st')) = sum_list (map sint (valid_times cs)) \<and>
    fl_div F64 (Fin (of_int lo)) (Fin (10 ^ 6)) = Fin l \<and>
    sr_AvgProcessingTimeMs (GetStats env up st') = Fin a \<and>
    fl_div F64 (Fin (of_int hi)) (Fin (10 ^ 6)) = Fin u \<and> l \<le> a \<and> a \<le> u"
proof -
  let ?ts = "valid_times cs"
  have hi: "lo \<le> hi" using assms(2,4) by (cases ?ts) auto
  have len: "int (length ?ts) \<le> 2 ^ 53" "0 < length ?ts"
    using assms(4,6) by (auto simp: valid_times_def intro: order_trans [OF length_filter_le])
  have hi53: "hi \<le> 2 ^ 53"
  proof -
    have "1 \<le> int (length ?ts)" using len(2) by linarith
    then have "1 * hi \<le> int (length ?ts) * hi" using hi assms(3) by (intro mult_right_mono) linarith+
    then show ?thesis using assms(5) by simp
  qed
  have bounds: "\<forall>x \<in> set ?ts. 0 \<le> sint x \<and> sint x \<le> hi" using assms(2,3) by force
  have "int (length ?ts) * hi < 2 ^ 63" using assms(5) by simp
  note total = sint_sum_list [OF bounds this]
  have low: "int (length ?ts) * lo \<le> sum_list (map sint ?ts)" using assms(2) by (intro sum_list_lower) simp
  obtain st' where run: "ProcessMediaStream mexp (clean_stream cs eof) (initial_processor now) =
      Some (map (\<lambda>(c, e). chunk_reply mexp e c) cs, Finished, st')"
    "server_inv st'" "framesProcessed st' = length ?ts" "totalTimeNs (stats st') = sum_list ?ts"
    using ProcessMediaStream_spec [OF initial_processor_inv, of "clean_stream cs eof" mexp now] assms(1)
    by (auto simp: clean_stream_facts initial_processor_def)
  have frames: "sint (totalFrames (stats st')) = int (length ?ts)"
  proof -
    have "sint (word_of_nat (length ?ts) :: i64) = signed_take_bit 63 (int (length ?ts))"
      by (simp add: signed_of_nat)
    also have "\<dots> = int (length ?ts)" using len by (intro signed_take_bit_int_eq_self) simp_all
    finally show ?thesis using run(2,3) by (simp add: server_inv_def)
  qed
  have "\<exists>l a u. fl_div F64 (Fin (of_int lo)) (Fin (10 ^ 6)) = Fin l \<and>
      average_ms (totalTimeNs (stats st')) (totalFrames (stats st')) = Fin a \<and>
      fl_div F64 (Fin (of_int hi)) (Fin (10 ^ 6)) = Fin u \<and> l \<le> a \<and> a \<le> u"
    using total low frames run(4) len assms(3,5) hi53
    by (intro average_ms_between) simp_all
  then show ?thesis using run frames total(1) by (auto simp: GetStats_def Let_def)
qed

theorem GetStats_mean_witness:
  "\<exists>replies st' a. ProcessMediaStream sample_exp (clean_stream [(sample_chunk [1, 2, 3] 4 1 1, sample_env)] sample_env)
      (initial_processor 0) = Some (replies, Finished, st') \<and>
    sr_AvgProcessingTimeMs (GetStats sample_env 5 st') = Fin a \<and> sint (sr_TotalProcessingTimeNs (GetStats sample_env 5 st')) = 1500000"
proof -
  let ?cs = "[(sample_chunk [1, 2, 3] 4 1 1, sample_env)]"
  have ts: "valid_times ?cs = [1500000]" by (simp add: valid_chunk_def sample_chunk_def sample_env_def)
  have "\<forall>(chunk, env) \<in> set ?cs. sized chunk" by (simp add: sized_def sample_chunk_def)
  from GetStats_mean [OF this, of 1500000 1500000 sample_exp sample_env 0 sample_env 5]
  show ?thesis unfolding ts by auto
qed

text \<open>
  The pool's reuse ratio printed by \<open>/runtime\<close> tells nothing about reuse: between calls the
  number of \<open>Put\<close>s equals the number of \<open>Get\<close>s, so that the ratio is 0 before the first blur and
  1 for ever after, as long as the counter has not wrapped.
\<close>

theorem reuse_ratio_constant:
  assumes "server_inv st" and "0 \<le> sint (totalPoolGets (stats st))"
  shows "reuse_ratio (stats st) = Fin (if totalPoolGets (stats st) = 0 then 0 else 1)"
proof (cases "totalPoolGets (stats st) = 0")
  case False
  then have pos: "0 < sint (totalPoolGets (stats st))"
    using assms(2) by (metis order_le_imp_less_or_eq signed_eq_0_iff)
  obtain q where q: "float64_of (totalPoolGets (stats st)) = Fin q" "0 < q"
    using float64_of_pos [OF pos] by blast
  have "totalPoolPuts (stats st) = totalPoolGets (stats st)" using assms(1) by (simp add: server_inv_def)
  then show ?thesis using q pos False fl_round_int64 [of 1] by (simp add: reuse_ratio_def)
qed (simp add: reuse_ratio_def)

theorem reuse_ratio_constant_witness: "reuse_ratio (stats (initial_processor 0)) = Fin 0"
  using reuse_ratio_constant [OF initial_processor_inv [of 0]] by (simp add: initial_processor_def)

end
