(* ===== verification/Processor_Pool.thy ===== *)
theory Processor_Pool
  imports Processor_Server
begin

text \<open>
  The gateway's client side (\<open>gateway/internal/grpc/client.go\<close>): one connection
  (\<open>ProcessorClient\<close>) with its single-chunk call, and the pool of connections with its
  round-robin and sticky routing (\<open>ProcessorPool\<close>).

  A connection is known by the handle the dial returned and its address. What the gRPC
  library decides (whether a dial, a call or a close fails) is an argument of the operations. An
  error is \<open>Inl\<close> of its text.
\<close>

type_synonym error = string

record ProcessorClient =
  conn :: nat
  addr :: string

record ProcessorPool =
  clients :: "ProcessorClient list"
  addrs :: "string list"
  current :: "64 word"
  sticky :: i32

section \<open>Construction and shutdown\<close>

definition NewProcessorClient :: "(string \<Rightarrow> error + nat) \<Rightarrow> string \<Rightarrow> error + ProcessorClient" where
  "NewProcessorClient dial a = (case dial a of
     Inl e \<Rightarrow> Inl e
   | Inr c \<Rightarrow> Inr \<lparr>conn = c, addr = a\<rparr>)"

text \<open>\<open>Close\<close> closes every connection, remembers the last error and empties the pool.\<close>

fun last_close_error :: "(ProcessorClient \<Rightarrow> error option) \<Rightarrow> error option \<Rightarrow> ProcessorClient list \<Rightarrow> error option" where
  "last_close_error close lastErr [] = lastErr"
| "last_close_error close lastErr (c # cs) =
     last_close_error close (case close c of None \<Rightarrow> lastErr | Some e \<Rightarrow> Some e) cs"

definition Close :: "(ProcessorClient \<Rightarrow> error option) \<Rightarrow> ProcessorPool \<Rightarrow> error option \<times> ProcessorPool" where
  "Close close p = (last_close_error close None (clients p), p\<lparr>clients := []\<rparr>)"

text \<open>
  The pool under construction: the loop over the addresses appends a client or, on the first
  failing dial, closes the clients made so far. The result carries the list of closed clients.
\<close>

fun dial_all ::
  "(string \<Rightarrow> error + nat) \<Rightarrow> string list \<Rightarrow> ProcessorPool \<Rightarrow> (error + ProcessorPool) \<times> ProcessorClient list" where
  "dial_all dial [] p = (Inr p, [])"
| "dial_all dial (a # as) p = (case NewProcessorClient dial a of
     Inl e \<Rightarrow> (Inl e, clients p)
   | Inr c \<Rightarrow> dial_all dial as (p\<lparr>clients := clients p @ [c]\<rparr>))"

definition NewProcessorPool ::
  "(string \<Rightarrow> error + nat) \<Rightarrow> string list \<Rightarrow> (error + ProcessorPool) \<times> ProcessorClient list" where
  "NewProcessorPool dial as = dial_all dial as \<lparr>clients = [], addrs = as, current = 0, sticky = - 1\<rparr>"

section \<open>Routing\<close>

definition no_clients :: error where "no_clients = ''no available clients in pool''"
definition out_of_range :: error where "out_of_range = ''processor index out of range''"

definition Get :: "ProcessorPool \<Rightarrow> (error + ProcessorClient) \<times> ProcessorPool" where
  "Get p =
     (if clients p = [] then (Inl no_clients, p)
      else if 0 \<le> sint (sticky p) \<and> sint (sticky p) < int (length (clients p))
      then (Inr (clients p ! nat (sint (sticky p))), p)
      else let n = current p + 1; idx = n mod word_of_nat (length (clients p))
           in (Inr (clients p ! unat idx), p\<lparr>current := n\<rparr>))"

definition Count :: "ProcessorPool \<Rightarrow> int" where
  "Count p = int (length (clients p))"

definition Addrs :: "ProcessorPool \<Rightarrow> string list" where
  "Addrs p = addrs p"

definition ClientAt :: "ProcessorPool \<Rightarrow> int \<Rightarrow> error + ProcessorClient" where
  "ClientAt p i = (if i < 0 \<or> int (length (clients p)) \<le> i then Inl out_of_range
     else Inr (clients p ! nat i))"

definition GetSticky :: "ProcessorPool \<Rightarrow> int" where
  "GetSticky p = sint (sticky p)"

definition SetSticky :: "int \<Rightarrow> ProcessorPool \<Rightarrow> error option \<times> ProcessorPool" where
  "SetSticky idx p =
     (if int (length (clients p)) \<le> idx then (Some out_of_range, p)
      else if idx < 0 then (None, p\<lparr>sticky := - 1\<rparr>)
      else (None, p\<lparr>sticky := word_of_int idx\<rparr>))"

text \<open>\<open>HealthCheck\<close> asks every client for its statistics; the map is keyed by address.\<close>

definition HealthCheck :: "(ProcessorClient \<Rightarrow> error + StatsResponse) \<Rightarrow> ProcessorPool \<Rightarrow> string \<rightharpoonup> bool" where
  "HealthCheck get_stats p = fold (\<lambda>c m. m(addr c \<mapsto> (case get_stats c of Inl _ \<Rightarrow> False | Inr _ \<Rightarrow> True)))
     (clients p) Map.empty"

section \<open>A single chunk\<close>

definition normalizeMemoryMode_grpc :: "string \<Rightarrow> string" where
  "normalizeMemoryMode_grpc mode = (if mode \<in> {''heap'', ''no_arena''} then ''no_arena'' else ''arena'')"

text \<open>
  The transport of one call: the errors of opening the stream, of sending, of half-closing it and
  of receiving. Without an error, the first \<open>Recv\<close> returns the server's first message, or the
  end of the stream when it sent none.
\<close>

record transport =
  open_error :: "error option"
  send_error :: "error option"
  close_error :: "error option"
  recv_error :: "error option"

definition recv_first :: "transport \<Rightarrow> ProcessedChunk list \<Rightarrow> error + ProcessedChunk" where
  "recv_first tr replies = (case recv_error tr of
     Some e \<Rightarrow> Inl e
   | None \<Rightarrow> (case replies of [] \<Rightarrow> Inl ''EOF'' | r # rs \<Rightarrow> Inr r))"

text \<open>
  The call: open with the memory mode in the metadata, send, half-close, receive. \<open>serve\<close> is the
  processor behind the connection: its answers for the mode and the chunks it is sent.
\<close>

definition ProcessSingleChunk ::
  "transport \<Rightarrow> (string \<Rightarrow> MediaChunk list \<Rightarrow> ProcessedChunk list) \<Rightarrow> MediaChunk \<Rightarrow> string \<Rightarrow> error + ProcessedChunk" where
  "ProcessSingleChunk tr serve chunk memoryMode = (let mode = normalizeMemoryMode_grpc memoryMode in
     case open_error tr of Some e \<Rightarrow> Inl e
   | None \<Rightarrow> (case send_error tr of Some e \<Rightarrow> Inl e
   | None \<Rightarrow> (case close_error tr of Some e \<Rightarrow> Inl e
   | None \<Rightarrow> recv_first tr (serve mode [chunk]))))"

section \<open>The service the gateway relies on\<close>

text \<open>
  What the HTTP handlers assume of a processor: an answer carries the id of its request; a
  successful one a frame of the size of the request's, any other one a message and no data.
\<close>

locale processor_service =
  fixes call :: "MediaChunk \<Rightarrow> string \<Rightarrow> error + ProcessedChunk"
  assumes reply_id: "call c m = Inr r \<Longrightarrow> pc_SequenceId r = mc_SequenceId c"
    and reply_size: "sized c \<Longrightarrow> call c m = Inr r \<Longrightarrow> pc_Success r \<Longrightarrow> length (pc_Data r) = length (mc_Data c)"
    and reply_error: "call c m = Inr r \<Longrightarrow> \<not> pc_Success r \<Longrightarrow> pc_Data r = [] \<and> pc_ErrorMessage r \<noteq> []"
begin

lemma reply_length:
  "sized c \<Longrightarrow> call c m = Inr r \<Longrightarrow> length (pc_Data r) = (if pc_Success r then length (mc_Data c) else 0)"
  using reply_size reply_error by fastforce

end

text \<open>The Go processor behind the connection, in the state \<open>st\<close>.\<close>

definition go_serve ::
  "(fl \<Rightarrow> fl) \<Rightarrow> call_env \<Rightarrow> processor_state \<Rightarrow> string \<Rightarrow> MediaChunk list \<Rightarrow> ProcessedChunk list" where
  "go_serve mexp env st mode chunks =
     (case ProcessMediaStream mexp (clean_stream (map (\<lambda>c. (c, env)) chunks) env) st of
        None \<Rightarrow> [] | Some (replies, _, _) \<Rightarrow> replies)"

lemma go_serve_spec:
  assumes "server_inv st" "\<forall>c \<in> set chunks. sized c"
  shows "go_serve mexp env st mode chunks = map (chunk_reply mexp env) chunks"
  using ProcessMediaStream_spec [OF assms(1), of "clean_stream (map (\<lambda>c. (c, env)) chunks) env" mexp] assms(2)
  by (auto simp: clean_stream_facts go_serve_def o_def)

text \<open>The state of a processor that has served the given chunks.\<close>

definition server_after :: "(fl \<Rightarrow> fl) \<Rightarrow> (MediaChunk \<times> call_env) list \<Rightarrow> call_env \<Rightarrow> processor_state" where
  "server_after mexp cs env =
     (case ProcessMediaStream mexp (clean_stream (filter (\<lambda>(c, e). sized c) cs) env) (initial_processor 0) of
        None \<Rightarrow> initial_processor 0 | Some (_, _, st) \<Rightarrow> st)"

lemma server_after_inv: "server_inv (server_after mexp cs env)"
proof -
  have "\<forall>(c, e) \<in> set (stream_chunks (clean_stream (filter (\<lambda>(c, e). sized c) cs) env)). sized c"
    by (auto simp: clean_stream_facts)
  from ProcessMediaStream_spec [OF initial_processor_inv this, of mexp 0]
  show ?thesis by (auto simp: server_after_def)
qed

lemma ProcessSingleChunk_Inr:
  assumes "ProcessSingleChunk tr serve c m = Inr r"
  shows "\<exists>rs. serve (normalizeMemoryMode_grpc m) [c] = r # rs"
  using assms by (auto simp: ProcessSingleChunk_def recv_first_def Let_def split: option.splits list.splits)

definition go_call ::
  "transport \<Rightarrow> (fl \<Rightarrow> fl) \<Rightarrow> call_env \<Rightarrow> (MediaChunk \<times> call_env) list \<Rightarrow> MediaChunk \<Rightarrow> string \<Rightarrow> error + ProcessedChunk" where
  "go_call tr mexp env past c m =
     (if sized c then ProcessSingleChunk tr (go_serve mexp env (server_after mexp past env)) c m
      else Inl ''message too large'')"

lemma go_call_reply: "go_call tr mexp env past c m = Inr r \<Longrightarrow> sized c \<and> r = chunk_reply mexp env c"
  using ProcessSingleChunk_Inr [of tr "go_serve mexp env (server_after mexp past env)" c m r]
    go_serve_spec [OF server_after_inv, of "[c]" mexp env mexp past env "normalizeMemoryMode_grpc m"]
  by (auto simp: go_call_def split: if_splits)

lemma chunk_frame_length:
  "sized c \<Longrightarrow> valid_chunk c \<Longrightarrow> length (the (chunk_frame mexp c)) = length (mc_Data c)"
  using chosen.total [OF valid_chunk_fits, of c mexp "chunk_params (mc_Params c)"]
  by (auto simp: chunk_frame_def)

interpretation go: processor_service "go_call tr mexp env past" for tr mexp env past
  by unfold_locales (auto dest!: go_call_reply simp: chunk_reply_facts chunk_frame_length)

section \<open>Round robin\<close>

lemma unat_Suc_u64: "unat (x :: 64 word) + 1 < 2 ^ 64 \<Longrightarrow> unat (x + 1) = Suc (unat x)"
  by (simp add: unat_word_ariths(1))

lemma Get_round_robin:
  assumes "clients p \<noteq> []" "sint (sticky p) < 0" "length (clients p) < 2 ^ 64" "unat (current p) + 1 < 2 ^ 64"
  shows "Get p = (Inr (clients p ! (Suc (unat (current p)) mod length (clients p))), p\<lparr>current := current p + 1\<rparr>)"
proof -
  have "unat (current p + 1) = Suc (unat (current p))"
    using assms(4) by (rule unat_Suc_u64)
  moreover have "unat (word_of_nat (length (clients p)) :: 64 word) = length (clients p)"
    using assms(3) by (simp add: unsigned_of_nat take_bit_nat_eq_self)
  ultimately show ?thesis
    using assms(1,2) by (simp add: Get_def Let_def unat_mod_distrib)
qed

lemma Get_sticky:
  assumes "0 \<le> sint (sticky p)" "sint (sticky p) < int (length (clients p))"
  shows "Get p = (Inr (clients p ! nat (sint (sticky p))), p)"
  using assms by (auto simp: Get_def)

text \<open>\<open>k\<close> calls of \<open>Get\<close> in a row.\<close>

fun gets :: "nat \<Rightarrow> ProcessorPool \<Rightarrow> (error + ProcessorClient) list \<times> ProcessorPool" where
  "gets 0 p = ([], p)"
| "gets (Suc k) p = (let (c, p) = Get p; (cs, p) = gets k p in (c # cs, p))"

lemma gets_round_robin:
  assumes "clients p \<noteq> []" "sint (sticky p) < 0" "length (clients p) < 2 ^ 64" "unat (current p) + k < 2 ^ 64"
  shows "gets k p = (map (\<lambda>i. Inr (clients p ! ((Suc (unat (current p)) + i) mod length (clients p)))) [0..<k],
    p\<lparr>current := current p + word_of_nat k\<rparr>)"
  using assms
proof (induction k arbitrary: p)
  case (Suc k)
  have cur: "unat (current p + 1) = Suc (unat (current p))"
    using Suc.prems(4) by (intro unat_Suc_u64) simp
  have "gets k (p\<lparr>current := current p + 1\<rparr>) =
      (map (\<lambda>i. Inr (clients p ! ((Suc (Suc (unat (current p))) + i) mod length (clients p)))) [0..<k],
       p\<lparr>current := current p + 1 + word_of_nat k\<rparr>)"
    using Suc.IH [of "p\<lparr>current := current p + 1\<rparr>"] Suc.prems cur by simp
  moreover have "[0..<Suc k] = 0 # map Suc [0..<k]" by (simp only: upt_conv_Cons map_Suc_upt zero_less_Suc)
  ultimately show ?case
    using Get_round_robin [of p] Suc.prems by (simp add: o_def algebra_simps)
qed simp

lemma gets_sticky:
  assumes "0 \<le> sint (sticky p)" "sint (sticky p) < int (length (clients p))"
  shows "gets k p = (replicate k (Inr (clients p ! nat (sint (sticky p)))), p)"
  by (induction k) (simp_all add: Get_sticky [OF assms])

lemma sint_word_of_int_i32: "0 \<le> i \<Longrightarrow> i < 2 ^ 31 \<Longrightarrow> sint (word_of_int i :: i32) = i"
  by (simp add: sint_sbintrunc' signed_take_bit_int_eq_self)

section \<open>All interleavings of the pool's operations\<close>

text \<open>
  The methods are atomic under the lock but for \<open>SetSticky\<close>, which compares the index with the
  number of clients under the lock and stores it later. A state is the pool with the indices
  that passed the comparison and are not stored yet.
\<close>

definition store_sticky :: "int \<Rightarrow> ProcessorPool \<Rightarrow> ProcessorPool" where
  "store_sticky idx p = p\<lparr>sticky := (if idx < 0 then - 1 else word_of_int idx)\<rparr>"

lemma SetSticky_atomic: "idx < int (length (clients p)) \<Longrightarrow> SetSticky idx p = (None, store_sticky idx p)"
  by (simp add: SetSticky_def store_sticky_def)

inductive pool_step :: "ProcessorPool \<times> int list \<Rightarrow> ProcessorPool \<times> int list \<Rightarrow> bool" where
  get: "pool_step (p, pend) (snd (Get p), pend)"
| check: "idx < int (length (clients p)) \<Longrightarrow> pool_step (p, pend) (p, idx # pend)"
| store: "idx \<in> set pend \<Longrightarrow> pool_step (p, pend) (store_sticky idx p, remove1 idx pend)"
| close: "pool_step (p, pend) (snd (Close cl p), pend)"

inductive pool_reach :: "ProcessorPool \<Rightarrow> ProcessorPool \<times> int list \<Rightarrow> bool" for p0 where
  init: "pool_reach p0 (p0, [])"
| step: "pool_reach p0 s \<Longrightarrow> pool_step s s' \<Longrightarrow> pool_reach p0 s'"

inductive_cases pool_stepE: "pool_step (p, pend) s'"

definition sticky_ok :: "ProcessorPool \<Rightarrow> bool" where
  "sticky_ok p \<longleftrightarrow> sint (sticky p) = - 1 \<or> 0 \<le> sint (sticky p) \<and> sint (sticky p) < int (length (addrs p))"

definition pool_inv :: "ProcessorPool \<times> int list \<Rightarrow> bool" where
  "pool_inv s \<longleftrightarrow> (case s of (p, pend) \<Rightarrow>
     length (addrs p) \<le> 2 ^ 31 \<and> (clients p = [] \<or> map addr (clients p) = addrs p) \<and> sticky_ok p \<and>
     (\<forall>idx \<in> set pend. idx < int (length (addrs p))))"

lemma Get_keeps: "clients (snd (Get p)) = clients p" "addrs (snd (Get p)) = addrs p" "sticky (snd (Get p)) = sticky p"
  by (simp_all add: Get_def Let_def)

lemma store_sticky_ok: "idx < int (length (addrs p)) \<Longrightarrow> length (addrs p) \<le> 2 ^ 31 \<Longrightarrow> sticky_ok (store_sticky idx p)"
  by (auto simp: sticky_ok_def store_sticky_def sint_word_of_int_i32)

lemma pool_step_inv: "pool_step s s' \<Longrightarrow> pool_inv s \<Longrightarrow> pool_inv s'"
proof (induction rule: pool_step.induct)
  case (get p pend)
  then show ?case by (simp add: pool_inv_def Get_keeps sticky_ok_def)
next
  case (check idx p pend)
  then have "idx < int (length (addrs p))" by (auto simp: pool_inv_def dest: arg_cong [where f = length])
  with check show ?case by (simp add: pool_inv_def)
next
  case (store idx pend p)
  then have "sticky_ok (store_sticky idx p)" by (intro store_sticky_ok) (auto simp: pool_inv_def)
  then show ?case
    using store set_remove1_subset [of idx pend] by (auto simp: pool_inv_def store_sticky_def)
next
  case (close p pend cl)
  then show ?case by (simp add: pool_inv_def Close_def sticky_ok_def)
qed

lemma pool_reach_inv: "pool_reach p0 s \<Longrightarrow> pool_inv (p0, []) \<Longrightarrow> pool_inv s"
  by (induction rule: pool_reach.induct) (auto intro: pool_step_inv)

section \<open>Construction\<close>

definition fresh_pool :: "(string \<Rightarrow> nat) \<Rightarrow> string list \<Rightarrow> ProcessorPool" where
  "fresh_pool conn_of as =
     \<lparr>clients = map (\<lambda>a. \<lparr>conn = conn_of a, addr = a\<rparr>) as, addrs = as, current = 0, sticky = - 1\<rparr>"

lemma dial_all_spec:
  "dial_all dial as p = (case List.find (\<lambda>a. isl (dial a)) as of
     None \<Rightarrow> (Inr (p\<lparr>clients := clients p @ map (\<lambda>a. \<lparr>conn = projr (dial a), addr = a\<rparr>) as\<rparr>), [])
   | Some b \<Rightarrow> (Inl (projl (dial b)),
       clients p @ map (\<lambda>a. \<lparr>conn = projr (dial a), addr = a\<rparr>) (takeWhile (\<lambda>a. \<not> isl (dial a)) as)))"
proof (induction as arbitrary: p)
  case (Cons a as)
  show ?case
  proof (cases "dial a")
    case (Inl e)
    then show ?thesis by (simp add: NewProcessorClient_def)
  next
    case (Inr c)
    then show ?thesis by (simp add: NewProcessorClient_def Cons.IH split: option.splits)
  qed
qed simp

lemma fresh_pool_inv: "length as \<le> 2 ^ 31 \<Longrightarrow> pool_inv (fresh_pool f as, [])"
  by (simp add: pool_inv_def fresh_pool_def sticky_ok_def o_def)

lemma ran_by_keys:
  assumes "dom m = k ` A" "\<And>c. c \<in> A \<Longrightarrow> m (k c) = Some (v c)"
  shows "ran m = v ` A"
proof
  show "ran m \<subseteq> v ` A"
  proof
    fix b assume "b \<in> ran m"
    then obtain a where a: "m a = Some b" by (auto simp: ran_def)
    then obtain c where "c \<in> A" "a = k c" using assms(1) by blast
    then show "b \<in> v ` A" using a assms(2) by auto
  qed
  show "v ` A \<subseteq> ran m" using assms(2) by (auto intro: ranI)
qed

section \<open>Properties\<close>

text \<open>
  C31. Round robin is fair: with no sticky index, any run of as many \<open>Get\<close>s as there are clients
  returns every client exactly once, in pool order, starting after the last one used; the counter
  advances by one for each call (before it wraps at \<open>2^64\<close>).
\<close>

theorem Get_fair:
  assumes "clients p \<noteq> []" and "sint (sticky p) < 0" and "unat (current p) + length (clients p) < 2 ^ 64"
  shows "gets (length (clients p)) p =
    (map Inr (rotate (Suc (unat (current p))) (clients p)),
     p\<lparr>current := current p + word_of_nat (length (clients p))\<rparr>)"
proof -
  have "rotate (Suc (unat (current p))) (clients p) =
      map (\<lambda>i. clients p ! ((Suc (unat (current p)) + i) mod length (clients p))) [0..<length (clients p)]"
    by (rule nth_equalityI) (simp_all add: nth_rotate del: rotate_Suc)
  then show ?thesis
    using gets_round_robin [of p "length (clients p)"] assms by (simp add: o_def)
qed

theorem Get_fair_witness:
  "fst (gets 3 (fresh_pool (\<lambda>_. 0) [''a'', ''b'', ''c''])) =
     map (\<lambda>a. Inr \<lparr>conn = 0, addr = a\<rparr>) [''b'', ''c'', ''a'']"
proof -
  let ?p = "fresh_pool (\<lambda>_. 0) [''a'', ''b'', ''c'']"
  have p: "clients ?p \<noteq> []" "sint (sticky ?p) < 0" "unat (current ?p) + length (clients ?p) < 2 ^ 64"
    and facts: "length (clients ?p) = 3" "current ?p = 0"
    by (simp_all add: fresh_pool_def)
  have "fst (gets 3 ?p) = map Inr (rotate (Suc (unat (0 :: 64 word))) (clients ?p))"
    using Get_fair [OF p] unfolding facts by simp
  then show ?thesis by (simp only:) (simp add: fresh_pool_def)
qed

text \<open>
  Sticky routing: after \<open>SetSticky\<close> with an index of the pool, every \<open>Get\<close> returns that
  client and the round-robin counter stands still; with a negative index, round robin resumes where
  it stopped; with an index beyond the pool there is an error and nothing changes.
\<close>

theorem SetSticky_routes:
  assumes "length (clients p) \<le> 2 ^ 31"
  shows "case SetSticky idx p of (err, p') \<Rightarrow>
    if idx \<ge> int (length (clients p)) then err = Some out_of_range \<and> p' = p
    else err = None \<and> clients p' = clients p \<and> current p' = current p \<and>
      (if idx < 0 then GetSticky p' = - 1
       else GetSticky p' = idx \<and> gets k p' = (replicate k (Inr (clients p ! nat idx)), p'))"
proof (cases "int (length (clients p)) \<le> idx \<or> idx < 0")
  case True
  then show ?thesis by (auto simp: SetSticky_def GetSticky_def)
next
  case False
  then have idx: "sint (word_of_int idx :: i32) = idx" using assms by (intro sint_word_of_int_i32) simp_all
  with False show ?thesis
    using gets_sticky [of "p\<lparr>sticky := word_of_int idx\<rparr>" k] by (simp add: SetSticky_def GetSticky_def)
qed

theorem SetSticky_routes_witness:
  "fst (gets 2 (snd (SetSticky 1 (fresh_pool (\<lambda>_. 0) [''a'', ''b''])))) = replicate 2 (Inr \<lparr>conn = 0, addr = ''b''\<rparr>)"
  using SetSticky_routes [of "fresh_pool (\<lambda>_. 0) [''a'', ''b'']" 1 2]
  by (simp add: fresh_pool_def split: prod.splits)

text \<open>
  C30. Routing is safe under every interleaving of \<open>Get\<close>, \<open>SetSticky\<close> (whose check and store are
  separate steps) and \<open>Close\<close>: the index that \<open>GetSticky\<close> shows is \<open>-1\<close> or names one of the
  addresses that \<open>Addrs\<close> shows, and \<open>Get\<close> returns a client of the pool, or the error exactly when
  the pool is closed; it never indexes outside the clients.
\<close>

theorem pool_interleavings:
  assumes "pool_reach (fresh_pool f as) (p, pend)" and "length as \<le> 2 ^ 31" and "as \<noteq> []"
  shows "(GetSticky p = - 1 \<or> 0 \<le> GetSticky p \<and> GetSticky p < int (length (Addrs p))) \<and>
    (if clients p = [] then fst (Get p) = Inl no_clients
     else \<exists>c \<in> set (clients p). fst (Get p) = Inr c \<and> addr c \<in> set (Addrs p))"
proof -
  have inv: "pool_inv (p, pend)" using pool_reach_inv [OF assms(1) fresh_pool_inv [OF assms(2)]] .
  have idx: "unat (n mod word_of_nat (length (clients p)) :: 64 word) < length (clients p)" if "clients p \<noteq> []" for n
  proof -
    have len: "length (clients p) \<le> 2 ^ 31" using inv that by (auto simp: pool_inv_def dest: arg_cong [where f = length])
    then have "unat (word_of_nat (length (clients p)) :: 64 word) = length (clients p)"
      by (simp add: unsigned_of_nat take_bit_nat_eq_self)
    then show ?thesis using that by (simp add: unat_mod_distrib)
  qed
  have "fst (Get p) \<in> Inr ` set (clients p)" if "clients p \<noteq> []"
    using that idx [OF that] by (auto simp: Get_def Let_def intro!: imageI nth_mem)
  moreover have "addr c \<in> set (Addrs p)" if "c \<in> set (clients p)" for c
  proof -
    have "map addr (clients p) = addrs p" using inv that by (auto simp: pool_inv_def)
    then show ?thesis using that by (metis Addrs_def imageI list.set_map)
  qed
  ultimately show ?thesis
    using inv by (auto simp: pool_inv_def sticky_ok_def GetSticky_def Addrs_def Get_def)
qed

theorem pool_interleavings_witness:
  "\<exists>c. fst (Get (store_sticky 1 (fresh_pool (\<lambda>_. 0) [''a'', ''b'']))) = Inr c"
proof -
  let ?p = "fresh_pool (\<lambda>_. 0) [''a'', ''b'']"
  have "pool_reach ?p (?p, [1])"
    by (rule pool_reach.step [OF pool_reach.init pool_step.check]) (simp add: fresh_pool_def)
  then have "pool_reach ?p (store_sticky 1 ?p, remove1 1 [1])"
    by (rule pool_reach.step) (rule pool_step.store, simp)
  from pool_interleavings [OF this] show ?thesis
    by (auto simp: fresh_pool_def store_sticky_def)
qed

text \<open>
  Construction: when every dial succeeds, the pool has one client per address, in order, and
  starts in round-robin mode; otherwise the error is that of the first failing address, and exactly the
  clients made before it are closed.
\<close>

theorem NewProcessorPool_outcome:
  "NewProcessorPool dial as = (case List.find (\<lambda>a. isl (dial a)) as of
     None \<Rightarrow> (Inr (fresh_pool (\<lambda>a. projr (dial a)) as), [])
   | Some b \<Rightarrow> (Inl (projl (dial b)),
       map (\<lambda>a. \<lparr>conn = projr (dial a), addr = a\<rparr>) (takeWhile (\<lambda>a. \<not> isl (dial a)) as)))"
  unfolding NewProcessorPool_def dial_all_spec by (auto simp: fresh_pool_def split: option.split)

text \<open>
  The health report has one entry per address, not per client: it tells whether the last client
  with that address answers. With distinct addresses no entry is false exactly when every client
  answers; a duplicate address hides the failure of the clients before it.
\<close>

theorem HealthCheck_reports:
  "dom (HealthCheck get_stats p) = addr ` set (clients p) \<and>
   (\<forall>a. HealthCheck get_stats p a =
      map_option (\<lambda>c. \<not> isl (get_stats c)) (List.find (\<lambda>c. addr c = a) (rev (clients p)))) \<and>
   (distinct (map addr (clients p)) \<longrightarrow>
      (False \<notin> ran (HealthCheck get_stats p) \<longleftrightarrow> (\<forall>c \<in> set (clients p). \<not> isl (get_stats c))))"
proof -
  let ?h = "\<lambda>cs. fold (\<lambda>c m. m(addr c \<mapsto> (case get_stats c of Inl _ \<Rightarrow> False | Inr _ \<Rightarrow> True))) cs Map.empty"
  have val: "(case get_stats c of Inl _ \<Rightarrow> False | Inr _ \<Rightarrow> True) = (\<not> isl (get_stats c))" for c
    by (simp split: sum.splits)
  have find: "?h cs a = map_option (\<lambda>c. \<not> isl (get_stats c)) (List.find (\<lambda>c. addr c = a) (rev cs))" for cs a
    by (induction cs rule: rev_induct) (auto simp: val)
  have dom: "dom (?h cs) = addr ` set cs" for cs
    by (induction cs rule: rev_induct) (simp_all only: fold_append fold_simps o_apply dom_fun_upd set_append
        list.set image_Un image_insert image_empty dom_empty option.distinct if_False Un_insert_right Un_empty_right)
  have "?h cs (addr c) = Some (\<not> isl (get_stats c))" if "distinct (map addr cs)" "c \<in> set cs" for cs c
    using that by (induction cs rule: rev_induct) (auto simp: val image_iff)
  then have "ran (?h cs) = (\<lambda>c. \<not> isl (get_stats c)) ` set cs" if "distinct (map addr cs)" for cs
    using that dom [of cs] by (intro ran_by_keys) auto
  then show ?thesis using find dom by (auto simp: HealthCheck_def)
qed

theorem HealthCheck_reports_witness:
  "HealthCheck (\<lambda>c. if conn c = 0 then Inl ''down'' else Inr undefined)
     (fresh_pool (\<lambda>_. 1) [''a'', ''a'']\<lparr>clients := [\<lparr>conn = 0, addr = ''a''\<rparr>, \<lparr>conn = 1, addr = ''a''\<rparr>]\<rparr>) ''a'' = Some True"
  using HealthCheck_reports [of "\<lambda>c. if conn c = 0 then Inl ''down'' else Inr undefined"
      "fresh_pool (\<lambda>_. 1) [''a'', ''a'']\<lparr>clients := [\<lparr>conn = 0, addr = ''a''\<rparr>, \<lparr>conn = 1, addr = ''a''\<rparr>]\<rparr>"]
  by simp

text \<open>
  End to end: over a transport without faults, \<open>ProcessSingleChunk\<close> against the Go processor,
  whatever that processor has served before, returns the answer of the contract, for either memory
  mode; with a fault it returns the error of the first failing step and no answer.
\<close>

theorem ProcessSingleChunk_end_to_end:
  assumes "server_inv st" and "sized chunk"
  shows "ProcessSingleChunk tr (go_serve mexp env st) chunk mode =
    (case List.find (\<lambda>e. e \<noteq> None) [open_error tr, send_error tr, close_error tr, recv_error tr] of
       Some (Some e) \<Rightarrow> Inl e | _ \<Rightarrow> Inr (chunk_reply mexp env chunk))"
  using go_serve_spec [OF assms(1), of "[chunk]" mexp env] assms(2)
  by (auto simp: ProcessSingleChunk_def recv_first_def Let_def split: option.splits)

theorem ProcessSingleChunk_end_to_end_witness:
  "ProcessSingleChunk \<lparr>open_error = None, send_error = None, close_error = None, recv_error = None\<rparr>
     (go_serve sample_exp sample_env (initial_processor 0)) (sample_chunk [1, 2] 4 1 1) ''heap'' =
   Inr (chunk_reply sample_exp sample_env (sample_chunk [1, 2] 4 1 1))"
  using ProcessSingleChunk_end_to_end [OF initial_processor_inv [of 0], of "sample_chunk [1, 2] 4 1 1"
      "\<lparr>open_error = None, send_error = None, close_error = None, recv_error = None\<rparr>" sample_exp sample_env "''heap''"]
  by (simp add: sized_def sample_chunk_def)

end
