(* ===== verification/Stream_Client.thy ===== *)
theory Stream_Client
  imports Processor_Pool "HOL-Library.Sublist"
begin

text \<open>
  \<open>ProcessorClient.ProcessStream\<close> (\<open>gateway/internal/grpc/client.go\<close>) between the goroutine that
  feeds it and the loop that drains it in \<open>HandleProcessStream\<close> (\<open>gateway/internal/http/handlers.go\<close>),
  as one transition system: four goroutines (feeder, sender, reader, consumer), the channels
  \<open>chunks\<close> (capacity 10), \<open>results\<close> (100), \<open>errs\<close> (1) and \<open>sendErr\<close> (1), and the context that is
  cancelled when the consumer returns or the client goes away. A step is one channel operation or one
  call of the gRPC stream; the order of steps is arbitrary.

  The processor answers the \<open>n\<close>-th chunk it was sent with \<open>reply\<close> of that chunk, after any delay.
\<close>

section \<open>States\<close>

datatype reader =
    ROpen
  | RRecv
  | RSelect ProcessedChunk
  | RAwait
  | RFail error
  | RReturn
  | RClosedErrs
  | RDone

datatype sender = SNotStarted | SRange | SSend MediaChunk | SDone

datatype consumer = CLoop | CDrained | CStopped "error option"

record stream_state =
  todo :: "MediaChunk list"
  chunks :: "MediaChunk list"
  chunks_closed :: bool
  sender :: sender
  sent :: "MediaChunk list"
  half_closed :: bool
  sendErr :: "error option list"
  reader :: reader
  received :: nat
  results :: "ProcessedChunk list"
  results_closed :: bool
  errs :: "error list"
  errs_closed :: bool
  failed :: bool
  ctx_done :: bool
  consumer :: consumer
  written :: "ProcessedChunk list"

definition stream_init :: "MediaChunk list \<Rightarrow> stream_state" where
  "stream_init frames = \<lparr>todo = frames, chunks = [], chunks_closed = False, sender = SNotStarted, sent = [],
     half_closed = False, sendErr = [], reader = ROpen, received = 0, results = [], results_closed = False,
     errs = [], errs_closed = False, failed = False, ctx_done = False, consumer = CLoop, written = []\<rparr>"

section \<open>Steps\<close>

text \<open>The feeder: enqueue a frame, or end for whatever reason and close \<open>chunks\<close>.\<close>

inductive feeder_step :: "stream_state \<Rightarrow> stream_state \<Rightarrow> bool" where
  enqueue: "feeder_step s (s\<lparr>todo := cs, chunks := chunks s @ [c]\<rparr>)"
    if "todo s = c # cs" "\<not> chunks_closed s" "length (chunks s) < 10"
| close_chunks: "feeder_step s (s\<lparr>chunks_closed := True\<rparr>)"
    if "\<not> chunks_closed s" "todo s = [] \<or> ctx_done s"

text \<open>The sender: range over \<open>chunks\<close>, send, report the outcome once.\<close>

inductive sender_step :: "stream_state \<Rightarrow> stream_state \<Rightarrow> bool" where
  range: "sender_step s (s\<lparr>sender := SSend c, chunks := cs\<rparr>)"
    if "sender s = SRange" "chunks s = c # cs"
| send: "sender_step s (s\<lparr>sender := SRange, sent := sent s @ [c]\<rparr>)"
    if "sender s = SSend c"
| send_failed: "sender_step s (s\<lparr>sender := SDone, sendErr := [Some e]\<rparr>)"
    if "sender s = SSend c"
| close_send: "sender_step s (s\<lparr>sender := SDone, half_closed := True, sendErr := [None]\<rparr>)"
    if "sender s = SRange" "chunks s = []" "chunks_closed s"

text \<open>
  The reader: open the stream and start the sender; receive; pass the answer on unless the context is
  done; at the end of the stream take the sender's outcome. On return the deferred calls close \<open>errs\<close>
  first and \<open>results\<close> second.
\<close>

inductive reader_step :: "(MediaChunk \<Rightarrow> ProcessedChunk) \<Rightarrow> stream_state \<Rightarrow> stream_state \<Rightarrow> bool" for reply where
  open_stream: "reader_step reply s (s\<lparr>reader := RRecv, sender := SRange\<rparr>)"
    if "reader s = ROpen"
| open_failed: "reader_step reply s (s\<lparr>reader := RFail e\<rparr>)"
    if "reader s = ROpen"
| receive: "reader_step reply s (s\<lparr>reader := RSelect (reply (sent s ! received s)), received := received s + 1\<rparr>)"
    if "reader s = RRecv" "received s < length (sent s)"
| receive_eof: "reader_step reply s (s\<lparr>reader := RAwait\<rparr>)"
    if "reader s = RRecv" "half_closed s" "received s = length (sent s)"
| receive_failed: "reader_step reply s (s\<lparr>reader := RFail e\<rparr>)"
    if "reader s = RRecv"
| deliver: "reader_step reply s (s\<lparr>reader := RRecv, results := results s @ [r]\<rparr>)"
    if "reader s = RSelect r" "length (results s) < 100"
| cancelled: "reader_step reply s (s\<lparr>reader := RFail ''context canceled''\<rparr>)"
    if "reader s = RSelect r" "ctx_done s"
| sender_ok: "reader_step reply s (s\<lparr>reader := RReturn, sendErr := []\<rparr>)"
    if "reader s = RAwait" "sendErr s = [None]"
| sender_failed: "reader_step reply s (s\<lparr>reader := RFail e, sendErr := []\<rparr>)"
    if "reader s = RAwait" "sendErr s = [Some e]"
| report: "reader_step reply s (s\<lparr>reader := RReturn, errs := errs s @ [e], failed := True\<rparr>)"
    if "reader s = RFail e" "length (errs s) < 1"
| close_errs: "reader_step reply s (s\<lparr>reader := RClosedErrs, errs_closed := True\<rparr>)"
    if "reader s = RReturn"
| close_results: "reader_step reply s (s\<lparr>reader := RDone, results_closed := True\<rparr>)"
    if "reader s = RClosedErrs"

text \<open>
  The consumer's \<open>select\<close>: any ready case may be taken. A receive from the closed \<open>errs\<close> is ready at
  once and ends the loop like a \<open>nil\<close> error. Returning cancels the context.
\<close>

inductive consumer_step :: "stream_state \<Rightarrow> stream_state \<Rightarrow> bool" where
  write_result: "consumer_step s (s\<lparr>results := rs, written := written s @ [r]\<rparr>)"
    if "consumer s = CLoop" "results s = r # rs"
| drained: "consumer_step s (s\<lparr>consumer := CDrained, ctx_done := True\<rparr>)"
    if "consumer s = CLoop" "results s = []" "results_closed s"
| stop_error: "consumer_step s (s\<lparr>consumer := CStopped (Some e), errs := es, ctx_done := True\<rparr>)"
    if "consumer s = CLoop" "errs s = e # es"
| stop_closed: "consumer_step s (s\<lparr>consumer := CStopped None, ctx_done := True\<rparr>)"
    if "consumer s = CLoop" "errs s = []" "errs_closed s"

inductive stream_step :: "(MediaChunk \<Rightarrow> ProcessedChunk) \<Rightarrow> stream_state \<Rightarrow> stream_state \<Rightarrow> bool" for reply where
  feeder: "feeder_step s s' \<Longrightarrow> stream_step reply s s'"
| sender: "sender_step s s' \<Longrightarrow> stream_step reply s s'"
| reader: "reader_step reply s s' \<Longrightarrow> stream_step reply s s'"
| consumer: "consumer_step s s' \<Longrightarrow> stream_step reply s s'"
| disconnect: "stream_step reply s (s\<lparr>ctx_done := True\<rparr>)"

inductive stream_reach :: "(MediaChunk \<Rightarrow> ProcessedChunk) \<Rightarrow> MediaChunk list \<Rightarrow> stream_state \<Rightarrow> bool" for reply frames where
  init: "stream_reach reply frames (stream_init frames)"
| step: "stream_reach reply frames s \<Longrightarrow> stream_step reply s s' \<Longrightarrow> stream_reach reply frames s'"

section \<open>Invariants\<close>

text \<open>The answer the reader holds, the chunk the sender holds.\<close>

definition held :: "stream_state \<Rightarrow> ProcessedChunk list" where
  "held s = (case reader s of RSelect r \<Rightarrow> [r] | _ \<Rightarrow> [])"

definition in_hand :: "stream_state \<Rightarrow> MediaChunk list" where
  "in_hand s = (case sender s of SSend c \<Rightarrow> [c] | _ \<Rightarrow> [])"

text \<open>Frames flow in order: sent, in the sender's hand, queued, still to come.\<close>

definition order_inv :: "(MediaChunk \<Rightarrow> ProcessedChunk) \<Rightarrow> MediaChunk list \<Rightarrow> stream_state \<Rightarrow> bool" where
  "order_inv reply frames s \<longleftrightarrow> received s \<le> length (sent s) \<and>
     prefix (written s @ results s @ held s) (map reply (take (received s) (sent s))) \<and>
     (sender s \<noteq> SDone \<longrightarrow> sent s @ in_hand s @ chunks s @ todo s = frames) \<and>
     prefix (sent s) frames"

text \<open>What has been lost, or ended, and why.\<close>

definition end_inv :: "(MediaChunk \<Rightarrow> ProcessedChunk) \<Rightarrow> MediaChunk list \<Rightarrow> stream_state \<Rightarrow> bool" where
  "end_inv reply frames s \<longleftrightarrow>
     (reader s \<in> {ROpen, RRecv, RAwait} \<or> (\<exists>r. reader s = RSelect r) \<longrightarrow>
        \<not> failed s \<and> written s @ results s @ held s = map reply (take (received s) (sent s))) \<and>
     (reader s = ROpen \<longrightarrow> sender s = SNotStarted) \<and>
     ((\<exists>e. reader s = RFail e) \<longrightarrow> \<not> failed s) \<and>
     (reader s \<in> {RReturn, RClosedErrs, RDone} \<and> \<not> failed s \<longrightarrow>
        half_closed s \<and> received s = length (sent s) \<and> written s @ results s = map reply (sent s)) \<and>
     (reader s = RAwait \<longrightarrow> half_closed s \<and> received s = length (sent s)) \<and>
     (half_closed s \<longrightarrow> sender s = SDone \<and> chunks s = [] \<and> chunks_closed s \<and> sent s @ todo s = frames) \<and>
     (half_closed s \<and> (reader s \<in> {ROpen, RRecv, RAwait} \<or> (\<exists>r. reader s = RSelect r)) \<longrightarrow> sendErr s = [None]) \<and>
     (chunks_closed s \<longrightarrow> todo s = [] \<or> ctx_done s) \<and>
     (errs s \<noteq> [] \<longrightarrow> failed s) \<and> length (errs s) \<le> 1 \<and>
     (results_closed s \<longrightarrow> reader s = RDone) \<and>
     (errs_closed s \<longleftrightarrow> reader s \<in> {RClosedErrs, RDone}) \<and>
     (consumer s = CDrained \<longrightarrow> results_closed s \<and> results s = [])"

lemma init_inv: "order_inv reply frames (stream_init frames)" "end_inv reply frames (stream_init frames)"
  by (simp_all add: order_inv_def end_inv_def stream_init_def held_def in_hand_def)

lemma take_received_Suc:
  "received s < length (sent s) \<Longrightarrow>
     take (Suc (received s)) (sent s) = take (received s) (sent s) @ [sent s ! received s]"
  by (rule take_Suc_conv_app_nth)

lemma order_feeder: "feeder_step s s' \<Longrightarrow> order_inv reply frames s \<Longrightarrow> order_inv reply frames s'"
  by (induction rule: feeder_step.induct) (auto simp: order_inv_def held_def in_hand_def)

lemma order_sender: "sender_step s s' \<Longrightarrow> order_inv reply frames s \<Longrightarrow> order_inv reply frames s'"
  by (induction rule: sender_step.induct) (auto simp: order_inv_def held_def in_hand_def)

lemma order_reader:
  "reader_step reply s s' \<Longrightarrow> order_inv reply frames s \<Longrightarrow> end_inv reply frames s \<Longrightarrow> order_inv reply frames s'"
proof (induction rule: reader_step.induct)
  case (receive s)
  then have "written s @ results s = map reply (take (received s) (sent s))"
    by (simp add: end_inv_def held_def)
  with receive show ?case
    by (auto simp: order_inv_def held_def in_hand_def take_received_Suc simp flip: append_assoc)
next
  case (open_stream s)
  then have "sender s = SNotStarted" by (simp add: end_inv_def)
  with open_stream show ?case by (simp add: order_inv_def held_def in_hand_def)
next
  case (cancelled s r)
  then have "prefix ((written s @ results s) @ [r]) (map reply (take (received s) (sent s)))"
    by (simp add: order_inv_def held_def)
  then have "prefix (written s @ results s) (map reply (take (received s) (sent s)))"
    by (rule append_prefixD)
  with cancelled show ?case by (simp add: order_inv_def held_def in_hand_def)
qed (auto simp: order_inv_def held_def in_hand_def)

lemma order_consumer: "consumer_step s s' \<Longrightarrow> order_inv reply frames s \<Longrightarrow> order_inv reply frames s'"
  by (induction rule: consumer_step.induct) (auto simp: order_inv_def held_def in_hand_def)

lemma end_feeder: "feeder_step s s' \<Longrightarrow> end_inv reply frames s \<Longrightarrow> end_inv reply frames s'"
  by (induction rule: feeder_step.induct) (auto simp: end_inv_def held_def)

lemma end_sender:
  "sender_step s s' \<Longrightarrow> order_inv reply frames s \<Longrightarrow> end_inv reply frames s \<Longrightarrow> end_inv reply frames s'"
  by (induction rule: sender_step.induct) (auto simp: end_inv_def order_inv_def held_def in_hand_def)

lemma end_reader:
  "reader_step reply s s' \<Longrightarrow> end_inv reply frames s \<Longrightarrow> end_inv reply frames s'"
  by (induction rule: reader_step.induct; simp add: end_inv_def held_def take_received_Suc; auto)

lemma end_consumer: "consumer_step s s' \<Longrightarrow> end_inv reply frames s \<Longrightarrow> end_inv reply frames s'"
  by (induction rule: consumer_step.induct; simp add: end_inv_def held_def; blast)

lemma stream_step_inv:
  assumes "stream_step reply s s'" "order_inv reply frames s" "end_inv reply frames s"
  shows "order_inv reply frames s' \<and> end_inv reply frames s'"
  using assms
proof (induction rule: stream_step.induct)
  case (disconnect s)
  then show ?case by (simp add: order_inv_def end_inv_def held_def in_hand_def)
next
  case (feeder s s')
  then show ?case using order_feeder [OF feeder(1)] end_feeder [OF feeder(1)] by simp
next
  case (sender s s')
  then show ?case using order_sender [OF sender(1)] end_sender [OF sender(1)] by simp
next
  case (reader s s')
  then show ?case using order_reader [OF reader(1)] end_reader [OF reader(1)] by simp
next
  case (consumer s s')
  then show ?case using order_consumer [OF consumer(1)] end_consumer [OF consumer(1)] by simp
qed

lemma stream_reach_inv: "stream_reach reply frames s \<Longrightarrow> order_inv reply frames s \<and> end_inv reply frames s"
  by (induction rule: stream_reach.induct) (auto simp: init_inv dest: stream_step_inv)

section \<open>Runs\<close>

lemmas stream_runs = stream_reach.init stream_reach.step

lemma reach_feeder: "stream_reach reply frames s \<Longrightarrow> feeder_step s s' \<Longrightarrow> stream_reach reply frames s'"
  and reach_sender: "stream_reach reply frames s \<Longrightarrow> sender_step s s' \<Longrightarrow> stream_reach reply frames s'"
  and reach_reader: "stream_reach reply frames s \<Longrightarrow> reader_step reply s s' \<Longrightarrow> stream_reach reply frames s'"
  and reach_consumer: "stream_reach reply frames s \<Longrightarrow> consumer_step s s' \<Longrightarrow> stream_reach reply frames s'"
  by (blast intro: stream_reach.step stream_step.intros)+

text \<open>The run in which one frame is processed and its answer is still queued when the reader returns.\<close>

lemma one_frame_run:
  "stream_reach reply [c] (stream_init [c]\<lparr>todo := [], chunks_closed := True, sender := SDone, sent := [c],
     half_closed := True, reader := RReturn, received := 1, results := [reply c]\<rparr>)"
proof -
  let ?s = "stream_init [c]"
  have 1: "stream_reach reply [c] (?s\<lparr>todo := [], chunks := [c]\<rparr>)"
    using reach_feeder [OF stream_reach.init feeder_step.enqueue [of ?s c "[]"]] by (simp add: stream_init_def)
  have 2: "stream_reach reply [c] (?s\<lparr>todo := [], chunks := [c], chunks_closed := True\<rparr>)"
    using reach_feeder [OF 1 feeder_step.close_chunks] by (simp add: stream_init_def)
  have 3: "stream_reach reply [c] (?s\<lparr>todo := [], chunks := [c], chunks_closed := True, reader := RRecv, sender := SRange\<rparr>)"
    using reach_reader [OF 2 reader_step.open_stream] by (simp add: stream_init_def)
  have 4: "stream_reach reply [c] (?s\<lparr>todo := [], chunks_closed := True, reader := RRecv, sender := SSend c\<rparr>)"
    using reach_sender [OF 3 sender_step.range [of _ c "[]"]] by (simp add: stream_init_def)
  have 5: "stream_reach reply [c] (?s\<lparr>todo := [], chunks_closed := True, reader := RRecv, sender := SRange, sent := [c]\<rparr>)"
    using reach_sender [OF 4 sender_step.send] by (simp add: stream_init_def)
  have 6: "stream_reach reply [c] (?s\<lparr>todo := [], chunks_closed := True, reader := RRecv, sender := SDone, sent := [c],
      half_closed := True, sendErr := [None]\<rparr>)"
    using reach_sender [OF 5 sender_step.close_send] by (simp add: stream_init_def)
  have 7: "stream_reach reply [c] (?s\<lparr>todo := [], chunks_closed := True, reader := RSelect (reply c), sender := SDone,
      sent := [c], half_closed := True, sendErr := [None], received := 1\<rparr>)"
    using reach_reader [OF 6 reader_step.receive] by (simp add: stream_init_def)
  have 8: "stream_reach reply [c] (?s\<lparr>todo := [], chunks_closed := True, reader := RRecv, sender := SDone,
      sent := [c], half_closed := True, sendErr := [None], received := 1, results := [reply c]\<rparr>)"
    using reach_reader [OF 7 reader_step.deliver] by (simp add: stream_init_def)
  have 9: "stream_reach reply [c] (?s\<lparr>todo := [], chunks_closed := True, reader := RAwait, sender := SDone,
      sent := [c], half_closed := True, sendErr := [None], received := 1, results := [reply c]\<rparr>)"
    using reach_reader [OF 8 reader_step.receive_eof] by (simp add: stream_init_def)
  show ?thesis
    using reach_reader [OF 9 reader_step.sender_ok] by (simp add: stream_init_def)
qed

text \<open>The run in which one frame is processed, written, and the handler sees the end of \<open>results\<close>.\<close>

lemma one_frame_drained:
  "stream_reach reply [c] (stream_init [c]\<lparr>todo := [], chunks_closed := True, sender := SDone, sent := [c],
     half_closed := True, reader := RDone, received := 1, errs_closed := True, results_closed := True,
     ctx_done := True, consumer := CDrained, written := [reply c]\<rparr>)"
proof -
  let ?s = "stream_init [c]\<lparr>todo := [], chunks_closed := True, sender := SDone, sent := [c], half_closed := True,
      received := 1, written := [reply c]\<rparr>"
  have 1: "stream_reach reply [c] (?s\<lparr>reader := RReturn\<rparr>)"
    using reach_consumer [OF one_frame_run consumer_step.write_result [of _ "reply c" "[]"]] by (simp add: stream_init_def)
  have 2: "stream_reach reply [c] (?s\<lparr>reader := RClosedErrs, errs_closed := True\<rparr>)"
    using reach_reader [OF 1 reader_step.close_errs] by (simp add: stream_init_def)
  have 3: "stream_reach reply [c] (?s\<lparr>reader := RDone, errs_closed := True, results_closed := True\<rparr>)"
    using reach_reader [OF 2 reader_step.close_results] by (simp add: stream_init_def)
  show ?thesis
    using reach_consumer [OF 3 consumer_step.drained] by (simp add: stream_init_def)
qed

section \<open>Properties\<close>



text \<open>
  When the handler leaves its loop because \<open>results\<close> was closed, then either an error was
  reported on \<open>errs\<close>, or every frame that was queued has been answered and written; if the client has not
  gone away before the feeder was done, these are all the frames.
\<close>

theorem ProcessStream_complete:
  assumes "stream_reach reply frames s" and "consumer s = CDrained" and "\<not> failed s"
  shows "written s = map reply (sent s) \<and> chunks s = [] \<and> sent s @ todo s = frames"
proof -
  have e: "end_inv reply frames s" using stream_reach_inv [OF assms(1)] by simp
  then have "reader s = RDone" "results s = []" using assms(2) by (simp_all add: end_inv_def)
  then show ?thesis using e assms(3) by (simp add: end_inv_def)
qed

theorem ProcessStream_complete_witness:
  "\<exists>s. stream_reach (chunk_reply sample_exp sample_env) [sample_chunk [1, 2, 3] 4 1 1] s \<and>
     consumer s = CDrained \<and> written s = [chunk_reply sample_exp sample_env (sample_chunk [1, 2, 3] 4 1 1)]"
  using ProcessStream_complete [OF one_frame_drained [of "chunk_reply sample_exp sample_env" "sample_chunk [1, 2, 3] 4 1 1"]]
    one_frame_drained [of "chunk_reply sample_exp sample_env" "sample_chunk [1, 2, 3] 4 1 1"]
  by (intro exI conjI) (assumption | simp add: stream_init_def)+

text \<open>
  C18. A successful stream can be cut short: since \<open>errs\<close> is closed before \<open>results\<close> is drained, and a
  receive from the closed channel counts as a \<open>nil\<close> error, there is a run for every frame in which the
  processor answered it, nothing failed, no error is counted, and the handler returns with nothing written.
\<close>

theorem ProcessStream_truncates:
  "\<exists>s. stream_reach reply [c] s \<and> consumer s = CStopped None \<and> \<not> failed s \<and> results s = [reply c] \<and> written s = []"
proof -
  let ?s = "stream_init [c]\<lparr>todo := [], chunks_closed := True, sender := SDone, sent := [c],
     half_closed := True, received := 1, results := [reply c]\<rparr>"
  have 1: "stream_reach reply [c] (?s\<lparr>reader := RClosedErrs, errs_closed := True\<rparr>)"
    using reach_reader [OF one_frame_run reader_step.close_errs] by (simp add: stream_init_def)
  have 2: "stream_reach reply [c] (?s\<lparr>reader := RClosedErrs, errs_closed := True, consumer := CStopped None, ctx_done := True\<rparr>)"
    using reach_consumer [OF 1 consumer_step.stop_closed] by (simp add: stream_init_def)
  then show ?thesis
    by (intro exI [of _ "?s\<lparr>reader := RClosedErrs, errs_closed := True, consumer := CStopped None, ctx_done := True\<rparr>"])
      (simp add: stream_init_def)
qed

text \<open>
  No goroutine can block for ever on reporting: whenever the reader has an error to report, the
  one-place channel \<open>errs\<close> is empty; and when the reader waits for the sender after the end of the stream,
  the sender's outcome is already there.
\<close>

theorem ProcessStream_reports:
  assumes "stream_reach reply frames s"
  shows "(reader s = RFail e \<longrightarrow> errs s = []) \<and> (reader s = RAwait \<longrightarrow> sendErr s = [None]) \<and> length (errs s) \<le> 1"
proof -
  have e: "end_inv reply frames s" using stream_reach_inv [OF assms] by simp
  have "errs s = []" if "reader s = RFail e" using e that by (auto simp: end_inv_def)
  moreover have "sendErr s = [None]" if "reader s = RAwait" using e that by (simp add: end_inv_def)
  moreover have "length (errs s) \<le> 1" using e by (simp add: end_inv_def)
  ultimately show ?thesis by blast
qed

theorem ProcessStream_reports_witness:
  "length (errs (stream_init [sample_chunk [] 4 0 0])) \<le> 1"
  using ProcessStream_reports [OF stream_reach.init] by blast

section \<open>Progress\<close>

text \<open>
  What is left to do: every frame passes six stations until it is written, and the reader, the sender, the
  feeder and the consumer each move only forward.
\<close>

fun reader_rank :: "reader \<Rightarrow> nat" where
  "reader_rank ROpen = 7"
| "reader_rank RRecv = 5"
| "reader_rank (RSelect r) = 5"
| "reader_rank RAwait = 4"
| "reader_rank (RFail e) = 3"
| "reader_rank RReturn = 2"
| "reader_rank RClosedErrs = 1"
| "reader_rank RDone = 0"

definition stream_measure :: "stream_state \<Rightarrow> nat" where
  "stream_measure s = 6 * length (todo s) + 5 * length (chunks s) + 4 * length (in_hand s) +
     3 * (length (sent s) - received s) + 2 * length (held s) + length (results s) +
     reader_rank (reader s) + (if sender s = SDone then 0 else 1) + (if chunks_closed s then 0 else 1) +
     (if consumer s = CLoop then 1 else 0) + (if ctx_done s then 0 else 1)"

lemma feeder_decreases: "feeder_step s s' \<Longrightarrow> stream_measure s' < stream_measure s"
  by (induction rule: feeder_step.induct) (auto simp: stream_measure_def in_hand_def held_def)

lemma sender_decreases:
  "sender_step s s' \<Longrightarrow> received s \<le> length (sent s) \<Longrightarrow> stream_measure s' < stream_measure s"
  by (induction rule: sender_step.induct) (auto simp: stream_measure_def in_hand_def held_def)

lemma reader_decreases: "reader_step reply s s' \<Longrightarrow> stream_measure s' < stream_measure s"
  by (induction rule: reader_step.induct) (auto simp: stream_measure_def in_hand_def held_def split: sender.splits)

lemma consumer_decreases: "consumer_step s s' \<Longrightarrow> stream_measure s' < stream_measure s"
  by (induction rule: consumer_step.induct) (auto simp: stream_measure_def in_hand_def held_def)

lemma stream_decreases:
  assumes "stream_step reply s s'" "received s \<le> length (sent s)"
  shows "s' = s \<or> stream_measure s' < stream_measure s"
  using assms
proof (induction rule: stream_step.induct)
  case (disconnect s)
  show ?case by (cases "ctx_done s") (simp_all add: stream_measure_def in_hand_def held_def)
qed (simp_all add: feeder_decreases sender_decreases reader_decreases consumer_decreases)

text \<open>The reader and the sender start together, and the reader is the last to close.\<close>

definition phase_inv :: "stream_state \<Rightarrow> bool" where
  "phase_inv s \<longleftrightarrow> (reader s = ROpen \<or> (\<exists>e. reader s = RFail e) \<or> reader s \<in> {RReturn, RClosedErrs, RDone} \<or>
     sender s \<noteq> SNotStarted) \<and> (reader s = RDone \<longrightarrow> results_closed s)"

lemma phase_step: "stream_step reply s s' \<Longrightarrow> phase_inv s \<Longrightarrow> phase_inv s'"
proof (induction rule: stream_step.induct)
  case (feeder s s')
  then show ?case by (induction rule: feeder_step.induct) (auto simp: phase_inv_def)
next
  case (sender s s')
  then show ?case by (induction rule: sender_step.induct) (auto simp: phase_inv_def)
next
  case (reader s s')
  then show ?case by (induction rule: reader_step.induct) (auto simp: phase_inv_def)
next
  case (consumer s s')
  then show ?case by (induction rule: consumer_step.induct) (auto simp: phase_inv_def)
next
  case (disconnect s)
  then show ?case by (simp add: phase_inv_def)
qed

lemma phase_reach: "stream_reach reply frames s \<Longrightarrow> phase_inv s"
proof (induction rule: stream_reach.induct)
  case init
  show ?case by (simp add: phase_inv_def stream_init_def)
qed (rule phase_step)

text \<open>No call of the gRPC stream has failed so far.\<close>

definition quiet :: "stream_state \<Rightarrow> bool" where
  "quiet s \<longleftrightarrow> \<not> failed s \<and> (\<forall>e. reader s \<noteq> RFail e) \<and> (sender s = SDone \<longrightarrow> half_closed s)"

definition moves :: "(MediaChunk \<Rightarrow> ProcessedChunk) \<Rightarrow> stream_state \<Rightarrow> bool" where
  "moves reply s \<longleftrightarrow> (\<exists>s'. stream_step reply s s' \<and> stream_measure s' < stream_measure s \<and>
     (quiet s \<longrightarrow> quiet s') \<and> (consumer s' = CLoop \<longrightarrow> ctx_done s' = ctx_done s))"

lemma moves_by:
  "feeder_step s s' \<Longrightarrow> (quiet s \<longrightarrow> quiet s') \<and> (consumer s' = CLoop \<longrightarrow> ctx_done s' = ctx_done s) \<Longrightarrow> moves reply s"
  "sender_step s s' \<Longrightarrow> received s \<le> length (sent s) \<Longrightarrow>
     (quiet s \<longrightarrow> quiet s') \<and> (consumer s' = CLoop \<longrightarrow> ctx_done s' = ctx_done s) \<Longrightarrow> moves reply s"
  "reader_step reply s s' \<Longrightarrow> (quiet s \<longrightarrow> quiet s') \<and> (consumer s' = CLoop \<longrightarrow> ctx_done s' = ctx_done s) \<Longrightarrow> moves reply s"
  "consumer_step s s' \<Longrightarrow> (quiet s \<longrightarrow> quiet s') \<and> (consumer s' = CLoop \<longrightarrow> ctx_done s' = ctx_done s) \<Longrightarrow> moves reply s"
  unfolding moves_def
  by (blast intro: stream_step.intros feeder_decreases sender_decreases reader_decreases consumer_decreases)+

lemma feeder_moves:
  assumes "\<not> chunks_closed s" "chunks s = []"
  shows "moves reply s"
proof (cases "todo s")
  case Nil
  show ?thesis by (rule moves_by(1) [OF feeder_step.close_chunks]) (simp_all add: assms Nil quiet_def)
next
  case (Cons c cs)
  show ?thesis by (rule moves_by(1) [OF feeder_step.enqueue [OF Cons]]) (simp_all add: assms quiet_def)
qed

lemma sender_moves:
  assumes "sender s \<noteq> SNotStarted" "sender s \<noteq> SDone" "received s \<le> length (sent s)"
  shows "moves reply s"
proof (cases "sender s")
  case (SSend c)
  show ?thesis by (rule moves_by(2) [OF sender_step.send [OF SSend] assms(3)]) (simp add: quiet_def)
next
  case SRange
  consider "\<not> chunks_closed s" "chunks s = []" | "chunks_closed s" "chunks s = []"
    | c cs where "chunks s = c # cs" by (cases "chunks s") auto
  then show ?thesis
  proof cases
    case 1
    then show ?thesis by (rule feeder_moves)
  next
    case 2
    show ?thesis by (rule moves_by(2) [OF sender_step.close_send [OF SRange 2(2,1)] assms(3)]) (simp add: quiet_def)
  next
    case 3
    show ?thesis by (rule moves_by(2) [OF sender_step.range [OF SRange 3] assms(3)]) (simp add: quiet_def)
  qed
qed (use assms in simp_all)

text \<open>While the handler loops, some goroutine can move, and unless a call has failed it moves without a failure.\<close>

lemma stream_moves:
  assumes "stream_reach reply frames s" "consumer s = CLoop"
  shows "moves reply s"
proof -
  have e: "end_inv reply frames s" and o: "received s \<le> length (sent s)"
    using stream_reach_inv [OF assms(1)] by (simp_all add: order_inv_def)
  have ph: "phase_inv s" using phase_reach [OF assms(1)] .
  show ?thesis
  proof (cases "results s")
    case (Cons r rs)
    show ?thesis by (rule moves_by(4) [OF consumer_step.write_result [OF assms(2) Cons]]) (simp add: quiet_def)
  next
    case empty: Nil
    show ?thesis
    proof (cases "reader s")
      case ROpen
      have "sender s = SNotStarted" using e ROpen by (simp add: end_inv_def)
      then show ?thesis by (intro moves_by(3) [OF reader_step.open_stream [OF ROpen]]) (simp add: quiet_def)
    next
      case RRecv
      have started: "sender s \<noteq> SNotStarted" using ph RRecv by (simp add: phase_inv_def)
      consider "received s < length (sent s)" | "received s = length (sent s)" "sender s \<noteq> SDone"
        | "received s = length (sent s)" "sender s = SDone" "half_closed s"
        | "sender s = SDone" "\<not> half_closed s" using o by linarith
      then show ?thesis
      proof cases
        case 1
        show ?thesis by (rule moves_by(3) [OF reader_step.receive [OF RRecv 1]]) (simp add: quiet_def)
      next
        case 2
        show ?thesis by (rule sender_moves [OF started 2(2) o])
      next
        case 3
        show ?thesis by (rule moves_by(3) [OF reader_step.receive_eof [OF RRecv 3(3,1)]]) (simp add: quiet_def)
      next
        case 4
        show ?thesis by (rule moves_by(3) [OF reader_step.receive_failed [OF RRecv]]) (use 4 in \<open>simp add: quiet_def\<close>)
      qed
    next
      case (RSelect r)
      show ?thesis by (rule moves_by(3) [OF reader_step.deliver [OF RSelect]]) (simp_all add: empty quiet_def)
    next
      case RAwait
      have "sendErr s = [None]" using e RAwait by (simp add: end_inv_def)
      then show ?thesis by (intro moves_by(3) [OF reader_step.sender_ok [OF RAwait]]) (simp_all add: quiet_def)
    next
      case (RFail er)
      have "errs s = []" using e RFail by (auto simp: end_inv_def)
      then show ?thesis by (intro moves_by(3) [OF reader_step.report [OF RFail]]) (simp_all add: quiet_def RFail)
    next
      case RReturn
      show ?thesis by (rule moves_by(3) [OF reader_step.close_errs [OF RReturn]]) (simp add: quiet_def)
    next
      case RClosedErrs
      show ?thesis by (rule moves_by(3) [OF reader_step.close_results [OF RClosedErrs]]) (simp add: quiet_def)
    next
      case RDone
      have "results_closed s" using ph RDone by (simp add: phase_inv_def)
      then show ?thesis by (intro moves_by(4) [OF consumer_step.drained [OF assms(2) empty]]) (simp_all add: quiet_def)
    qed
  qed
qed

text \<open>
  C17. Streams end: every step of every interleaving, except a repeated disconnect, strictly decreases the
  work that is left, so no run goes on for ever; and as long as the handler is in its loop some goroutine can
  make such a step, one that introduces no failure unless a gRPC call has already failed. So the handler
  cannot deadlock, whatever the scheduling: every run that goes on as long as it can ends with the handler out
  of its loop.
\<close>

theorem ProcessStream_terminates:
  assumes "stream_reach reply frames s"
  shows "(\<forall>s'. stream_step reply s s' \<longrightarrow> s' = s \<or> stream_measure s' < stream_measure s) \<and>
    (consumer s = CLoop \<longrightarrow> (\<exists>s'. stream_step reply s s' \<and> stream_measure s' < stream_measure s \<and>
       (quiet s \<longrightarrow> quiet s') \<and> (consumer s' = CLoop \<longrightarrow> ctx_done s' = ctx_done s)))"
proof -
  have "received s \<le> length (sent s)" using stream_reach_inv [OF assms] by (simp add: order_inv_def)
  then show ?thesis using stream_moves [OF assms] by (auto simp: moves_def dest: stream_decreases)
qed

theorem ProcessStream_terminates_witness:
  "\<exists>s'. stream_step (chunk_reply sample_exp sample_env) (stream_init [sample_chunk [1, 2, 3] 4 1 1]) s' \<and>
     stream_measure s' < 17 \<and> quiet s'"
proof -
  let ?s = "stream_init [sample_chunk [1, 2, 3] 4 1 1]"
  have "consumer ?s = CLoop" "quiet ?s" "stream_measure ?s = 17"
    by (simp_all add: stream_init_def quiet_def stream_measure_def in_hand_def held_def)
  with ProcessStream_terminates [OF stream_reach.init, of "chunk_reply sample_exp sample_env" "[sample_chunk [1, 2, 3] 4 1 1]"]
  show ?thesis by auto
qed

end
