(* ===== verification/Go_Encoding.thy ===== *)
theory Go_Encoding
  imports Go_Text
begin

text \<open>
  \<open>encoding/base64\<close> (the padded standard and the unpadded URL alphabet) and \<open>encoding/hex\<close>.
  Decoders return \<open>None\<close> where Go returns an error; no caller looks at the partial result.
\<close>

section \<open>Alphabets\<close>

fun index_of :: "char \<Rightarrow> string \<Rightarrow> nat option" where
  "index_of c [] = None"
| "index_of c (x # xs) = (if x = c then Some 0 else map_option Suc (index_of c xs))"

lemma index_of_nth: "distinct xs \<Longrightarrow> i < length xs \<Longrightarrow> index_of (xs ! i) xs = Some i"
proof (induction xs arbitrary: i)
  case (Cons x xs)
  then show ?case by (cases i) auto
qed simp

lemma index_of_None: "c \<notin> set xs \<Longrightarrow> index_of c xs = None"
  by (induction xs) auto

lemma index_of_less: "index_of c xs = Some i \<Longrightarrow> i < length xs"
  by (induction xs arbitrary: i) (auto split: if_splits)

definition std_alphabet :: string where
  "std_alphabet = ''ABCDEFGHIJKLMNOPQRSTUVWXYZabcdefghijklmnopqrstuvwxyz0123456789+/''"

definition url_alphabet :: string where
  "url_alphabet = ''ABCDEFGHIJKLMNOPQRSTUVWXYZabcdefghijklmnopqrstuvwxyz0123456789-_''"

definition hex_digits :: string where
  "hex_digits = ''0123456789abcdef''"

lemma std_alphabet_facts: "distinct std_alphabet" "length std_alphabet = 64" "CHR ''='' \<notin> set std_alphabet"
    "CHR 0x0A \<notin> set std_alphabet" "CHR 0x0D \<notin> set std_alphabet"
  by code_simp+

lemma url_alphabet_facts: "distinct url_alphabet" "length url_alphabet = 64" "CHR ''='' \<notin> set url_alphabet"
    "CHR 0x0A \<notin> set url_alphabet" "CHR 0x0D \<notin> set url_alphabet" "CHR '':'' \<notin> set url_alphabet"
  by code_simp+

lemma hex_digits_facts: "distinct hex_digits" "length hex_digits = 16" "CHR '':'' \<notin> set hex_digits"
  by code_simp+

section \<open>Groups of three bytes and four sextets\<close>

definition sext0 :: "u8 \<Rightarrow> nat" where "sext0 a = unat a div 4"
definition sext1 :: "u8 \<Rightarrow> u8 \<Rightarrow> nat" where "sext1 a b = unat a mod 4 * 16 + unat b div 16"
definition sext2 :: "u8 \<Rightarrow> u8 \<Rightarrow> nat" where "sext2 b c = unat b mod 16 * 4 + unat c div 64"
definition sext3 :: "u8 \<Rightarrow> nat" where "sext3 c = unat c mod 64"

definition byte0 :: "nat \<Rightarrow> nat \<Rightarrow> u8" where "byte0 p q = word_of_nat (p * 4 + q div 16)"
definition byte1 :: "nat \<Rightarrow> nat \<Rightarrow> u8" where "byte1 q r = word_of_nat (q mod 16 * 16 + r div 4)"
definition byte2 :: "nat \<Rightarrow> nat \<Rightarrow> u8" where "byte2 r s = word_of_nat (r mod 4 * 64 + s)"

lemma unat_u8_less: "unat (b :: u8) < 256"
  using unsigned_less [where w = b and ?'a = nat] by simp

lemma sext_less: "sext0 a < 64" "sext1 a b < 64" "sext2 a b < 64" "sext3 a < 64"
  using unat_u8_less [of a] unat_u8_less [of b]
  by (simp_all add: sext0_def sext1_def sext2_def sext3_def)

lemma byte_sext: "byte0 (sext0 a) (sext1 a b) = a" "byte1 (sext1 a b) (sext2 b c) = b" "byte2 (sext2 b c) (sext3 c) = c"
proof -
  have "(unat a mod 4 * 16 + unat b div 16) div 16 = unat a mod 4"
    using unat_u8_less [of b] by simp
  then have "unat a div 4 * 4 + (unat a mod 4 * 16 + unat b div 16) div 16 = unat a"
    by simp
  then show "byte0 (sext0 a) (sext1 a b) = a"
    by (simp add: byte0_def sext0_def sext1_def del: of_nat_add of_nat_mult)
  have "(unat a mod 4 * 16 + unat b div 16) mod 16 = unat b div 16"
    using unat_u8_less [of b] by simp
  moreover have "(unat b mod 16 * 4 + unat c div 64) div 4 = unat b mod 16"
    using unat_u8_less [of c] by simp
  ultimately show "byte1 (sext1 a b) (sext2 b c) = b" 
    by (simp add: byte1_def sext1_def sext2_def del: of_nat_add of_nat_mult)
  have "(unat b mod 16 * 4 + unat c div 64) mod 4 = unat c div 64"
    using unat_u8_less [of c] by simp
  then show "byte2 (sext2 b c) (sext3 c) = c" 
    by (simp add: byte2_def sext2_def sext3_def del: of_nat_add of_nat_mult)
qed

lemma byte_sext_last: "byte0 (sext0 a) (sext1 a 0) = a" "byte1 (sext1 a b) (sext2 b 0) = b"
  by (rule byte_sext)+

section \<open>Base64\<close>

fun b64_encode :: "string \<Rightarrow> bool \<Rightarrow> bytes \<Rightarrow> string" where
  "b64_encode tbl pad (a # b # c # bs) =
     tbl ! sext0 a # tbl ! sext1 a b # tbl ! sext2 b c # tbl ! sext3 c # b64_encode tbl pad bs"
| "b64_encode tbl pad [a, b] =
     [tbl ! sext0 a, tbl ! sext1 a b, tbl ! sext2 b 0] @ (if pad then ''='' else [])"
| "b64_encode tbl pad [a] = [tbl ! sext0 a, tbl ! sext1 a 0] @ (if pad then ''=='' else [])"
| "b64_encode tbl pad [] = []"

text \<open>One quantum after the other, on the input without its line breaks.\<close>

fun b64_quanta :: "string \<Rightarrow> bool \<Rightarrow> string \<Rightarrow> bytes option" where
  "b64_quanta tbl pad (p # q # r # s # cs) = do {
     vp \<leftarrow> index_of p tbl;
     vq \<leftarrow> index_of q tbl;
     (case index_of r tbl of
        None \<Rightarrow> if pad \<and> r = CHR ''='' \<and> s = CHR ''='' \<and> cs = [] then Some [byte0 vp vq] else None
      | Some vr \<Rightarrow> (case index_of s tbl of
          None \<Rightarrow> if pad \<and> s = CHR ''='' \<and> cs = [] then Some [byte0 vp vq, byte1 vq vr] else None
        | Some vs \<Rightarrow> do {
            rest \<leftarrow> b64_quanta tbl pad cs;
            Some (byte0 vp vq # byte1 vq vr # byte2 vr vs # rest) })) }"
| "b64_quanta tbl pad [p, q, r] = (if pad then None else do {
     vp \<leftarrow> index_of p tbl; vq \<leftarrow> index_of q tbl; vr \<leftarrow> index_of r tbl;
     Some [byte0 vp vq, byte1 vq vr] })"
| "b64_quanta tbl pad [p, q] = (if pad then None else do {
     vp \<leftarrow> index_of p tbl; vq \<leftarrow> index_of q tbl; Some [byte0 vp vq] })"
| "b64_quanta tbl pad [p] = None"
| "b64_quanta tbl pad [] = Some []"

definition strip_newlines :: "string \<Rightarrow> string" where
  "strip_newlines s = filter (\<lambda>c. c \<noteq> CHR 0x0A \<and> c \<noteq> CHR 0x0D) s"

definition b64_decode :: "string \<Rightarrow> bool \<Rightarrow> string \<Rightarrow> bytes option" where
  "b64_decode tbl pad s = b64_quanta tbl pad (strip_newlines s)"

definition alphabet_ok :: "string \<Rightarrow> bool" where
  "alphabet_ok tbl \<longleftrightarrow> distinct tbl \<and> length tbl = 64 \<and> CHR ''='' \<notin> set tbl \<and>
     CHR 0x0A \<notin> set tbl \<and> CHR 0x0D \<notin> set tbl"

lemma index_of_sext:
  assumes "alphabet_ok tbl"
  shows "index_of (tbl ! sext0 a) tbl = Some (sext0 a)" "index_of (tbl ! sext1 a b) tbl = Some (sext1 a b)"
    "index_of (tbl ! sext2 a b) tbl = Some (sext2 a b)" "index_of (tbl ! sext3 a) tbl = Some (sext3 a)"
    "index_of (CHR ''='') tbl = None"
  using assms by (simp_all add: alphabet_ok_def index_of_nth sext_less index_of_None)

lemma b64_encode_chars:
  "alphabet_ok tbl \<Longrightarrow> set (b64_encode tbl pad bs) \<subseteq> set tbl \<union> {CHR ''=''}"
  by (induction tbl pad bs rule: b64_encode.induct) (auto simp: alphabet_ok_def sext_less)

lemma b64_encode_chars_raw:
  "alphabet_ok tbl \<Longrightarrow> set (b64_encode tbl False bs) \<subseteq> set tbl"
  by (induction tbl "False" bs rule: b64_encode.induct) (auto simp: alphabet_ok_def sext_less)

lemma strip_encode: "alphabet_ok tbl \<Longrightarrow> strip_newlines (b64_encode tbl pad bs) = b64_encode tbl pad bs"
  unfolding strip_newlines_def
  by (rule filter_True) (use b64_encode_chars [of tbl pad bs] in \<open>auto simp: alphabet_ok_def\<close>)

lemma b64_quanta_encode: "alphabet_ok tbl \<Longrightarrow> b64_quanta tbl pad (b64_encode tbl pad bs) = Some bs"
  by (induction tbl pad bs rule: b64_encode.induct)
    (auto simp: index_of_sext byte_sext byte_sext_last)

lemma b64_decode_encode: "alphabet_ok tbl \<Longrightarrow> b64_decode tbl pad (b64_encode tbl pad bs) = Some bs"
  by (simp add: b64_decode_def strip_encode b64_quanta_encode)

definition std_encode :: "bytes \<Rightarrow> string" where "std_encode = b64_encode std_alphabet True"
definition std_decode :: "string \<Rightarrow> bytes option" where "std_decode = b64_decode std_alphabet True"
definition rawurl_encode :: "bytes \<Rightarrow> string" where "rawurl_encode = b64_encode url_alphabet False"
definition rawurl_decode :: "string \<Rightarrow> bytes option" where "rawurl_decode = b64_decode url_alphabet False"

lemma std_ok: "alphabet_ok std_alphabet" and url_ok: "alphabet_ok url_alphabet"
  by (simp_all add: alphabet_ok_def std_alphabet_facts url_alphabet_facts)

interpretation b64std: codec std_encode std_decode "\<lambda>_. True"
  by unfold_locales (simp add: std_encode_def std_decode_def b64_decode_encode std_ok)

interpretation b64url: codec rawurl_encode rawurl_decode "\<lambda>_. True"
  by unfold_locales (simp add: rawurl_encode_def rawurl_decode_def b64_decode_encode url_ok)

lemma rawurl_nonempty: "bs \<noteq> [] \<Longrightarrow> rawurl_encode bs \<noteq> []"
  using b64url.dec_enc [of bs] by (auto simp: rawurl_decode_def b64_decode_def strip_newlines_def)

section \<open>Hex\<close>

definition hex_byte :: "u8 \<Rightarrow> string" where
  "hex_byte b = [hex_digits ! (unat b div 16), hex_digits ! (unat b mod 16)]"

definition hex_encode :: "bytes \<Rightarrow> string" where
  "hex_encode bs = concat (map hex_byte bs)"

text \<open>Decoding also takes upper-case digits.\<close>

definition hex_val :: "char \<Rightarrow> nat option" where
  "hex_val c = index_of (let n = of_char c :: nat in if 65 \<le> n \<and> n \<le> 70 then char_of (n + 32) else c) hex_digits"

fun hex_decode :: "string \<Rightarrow> bytes option" where
  "hex_decode [] = Some []"
| "hex_decode [c] = None"
| "hex_decode (c # d # cs) = do {
     h \<leftarrow> hex_val c; l \<leftarrow> hex_val d; rest \<leftarrow> hex_decode cs; Some (word_of_nat (h * 16 + l) # rest) }"

lemma hex_digit_lower: "\<forall>c \<in> set hex_digits. \<not> (65 \<le> (of_char c :: nat) \<and> (of_char c :: nat) \<le> 70)"
  by code_simp

lemma hex_val_digit: "k < 16 \<Longrightarrow> hex_val (hex_digits ! k) = Some k"
proof -
  assume k: "k < 16"
  then have "\<not> (65 \<le> (of_char (hex_digits ! k) :: nat) \<and> (of_char (hex_digits ! k) :: nat) \<le> 70)"
    using hex_digit_lower hex_digits_facts(2) by auto
  then show ?thesis
    using k by (simp only: hex_val_def Let_def if_not_P) (simp add: index_of_nth hex_digits_facts)
qed

lemma hex_decode_encode: "hex_decode (hex_encode bs) = Some bs"
proof (induction bs)
  case (Cons b bs)
  have "hex_val (hex_digits ! (unat b div 16)) = Some (unat b div 16)"
    "hex_val (hex_digits ! (unat b mod 16)) = Some (unat b mod 16)"
    using unat_u8_less [of b] by (intro hex_val_digit; simp)+
  moreover have "word_of_nat (unat b div 16 * 16 + unat b mod 16) = b"
    by (simp only: div_mult_mod_eq) simp
  ultimately show ?case
    using Cons by (simp add: hex_encode_def hex_byte_def del: of_nat_add of_nat_mult)
qed (simp add: hex_encode_def)

lemma hex_encode_chars: "set (hex_encode bs) \<subseteq> set hex_digits"
proof -
  have "hex_digits ! (unat b div 16) \<in> set hex_digits" "hex_digits ! (unat b mod 16) \<in> set hex_digits" for b :: u8
    using unat_u8_less [of b] hex_digits_facts(2) by (intro nth_mem; simp)+
  then show ?thesis by (auto simp: hex_encode_def hex_byte_def)
qed

lemma hex_encode_no_colon: "CHR '':'' \<notin> set (hex_encode bs)"
  using hex_encode_chars hex_digits_facts(3) by blast

lemma hex_encode_length: "length (hex_encode bs) = 2 * length bs"
  by (induction bs) (simp_all add: hex_encode_def hex_byte_def)

interpretation hex: codec hex_encode hex_decode "\<lambda>_. True"
  by unfold_locales (simp add: hex_decode_encode)

end
