(* ===== verification/Go_Sha256.thy ===== *)
theory Go_Sha256
  imports Go_Encoding
begin

unbundle bit_operations_syntax

text \<open>
  \<open>crypto/sha256\<close> and \<open>crypto/hmac\<close>: SHA-256 as FIPS 180-4 defines it, on bytes, and HMAC over
  it. The functions are executable; only the length of a digest is used in proofs.
\<close>

type_synonym w32 = "32 word"
type_synonym digest_state = "w32 \<times> w32 \<times> w32 \<times> w32 \<times> w32 \<times> w32 \<times> w32 \<times> w32"

text \<open>The round constants (the fractional parts of the cube roots of the first 64 primes), in decimal.\<close>

definition sha_K :: "w32 list" where
  "sha_K = [
     1116352408, 1899447441, 3049323471, 3921009573, 961987163, 1508970993,
     2453635748, 2870763221, 3624381080, 310598401, 607225278, 1426881987,
     1925078388, 2162078206, 2614888103, 3248222580, 3835390401, 4022224774,
     264347078, 604807628, 770255983, 1249150122, 1555081692, 1996064986,
     2554220882, 2821834349, 2952996808, 3210313671, 3336571891, 3584528711,
     113926993, 338241895, 666307205, 773529912, 1294757372, 1396182291,
     1695183700, 1986661051, 2177026350, 2456956037, 2730485921, 2820302411,
     3259730800, 3345764771, 3516065817, 3600352804, 4094571909, 275423344,
     430227734, 506948616, 659060556, 883997877, 958139571, 1322822218,
     1537002063, 1747873779, 1955562222, 2024104815, 2227730452, 2361852424,
     2428436474, 2756734187, 3204031479, 3329325298]"

definition sha_init :: digest_state where
  "sha_init = (0x6a09e667, 0xbb67ae85, 0x3c6ef372, 0xa54ff53a, 0x510e527f, 0x9b05688c, 0x1f83d9ab, 0x5be0cd19)"

definition ssig0 :: "w32 \<Rightarrow> w32" where
  "ssig0 x = word_rotr 7 x XOR word_rotr 18 x XOR drop_bit 3 x"
definition ssig1 :: "w32 \<Rightarrow> w32" where
  "ssig1 x = word_rotr 17 x XOR word_rotr 19 x XOR drop_bit 10 x"
definition bsig0 :: "w32 \<Rightarrow> w32" where
  "bsig0 x = word_rotr 2 x XOR word_rotr 13 x XOR word_rotr 22 x"
definition bsig1 :: "w32 \<Rightarrow> w32" where
  "bsig1 x = word_rotr 6 x XOR word_rotr 11 x XOR word_rotr 25 x"

text \<open>The message schedule of a block, extended from 16 to 64 words.\<close>

definition sha_extend :: "w32 list \<Rightarrow> w32 list" where
  "sha_extend ws = (let t = length ws in
     ws @ [ssig1 (ws ! (t - 2)) + ws ! (t - 7) + ssig0 (ws ! (t - 15)) + ws ! (t - 16)])"

definition sha_round :: "w32 \<times> w32 \<Rightarrow> digest_state \<Rightarrow> digest_state" where
  "sha_round kw s = (case kw of (k, w) \<Rightarrow> case s of (a, b, c, d, e, f, g, h) \<Rightarrow>
     let t1 = h + bsig1 e + ((e AND f) XOR (NOT e AND g)) + k + w;
         t2 = bsig0 a + ((a AND b) XOR (a AND c) XOR (b AND c))
     in (t1 + t2, a, b, c, d + t1, e, f, g))"

fun be_words :: "bytes \<Rightarrow> w32 list" where
  "be_words (p # q # r # s # bs) =
     (push_bit 24 (ucast p) OR push_bit 16 (ucast q) OR push_bit 8 (ucast r) OR ucast s) # be_words bs"
| "be_words _ = []"

definition be_bytes :: "w32 \<Rightarrow> bytes" where
  "be_bytes w = [ucast (drop_bit 24 w), ucast (drop_bit 16 w), ucast (drop_bit 8 w), ucast w]"

definition sha_block :: "bytes \<Rightarrow> digest_state \<Rightarrow> digest_state" where
  "sha_block blk s = (
     let ws = (sha_extend ^^ 48) (be_words blk) in
     case (s, fold sha_round (zip sha_K ws) s) of
       ((a, b, c, d, e, f, g, h), (a', b', c', d', e', f', g', h')) \<Rightarrow>
         (a + a', b + b', c + c', d + d', e + e', f + f', g + g', h + h'))"

function sha_blocks :: "bytes \<Rightarrow> digest_state \<Rightarrow> digest_state" where
  "sha_blocks bs s = (if bs = [] then s else sha_blocks (drop 64 bs) (sha_block (take 64 bs) s))"
  by pat_completeness auto
termination
  by (relation "measure (length \<circ> fst)") auto

declare sha_blocks.simps [simp del]

definition sha_pad :: "bytes \<Rightarrow> bytes" where
  "sha_pad m = (let n = length m; bits = 8 * word_of_nat n :: i64 in
     m @ [0x80] @ replicate ((119 - n mod 64) mod 64) 0 @
     be_bytes (ucast (drop_bit 32 bits)) @ be_bytes (ucast bits))"

text \<open>\<open>sha256.Sum256\<close>\<close>

definition sha256 :: "bytes \<Rightarrow> bytes" where
  "sha256 m = (case sha_blocks (sha_pad m) sha_init of
     (a, b, c, d, e, f, g, h) \<Rightarrow> concat (map be_bytes [a, b, c, d, e, f, g, h]))"

lemma length_sha256 [simp]: "length (sha256 m) = 32"
  by (simp add: sha256_def be_bytes_def split: prod.splits)

lemma sha256_nonempty [simp]: "sha256 m \<noteq> []"
  by (metis length_sha256 list.size(3) zero_neq_numeral)

text \<open>\<open>hmac.New(sha256.New, key)\<close>, fed with \<open>m\<close>.\<close>

definition hmac_key :: "bytes \<Rightarrow> bytes" where
  "hmac_key key = (let k = (if 64 < length key then sha256 key else key) in k @ replicate (64 - length k) 0)"

definition hmac_sha256 :: "bytes \<Rightarrow> bytes \<Rightarrow> bytes" where
  "hmac_sha256 key m = (let k = hmac_key key in
     sha256 (map (\<lambda>b. b XOR 0x5c) k @ sha256 (map (\<lambda>b. b XOR 0x36) k @ m)))"

lemma length_hmac [simp]: "length (hmac_sha256 key m) = 32"
  by (simp add: hmac_sha256_def Let_def)

end
