(* ===== verification/Auth_Token.thy ===== *)
theory Auth_Token
  imports Go_Sha256
begin

text \<open>
  \<open>gateway/internal/auth/token.go\<close>: signed tokens and password hashes. Times are nanoseconds
  since the Unix epoch (\<open>time.Time\<close>) or a duration in nanoseconds; \<open>Unix()\<close> is the second they
  fall in. The clock and the random salt are arguments.
\<close>

record User =
  ID :: i64
  Username :: string

record TokenManager =
  secret :: bytes
  ttl :: i64

definition NewTokenManager :: "string \<Rightarrow> i64 \<Rightarrow> TokenManager" where
  "NewTokenManager sec d =
     (let sec = (if sec = [] then ''diplom-local-secret'' else sec)
      in \<lparr>secret = string_bytes sec, ttl = d\<rparr>)"

definition unix :: "int \<Rightarrow> int" where
  "unix t = t div 10 ^ 9"

text \<open>The errors of \<open>Verify\<close>, with the text the code gives each.\<close>

datatype token_error =
  TokenEncoding | TokenFormat | TokenSignature | TokenExpiration | TokenExpired | TokenUserId

fun token_error_text :: "token_error \<Rightarrow> string" where
  "token_error_text TokenEncoding = ''invalid token encoding''"
| "token_error_text TokenFormat = ''invalid token''"
| "token_error_text TokenSignature = ''invalid token signature''"
| "token_error_text TokenExpiration = ''invalid token expiration''"
| "token_error_text TokenExpired = ''token expired''"
| "token_error_text TokenUserId = ''invalid user id''"

section \<open>Tokens\<close>

definition sign :: "TokenManager \<Rightarrow> string \<Rightarrow> string" where
  "sign m payload = hex_encode (hmac_sha256 (secret m) (string_bytes payload))"

definition token_payload :: "User \<Rightarrow> int \<Rightarrow> string" where
  "token_payload user expires =
     show_int (sint (ID user)) @ '':'' @ Username user @ '':'' @ show_int expires"

definition Issue :: "TokenManager \<Rightarrow> int \<Rightarrow> User \<Rightarrow> string \<times> int" where
  "Issue m now user = (
     let expiresAt = now + sint (ttl m);
         payload = token_payload user (unix expiresAt);
         signature = sign m payload;
         token = rawurl_encode (string_bytes (payload @ '':'' @ signature))
     in (token, expiresAt))"

definition Verify :: "TokenManager \<Rightarrow> int \<Rightarrow> string \<Rightarrow> token_error + User" where
  "Verify m now token = (case rawurl_decode token of
     None \<Rightarrow> Inl TokenEncoding
   | Some raw \<Rightarrow>
     let parts = split_on CHR '':'' (bytes_string raw) in
     if length parts \<noteq> 4 then Inl TokenFormat
     else
       let payload = join_with CHR '':'' (take 3 parts) in
       if parts ! 3 \<noteq> sign m payload then Inl TokenSignature
       else (case ParseInt (parts ! 2) of
         (_, Some _) \<Rightarrow> Inl TokenExpiration
       | (expiresUnix, None) \<Rightarrow>
         if expiresUnix < unix now then Inl TokenExpired
         else (case ParseInt (parts ! 0) of
           (_, Some _) \<Rightarrow> Inl TokenUserId
         | (uid, None) \<Rightarrow> Inr \<lparr>ID = word_of_int uid, Username = parts ! 1\<rparr>)))"

definition HashToken :: "string \<Rightarrow> string" where
  "HashToken token = hex_encode (sha256 (string_bytes token))"

section \<open>Passwords\<close>

definition passwordDigest :: "bytes \<Rightarrow> string \<Rightarrow> bytes" where
  "passwordDigest salt password =
     ((\<lambda>h. sha256 (h @ salt)) ^^ 10000) (sha256 (salt @ string_bytes password))"

text \<open>\<open>salt\<close> is what \<open>rand.Read\<close> puts into the 16 bytes, or its error.\<close>

definition HashPassword :: "string + bytes \<Rightarrow> string \<Rightarrow> string + string" where
  "HashPassword salt password = (case salt of
     Inl e \<Rightarrow> Inl e
   | Inr salt \<Rightarrow> Inr (hex_encode salt @ '':'' @ hex_encode (passwordDigest salt password)))"

definition CheckPassword :: "string \<Rightarrow> string \<Rightarrow> bool" where
  "CheckPassword encoded password = (let parts = split_on CHR '':'' encoded in
     if length parts \<noteq> 2 then False
     else case hex_decode (parts ! 0) of None \<Rightarrow> False
     | Some salt \<Rightarrow> (case hex_decode (parts ! 1) of None \<Rightarrow> False
     | Some expected \<Rightarrow> expected = passwordDigest salt password))"

section \<open>The signature as an interface\<close>

text \<open>
  The token format needs one thing of the signature: it has no separator in it. Then a signed
  payload splits back into the fields of the payload and the signature.
\<close>

locale signer =
  fixes sig :: "string \<Rightarrow> string"
  assumes sig_no_colon: "CHR '':'' \<notin> set (sig p)"
begin

lemma split_signed: "split_on CHR '':'' (p @ '':'' @ sig p) = split_on CHR '':'' p @ [sig p]"
proof -
  have "join_with CHR '':'' (split_on CHR '':'' p @ [sig p]) = p @ '':'' @ sig p"
  proof -
    have "join_with c (ps @ [q]) = join_with c ps @ c # q" if "ps \<noteq> []" for c ps q
      using that by (induction c ps rule: join_with.induct) auto
    then show ?thesis by simp
  qed
  moreover have "split_on CHR '':'' (join_with CHR '':'' (split_on CHR '':'' p @ [sig p])) =
      split_on CHR '':'' p @ [sig p]"
    by (rule split_join) (auto simp: sig_no_colon dest: split_on_parts)
  ultimately show ?thesis by simp
qed

lemma signed_inj: "p @ '':'' @ sig p = q @ '':'' @ sig q \<Longrightarrow> p = q"
  by (metis butlast_snoc join_split split_signed)

end

interpretation hmac: signer "sign m" for m
  by unfold_locales (simp add: sign_def hex_encode_no_colon)

section \<open>Issued tokens\<close>

lemma Issue_token: "fst (Issue m now user) = rawurl_encode (string_bytes
    (token_payload user (unix (now + sint (ttl m))) @ '':'' @
     sign m (token_payload user (unix (now + sint (ttl m))))))"
  by (simp add: Issue_def Let_def)

lemma show_int_no_colon: "CHR '':'' \<notin> set (show_int n)"
  using show_int_chars [of "CHR '':''" n] by auto

lemma split_payload:
  "split_on CHR '':'' (token_payload user e) =
     show_int (sint (ID user)) # split_on CHR '':'' (Username user) @ [show_int e]"
proof -
  have "split_on c (q @ c # r) = split_on c q @ [r]" if "c \<notin> set r" for c q r
    by (induction q) (auto simp: split_on_none that split: list.splits)
  then show ?thesis
    by (simp add: token_payload_def split_on_append show_int_no_colon)
qed

text \<open>The four parts of a token and what they must satisfy.\<close>

definition signed_parts :: "TokenManager \<Rightarrow> string \<Rightarrow> string \<Rightarrow> string \<Rightarrow> string \<Rightarrow> bool" where
  "signed_parts m token uid name expires \<longleftrightarrow>
     CHR '':'' \<notin> set uid \<union> set name \<union> set expires \<and>
     rawurl_decode token = Some (string_bytes
       (join_with CHR '':'' [uid, name, expires] @ '':'' @ sign m (join_with CHR '':'' [uid, name, expires])))"

lemma Verify_signed:
  assumes "signed_parts m token uid name expires"
  shows "Verify m now token = (case ParseInt expires of
      (_, Some _) \<Rightarrow> Inl TokenExpiration
    | (e, None) \<Rightarrow> if e < unix now then Inl TokenExpired
        else (case ParseInt uid of (_, Some _) \<Rightarrow> Inl TokenUserId
              | (i, None) \<Rightarrow> Inr \<lparr>ID = word_of_int i, Username = name\<rparr>))"
proof -
  let ?p = "join_with CHR '':'' [uid, name, expires]"
  have "split_on CHR '':'' ?p = [uid, name, expires]"
    by (rule split_join) (use assms in \<open>auto simp: signed_parts_def\<close>)
  moreover have "split_on CHR '':'' (?p @ '':'' @ sign m ?p) = split_on CHR '':'' ?p @ [sign m ?p]"
    by (rule hmac.split_signed)
  ultimately have "split_on CHR '':'' (?p @ '':'' @ sign m ?p) = [uid, name, expires, sign m ?p]"
    by (simp only: append.simps)
  then show ?thesis
    using assms unfolding Verify_def signed_parts_def
    by (simp add: Let_def numeral_eq_Suc del: join_with.simps split_on.simps split: prod.splits option.splits)
qed

lemma Verify_InrE:
  assumes "Verify m now token = Inr u"
  shows "\<exists>uid expires. signed_parts m token uid (Username u) expires"
proof -
  obtain raw where raw: "rawurl_decode token = Some raw" using assms by (auto simp: Verify_def split: option.splits)
  let ?parts = "split_on CHR '':'' (bytes_string raw)"
  have len: "length ?parts = 4" using assms raw by (auto simp: Verify_def Let_def split: if_splits)
  then obtain a b c d where parts: "?parts = [a, b, c, d]" by (auto simp: numeral_eq_Suc length_Suc_conv)
  have d: "d = sign m (join_with CHR '':'' [a, b, c])" and name: "Username u = b"
    using assms raw parts
    by (auto simp: Verify_def Let_def numeral_eq_Suc simp del: join_with.simps split: if_splits option.splits prod.splits)
  have free: "CHR '':'' \<notin> set x" if "x \<in> {a, b, c}" for x
    using that split_on_parts [of x "CHR '':''" "bytes_string raw"] parts by auto
  have "bytes_string raw = join_with CHR '':'' [a, b, c, d]" using parts by (metis join_split)
  then have "bytes_string raw = join_with CHR '':'' [a, b, c] @ '':'' @ sign m (join_with CHR '':'' [a, b, c])"
    by (simp only: d [symmetric]) simp
  then have "raw = string_bytes (join_with CHR '':'' [a, b, c] @ '':'' @ sign m (join_with CHR '':'' [a, b, c]))"
    by (metis string_bytes_string)
  then show ?thesis using raw free name by (auto simp: signed_parts_def)
qed

lemma Issue_signed_parts:
  assumes "CHR '':'' \<notin> set (Username user)"
  shows "signed_parts m (fst (Issue m now user)) (show_int (sint (ID user))) (Username user)
    (show_int (unix (now + sint (ttl m))))"
  using assms b64url.dec_enc
  by (simp add: signed_parts_def Issue_token token_payload_def show_int_no_colon)

lemma sint_i64_in: "in_i64 (sint (n :: i64))"
  using sint_ge [of n] sint_lt [of n] by (simp add: in_i64_def)

section \<open>Properties\<close>

text \<open>
  C29. Round trip: a token issued for a user whose name has no colon verifies to that very user,
  from the moment of issue to the end of the second of its expiry, whatever the secret.
\<close>

theorem Verify_Issue:
  assumes "CHR '':'' \<notin> set (Username user)" and "in_i64 (unix (now + sint (ttl m)))"
    and "unix later \<le> unix (now + sint (ttl m))"
  shows "Verify m later (fst (Issue m now user)) = Inr user"
  using Verify_signed [OF Issue_signed_parts [OF assms(1)], of m later now] assms(2,3)
  by (simp add: ParseInt_show_int sint_i64_in)

theorem Verify_Issue_witness:
  "Verify (NewTokenManager [] 86400000000000) 5000000000
     (fst (Issue (NewTokenManager [] 86400000000000) 0 \<lparr>ID = 42, Username = ''alice''\<rparr>)) =
   Inr \<lparr>ID = 42, Username = ''alice''\<rparr>"
  by (rule Verify_Issue) (simp_all add: NewTokenManager_def unix_def in_i64_def)

text \<open>C25. Expiry: in every later second the same token is refused as expired.\<close>

theorem Verify_expired:
  assumes "CHR '':'' \<notin> set (Username user)" and "in_i64 (unix (now + sint (ttl m)))"
    and "unix (now + sint (ttl m)) < unix later"
  shows "Verify m later (fst (Issue m now user)) = Inl TokenExpired"
  using Verify_signed [OF Issue_signed_parts [OF assms(1)], of m later now] assms(2,3)
  by (simp add: ParseInt_show_int sint_i64_in)

theorem Verify_expired_witness:
  "Verify (NewTokenManager [] 1000000000) 2000000000
     (fst (Issue (NewTokenManager [] 1000000000) 0 \<lparr>ID = 42, Username = ''alice''\<rparr>)) = Inl TokenExpired"
  by (rule Verify_expired) (simp_all add: NewTokenManager_def unix_def in_i64_def)

text \<open>
  A user whose name contains a colon can register and log in, but no token issued to them is
  ever accepted: \<open>Verify\<close> wants exactly four parts.
\<close>

theorem Verify_colon:
  assumes "CHR '':'' \<in> set (Username user)"
  shows "Verify m later (fst (Issue m now user)) = Inl TokenFormat"
proof -
  let ?p = "token_payload user (unix (now + sint (ttl m)))"
  have "count_list (Username user) CHR '':'' \<noteq> 0" using assms by (simp add: count_list_0_iff)
  then have "2 \<le> length (split_on CHR '':'' (Username user))" by (simp add: length_split_on)
  then have "length (split_on CHR '':'' (?p @ '':'' @ sign m ?p)) \<noteq> 4"
    unfolding hmac.split_signed split_payload by simp
  then show ?thesis
    using b64url.dec_enc [of "string_bytes (?p @ '':'' @ sign m ?p)"] by (simp add: Verify_def Issue_token Let_def)
qed

theorem Verify_colon_witness:
  "Verify (NewTokenManager [] 1000000000) 0
     (fst (Issue (NewTokenManager [] 1000000000) 0 \<lparr>ID = 1, Username = ''a:b''\<rparr>)) = Inl TokenFormat"
  by (rule Verify_colon) simp

text \<open>
  C28. Soundness: an accepted token is, once decoded, a colon-free id, name and expiry followed by
  the signature of these three under this manager's secret; the expiry is a number not yet passed, the
  id a number, and the user returned has that id and name. Nothing unsigned is ever accepted.
\<close>

theorem Verify_sound:
  assumes "Verify m now token = Inr u"
  shows "\<exists>uid expires e. signed_parts m token uid (Username u) expires \<and>
    parse_int_ok expires = Some e \<and> unix now \<le> e \<and> parse_int_ok uid = Some (sint (ID u))"
proof -
  obtain uid expires where parts: "signed_parts m token uid (Username u) expires"
    using Verify_InrE [OF assms] by blast
  have rng: "in_i64 i" if "ParseInt s = (i, None)" for s i
    using that by (auto simp: ParseInt_def signed_range_def in_i64_def Let_def split: list.splits option.splits if_splits)
  have unwrap: "sint (word_of_int i :: i64) = i" if "in_i64 i" for i
    using that by (simp add: in_i64_def sint_sbintrunc' signed_take_bit_int_eq_self)
  obtain e i where "ParseInt expires = (e, None)" "unix now \<le> e" and i: "ParseInt uid = (i, None)"
    and u: "u = \<lparr>ID = word_of_int i, Username = Username u\<rparr>"
    using Verify_signed [OF parts, of now] assms by (auto split: option.splits prod.splits if_splits)
  moreover have "sint (ID u) = i" using unwrap [OF rng [OF i]] by (subst u) simp
  ultimately show ?thesis
    using parts by (intro exI [of _ uid] exI [of _ expires] exI [of _ e]) (simp add: parse_int_ok_def)
qed

theorem Verify_sound_witness:
  "\<exists>uid expires. signed_parts (NewTokenManager [] 1000000000)
     (fst (Issue (NewTokenManager [] 1000000000) 0 \<lparr>ID = 42, Username = ''alice''\<rparr>)) uid ''alice'' expires \<and>
     parse_int_ok uid = Some 42"
proof -
  let ?m = "NewTokenManager [] 1000000000" and ?u = "\<lparr>ID = 42, Username = ''alice''\<rparr>"
  have "Verify ?m 0 (fst (Issue ?m 0 ?u)) = Inr ?u"
    using Verify_signed [OF Issue_signed_parts, of ?u ?m 0 0]
    by (simp add: NewTokenManager_def unix_def ParseInt_show_int in_i64_def)
  from Verify_sound [OF this] show ?thesis by auto
qed

text \<open>
  Passwords: what \<open>HashPassword\<close> stores checks against a password exactly when that password
  has the same salted digest; in particular it checks against the password it was made from. A failing
  random source is an error, never a weak hash.
\<close>

theorem CheckPassword_HashPassword:
  "(case HashPassword salt password of
      Inl e \<Rightarrow> salt = Inl e
    | Inr stored \<Rightarrow> (\<exists>s. salt = Inr s \<and> CheckPassword stored password \<and>
        (\<forall>other. CheckPassword stored other \<longleftrightarrow> passwordDigest s other = passwordDigest s password)))"
proof (cases salt)
  case (Inl e)
  then show ?thesis by (simp add: HashPassword_def)
next
  case (Inr s)
  have "split_on CHR '':'' (hex_encode s @ '':'' @ hex_encode d) = [hex_encode s, hex_encode d]" for d
    using split_on_append [OF hex_encode_no_colon [of s], of "hex_encode d"]
    by (simp add: split_on_none hex_encode_no_colon)
  then have "CheckPassword (hex_encode s @ '':'' @ hex_encode d) other \<longleftrightarrow> d = passwordDigest s other" for d other
    by (simp add: CheckPassword_def Let_def hex_decode_encode)
  then show ?thesis using Inr by (auto simp: HashPassword_def)
qed

text \<open>C28. A stored string that is not two hex strings around one colon checks against no password.\<close>

theorem CheckPassword_malformed:
  "CheckPassword encoded password \<Longrightarrow>
     \<exists>a b salt. encoded = a @ '':'' @ b \<and> CHR '':'' \<notin> set a \<union> set b \<and> hex_decode a = Some salt \<and>
       hex_decode b = Some (passwordDigest salt password)"
proof -
  assume ok: "CheckPassword encoded password"
  then have "length (split_on CHR '':'' encoded) = 2" by (auto simp: CheckPassword_def Let_def split: if_splits)
  then obtain a b where parts: "split_on CHR '':'' encoded = [a, b]" by (auto simp: numeral_eq_Suc length_Suc_conv)
  have "encoded = a @ '':'' @ b" using join_split [of "CHR '':''" encoded] parts by simp
  moreover have "CHR '':'' \<notin> set a \<union> set b"
    using split_on_parts [of _ "CHR '':''" encoded] parts by auto
  ultimately show ?thesis
    using ok parts by (auto simp: CheckPassword_def Let_def split: option.splits)
qed

theorem CheckPassword_malformed_witness:
  "\<exists>a b salt. hex_encode [1] @ '':'' @ hex_encode (passwordDigest [1] ''pw'') = a @ '':'' @ b \<and> hex_decode a = Some salt"
proof -
  have "CheckPassword (hex_encode [1] @ '':'' @ hex_encode (passwordDigest [1] ''pw'')) ''pw''"
    using split_on_append [OF hex_encode_no_colon [of "[1]"], of "hex_encode (passwordDigest [1] ''pw'')"]
    by (simp add: split_on_none hex_encode_no_colon CheckPassword_def Let_def hex_decode_encode)
  from CheckPassword_malformed [OF this] show ?thesis by blast
qed

end
