(* ===== verification/Storage.thy ===== *)
theory Storage
  imports Auth_Token Go_Float "HOL-Library.Multiset"
begin

text \<open>
  \<open>gateway/internal/storage/postgres.go\<close>: the store of users, sessions and processing runs.

  The tables of \<open>schemaSQL\<close> are lists of rows in insertion order, with the sequences behind the
  \<open>BIGSERIAL\<close> keys; the statements of the file are functions on them, with the constraints the
  schema declares (\<open>UNIQUE\<close>, \<open>REFERENCES\<close>, \<open>CHECK\<close>, the range of \<open>INTEGER\<close>). Whether the
  connection or the server fails a statement is the argument \<open>fault\<close>; the server's clock is an argument.
\<close>

section \<open>Rows and tables\<close>

record ProcessingRun =
  pr_ID :: int
  pr_UserID :: int
  pr_MemoryMode :: string
  pr_FilterName :: string
  pr_Width :: int
  pr_Height :: int
  pr_FramesCount :: int
  pr_Success :: bool
  pr_ProcessingTimeMs :: fl
  pr_ErrorMessage :: string
  pr_CreatedAt :: int

record user_row =
  u_id :: int
  u_username :: string
  u_password_hash :: string

record session_row =
  s_user_id :: int
  s_token_hash :: string
  s_expires_at :: int

record database =
  migrated :: bool
  users :: "user_row list"
  users_seq :: int
  auth_sessions :: "session_row list"
  processing_runs :: "ProcessingRun list"
  runs_seq :: int

definition empty_database :: database where
  "empty_database = \<lparr>migrated = False, users = [], users_seq = 1, auth_sessions = [], processing_runs = [], runs_seq = 1\<rparr>"

text \<open>The statements fail with the server's error when the tables do not exist yet.\<close>

definition statement_error :: "string option \<Rightarrow> database \<Rightarrow> string option" where
  "statement_error fault db = (case fault of
     Some e \<Rightarrow> Some e
   | None \<Rightarrow> if migrated db then None else Some ''pq: relation does not exist'')"

definition in_i32 :: "int \<Rightarrow> bool" where
  "in_i32 n \<longleftrightarrow> - (2 ^ 31) \<le> n \<and> n < 2 ^ 31"

text \<open>\<open>Open\<close>: the driver's error, or the error of the first ping, after which the handle is closed.\<close>

definition Open :: "string option \<Rightarrow> string option \<Rightarrow> 'db \<Rightarrow> string + 'db" where
  "Open driver_error ping_error db = (case driver_error of Some e \<Rightarrow> Inl e
     | None \<Rightarrow> (case ping_error of Some e \<Rightarrow> Inl e | None \<Rightarrow> Inr db))"

text \<open>\<open>Migrate\<close> creates the missing tables and leaves existing ones alone.\<close>

definition Migrate :: "string option \<Rightarrow> database \<Rightarrow> string option \<times> database" where
  "Migrate fault db = (case fault of Some e \<Rightarrow> (Some e, db) | None \<Rightarrow> (None, db\<lparr>migrated := True\<rparr>))"

section \<open>Users\<close>

definition user_of_row :: "user_row \<Rightarrow> User" where
  "user_of_row r = \<lparr>ID = word_of_int (u_id r), Username = u_username r\<rparr>"

text \<open>
  \<open>INSERT INTO users ... RETURNING id, username\<close>. The key is drawn from the sequence before the
  uniqueness of the name is checked, so that a refused insert consumes it.
\<close>

definition insert_user :: "string \<Rightarrow> string \<Rightarrow> database \<Rightarrow> (string + user_row) \<times> database" where
  "insert_user name hash db =
     (if 2 ^ 63 \<le> users_seq db then (Inl ''pq: nextval: reached maximum value of sequence'', db)
      else let db' = db\<lparr>users_seq := users_seq db + 1\<rparr> in
        if name \<in> u_username ` set (users db)
        then (Inl ''pq: duplicate key value violates unique constraint'', db')
        else let row = \<lparr>u_id = users_seq db, u_username = name, u_password_hash = hash\<rparr>
             in (Inr row, db'\<lparr>users := users db @ [row]\<rparr>))"

definition CreateUser ::
  "string option \<Rightarrow> string + bytes \<Rightarrow> string \<Rightarrow> string \<Rightarrow> database \<Rightarrow> (string + User) \<times> database" where
  "CreateUser fault salt username password db =
     (if username = [] \<or> password = [] then (Inl ''username and password are required'', db)
      else case HashPassword salt password of
        Inl e \<Rightarrow> (Inl e, db)
      | Inr hash \<Rightarrow> (case statement_error fault db of
          Some e \<Rightarrow> (Inl e, db)
        | None \<Rightarrow> (case insert_user username hash db of
            (Inl e, db) \<Rightarrow> (Inl e, db)
          | (Inr row, db) \<Rightarrow> (Inr (user_of_row row), db))))"

definition bad_login :: string where
  "bad_login = ''invalid username or password''"

definition Authenticate :: "string option \<Rightarrow> string \<Rightarrow> string \<Rightarrow> database \<Rightarrow> string + User" where
  "Authenticate fault username password db =
     (case statement_error fault db of
        Some e \<Rightarrow> Inl bad_login
      | None \<Rightarrow> (case List.find (\<lambda>r. u_username r = username) (users db) of
          None \<Rightarrow> Inl bad_login
        | Some row \<Rightarrow>
            if \<not> CheckPassword (u_password_hash row) password then Inl bad_login
            else Inr (user_of_row row)))"

section \<open>Sessions and runs\<close>

definition user_exists :: "int \<Rightarrow> database \<Rightarrow> bool" where
  "user_exists uid db \<longleftrightarrow> uid \<in> u_id ` set (users db)"

definition SaveSession ::
  "string option \<Rightarrow> int \<Rightarrow> string \<Rightarrow> int \<Rightarrow> database \<Rightarrow> string option \<times> database" where
  "SaveSession fault uid hash expires db =
     (case statement_error fault db of
        Some e \<Rightarrow> (Some e, db)
      | None \<Rightarrow>
          if \<not> user_exists uid db then (Some ''pq: violates foreign key constraint'', db)
          else (None, db\<lparr>auth_sessions := auth_sessions db @
                 [\<lparr>s_user_id = uid, s_token_hash = hash, s_expires_at = expires\<rparr>]\<rparr>))"

definition normalizeMemoryMode_db :: "string \<Rightarrow> string" where
  "normalizeMemoryMode_db mode = (if mode \<in> {''heap'', ''no_arena''} then ''no_arena'' else ''arena'')"

text \<open>The key and the creation time of the row come from the server, not from the argument.\<close>

definition SaveProcessingRun ::
  "string option \<Rightarrow> int \<Rightarrow> ProcessingRun \<Rightarrow> database \<Rightarrow> string option \<times> database" where
  "SaveProcessingRun fault now run db =
     (case statement_error fault db of
        Some e \<Rightarrow> (Some e, db)
      | None \<Rightarrow>
          if \<not> (in_i32 (pr_Width run) \<and> in_i32 (pr_Height run) \<and> in_i32 (pr_FramesCount run))
          then (Some ''pq: value out of range for type integer'', db)
          else if 2 ^ 63 \<le> runs_seq db then (Some ''pq: nextval: reached maximum value of sequence'', db)
          else let db' = db\<lparr>runs_seq := runs_seq db + 1\<rparr> in
            if \<not> user_exists (pr_UserID run) db then (Some ''pq: violates foreign key constraint'', db')
            else (None, db'\<lparr>processing_runs := processing_runs db @
                   [run\<lparr>pr_ID := runs_seq db, pr_MemoryMode := normalizeMemoryMode_db (pr_MemoryMode run),
                        pr_CreatedAt := now\<rparr>]\<rparr>))"

definition run_limit :: "int \<Rightarrow> int" where
  "run_limit limit = (if limit \<le> 0 \<or> 100 < limit then 20 else limit)"

text \<open>\<open>ORDER BY created_at DESC LIMIT n\<close>; rows of the same time keep their insertion order.\<close>

definition RecentRuns :: "string option \<Rightarrow> int \<Rightarrow> int \<Rightarrow> database \<Rightarrow> string + ProcessingRun list" where
  "RecentRuns fault uid limit db =
     (case statement_error fault db of
        Some e \<Rightarrow> Inl e
      | None \<Rightarrow> Inr (take (nat (run_limit limit))
          (sort_key (\<lambda>r. - pr_CreatedAt r) (filter (\<lambda>r. pr_UserID r = uid) (processing_runs db)))))"

section \<open>The invariant of the tables\<close>

definition db_inv :: "database \<Rightarrow> bool" where
  "db_inv db \<longleftrightarrow>
     distinct (map u_username (users db)) \<and> distinct (map u_id (users db)) \<and>
     (\<forall>r \<in> set (users db). 1 \<le> u_id r \<and> u_id r < users_seq db) \<and> 1 \<le> users_seq db \<and> users_seq db \<le> 2 ^ 63 \<and>
     (\<forall>s \<in> set (auth_sessions db). user_exists (s_user_id s) db) \<and>
     (\<forall>r \<in> set (processing_runs db). user_exists (pr_UserID r) db \<and> pr_ID r < runs_seq db \<and>
        pr_MemoryMode r \<in> {''arena'', ''no_arena''} \<and> in_i32 (pr_Width r) \<and> in_i32 (pr_Height r)) \<and>
     distinct (map pr_ID (processing_runs db))"

lemma empty_database_inv: "db_inv empty_database"
  by (simp add: db_inv_def empty_database_def)

lemma normalizeMemoryMode_db_cases [simp]: "normalizeMemoryMode_db m = ''arena'' \<or> normalizeMemoryMode_db m = ''no_arena''"
  by (simp add: normalizeMemoryMode_db_def)

lemma insert_user_spec:
  assumes "db_inv db" "insert_user name hash db = (res, db')"
  shows "db_inv db' \<and> migrated db' = migrated db \<and> (case res of
      Inl e \<Rightarrow> users db' = users db
    | Inr row \<Rightarrow> users db' = users db @ [row] \<and> u_username row = name \<and> u_password_hash row = hash \<and>
        name \<notin> u_username ` set (users db))"
proof (cases "2 ^ 63 \<le> users_seq db \<or> name \<in> u_username ` set (users db)")
  case True
  then show ?thesis
    using assms by (auto simp: insert_user_def db_inv_def user_exists_def Let_def less_imp_le split: if_splits)
next
  case False
  then have db': "db' = db\<lparr>users_seq := users_seq db + 1,
      users := users db @ [\<lparr>u_id = users_seq db, u_username = name, u_password_hash = hash\<rparr>]\<rparr>"
    and res: "res = Inr \<lparr>u_id = users_seq db, u_username = name, u_password_hash = hash\<rparr>"
    using assms(2) by (auto simp: insert_user_def Let_def)
  have "users_seq db \<notin> u_id ` set (users db)" using assms(1) by (force simp: db_inv_def)
  then have "db_inv db'"
    using assms(1) False by (auto simp: db_inv_def user_exists_def db')
  then show ?thesis using False by (simp add: db' res)
qed

lemma SaveSession_inv: "db_inv db \<Longrightarrow> db_inv (snd (SaveSession f u h e db))"
  by (auto simp: SaveSession_def db_inv_def user_exists_def split: option.splits)

lemma SaveProcessingRun_inv:
  assumes "db_inv db"
  shows "db_inv (snd (SaveProcessingRun f now run db))"
proof -
  have "runs_seq db \<notin> pr_ID ` set (processing_runs db)" using assms by (force simp: db_inv_def)
  then show ?thesis
    using assms normalizeMemoryMode_db_cases [of "pr_MemoryMode run"]
    by (auto simp: SaveProcessingRun_def db_inv_def user_exists_def Let_def split: option.splits)
qed

lemma CreateUser_inv: "db_inv db \<Longrightarrow> db_inv (snd (CreateUser f salt u p db))"
  using insert_user_spec [of db u _ _ _]
  by (auto simp: CreateUser_def split: sum.splits option.splits prod.splits)

lemma Migrate_inv: "db_inv db \<Longrightarrow> db_inv (snd (Migrate f db))"
  by (auto simp: Migrate_def db_inv_def user_exists_def split: option.splits)

section \<open>Credentials as an interface\<close>

text \<open>
  What the login handlers rely on: after a registration the same name and password log in as the
  registered user; it changes no other login; a refused registration changes none.
\<close>

locale credentials =
  fixes create :: "bytes \<Rightarrow> string \<Rightarrow> string \<Rightarrow> 's \<Rightarrow> (string + User) \<times> 's"
    and login :: "string \<Rightarrow> string \<Rightarrow> 's \<Rightarrow> string + User"
    and good :: "'s \<Rightarrow> bool"
  assumes create_good: "good s \<Longrightarrow> create salt n p s = (r, s') \<Longrightarrow> good s'"
    and create_login: "good s \<Longrightarrow> create salt n p s = (Inr u, s') \<Longrightarrow> login n p s' = Inr u \<and> Username u = n"
    and create_frame: "good s \<Longrightarrow> create salt n p s = (r, s') \<Longrightarrow> n' \<noteq> n \<or> isl r \<Longrightarrow> login n' q s' = login n' q s"
    and create_once: "good s \<Longrightarrow> login n q s = Inr v \<Longrightarrow> isl (fst (create salt n p s))"
begin

fun register_all :: "(bytes \<times> string \<times> string) list \<Rightarrow> 's \<Rightarrow> (string + User) list \<times> 's" where
  "register_all [] s = ([], s)"
| "register_all ((salt, n, p) # regs) s =
     (case create salt n p s of (r, s) \<Rightarrow> (case register_all regs s of (rs, s) \<Rightarrow> (r # rs, s)))"

lemma login_kept:
  assumes "good s" "login n p s = Inr u" "register_all regs s = (rs, s')"
  shows "login n p s' = Inr u"
  using assms
proof (induction regs arbitrary: s rs)
  case (Cons reg regs)
  obtain salt m q where reg: "reg = (salt, m, q)" by (cases reg)
  obtain r s1 rs1 where step: "create salt m q s = (r, s1)" "register_all regs s1 = (rs1, s')"
    using Cons.prems(3) by (auto simp: reg split: prod.splits)
  have "login n p s1 = login n p s"
    using create_frame [OF Cons.prems(1) step(1), of n p] create_once [OF Cons.prems(1,2), of salt q] step(1)
    by (cases "n = m") auto
  then show ?case
    using Cons.IH [OF create_good [OF Cons.prems(1) step(1)] _ step(2)] Cons.prems(2) by simp
qed simp

lemma registered_login:
  assumes "good s" "register_all regs s = (rs, s')" "i < length regs" "rs ! i = Inr u"
  shows "login (fst (snd (regs ! i))) (snd (snd (regs ! i))) s' = Inr u \<and> Username u = fst (snd (regs ! i))"
  using assms
proof (induction regs arbitrary: s rs i)
  case (Cons reg regs)
  obtain salt m q where reg: "reg = (salt, m, q)" by (cases reg)
  obtain r s1 rs1 where step: "create salt m q s = (r, s1)" "register_all regs s1 = (rs1, s')" "rs = r # rs1"
    using Cons.prems(2) by (auto simp: reg split: prod.splits)
  note good = create_good [OF Cons.prems(1) step(1)]
  show ?case
  proof (cases i)
    case 0
    then have "create salt m q s = (Inr u, s1)" using step Cons.prems(4) by simp
    from create_login [OF Cons.prems(1) this] show ?thesis
      using login_kept [OF good _ step(2), of m q u] by (simp add: 0 reg)
  next
    case (Suc j)
    then show ?thesis using Cons.IH [OF good step(2), of j] Cons.prems(3,4) step(3) by simp
  qed
qed simp

end

lemma find_username: "List.find (\<lambda>r. u_username r = n) rows = None \<longleftrightarrow> n \<notin> u_username ` set rows"
  by (induction rows) auto

lemma find_append: "List.find P (xs @ ys) = (case List.find P xs of None \<Rightarrow> List.find P ys | Some x \<Rightarrow> Some x)"
  by (induction xs) auto

lemma CreateUser_cases:
  assumes "db_inv db" "CreateUser fault salt n p db = (r, db')"
  shows "db_inv db' \<and> migrated db' = migrated db \<and> (case r of
      Inl e \<Rightarrow> users db' = users db
    | Inr u \<Rightarrow> \<exists>row bs. users db' = users db @ [row] \<and> u = user_of_row row \<and> u_username row = n \<and>
        salt = Inr bs \<and> HashPassword salt p = Inr (u_password_hash row) \<and> n \<notin> u_username ` set (users db))"
proof -
  have bs: "\<exists>bs. salt = Inr bs" if "HashPassword salt p = Inr h" for h
    using that by (auto simp: HashPassword_def split: sum.splits)
  show ?thesis
    using assms(2) insert_user_spec [OF assms(1), of n] assms(1) bs
    by (fastforce simp: CreateUser_def split: if_splits sum.splits option.splits prod.splits)
qed

lemma CheckPassword_own: "HashPassword (Inr bs) p = Inr h \<Longrightarrow> CheckPassword h p"
proof -
  assume h: "HashPassword (Inr bs) p = Inr h"
  have "split_on CHR '':'' (hex_encode bs @ '':'' @ hex_encode d) = [hex_encode bs, hex_encode d]" for d
    using split_on_append [OF hex_encode_no_colon [of bs], of "hex_encode d"]
    by (simp add: split_on_none hex_encode_no_colon)
  then show ?thesis using h by (auto simp: HashPassword_def CheckPassword_def Let_def hex_decode_encode)
qed

interpretation store: credentials "\<lambda>salt. CreateUser None (Inr salt)" "Authenticate None" "\<lambda>db. db_inv db \<and> migrated db"
proof
  fix db salt n p r db' assume good: "db_inv db \<and> migrated db" and run: "CreateUser None (Inr salt) n p db = (r, db')"
  note spec = CreateUser_cases [OF conjunct1 [OF good] run]
  show "db_inv db' \<and> migrated db'" using spec good by simp
  show "Authenticate None n' q db' = Authenticate None n' q db" if "n' \<noteq> n \<or> isl r" for n' q
    using that spec good
    by (cases r) (auto simp: Authenticate_def statement_error_def find_append split: option.splits)
next
  fix db salt n p u db' assume good: "db_inv db \<and> migrated db" and run: "CreateUser None (Inr salt) n p db = (Inr u, db')"
  obtain row where row: "users db' = users db @ [row]" "u = user_of_row row" "u_username row = n"
      "HashPassword (Inr salt) p = Inr (u_password_hash row)" "n \<notin> u_username ` set (users db)"
    and mig: "migrated db'"
    using CreateUser_cases [OF conjunct1 [OF good] run] good by auto
  have "List.find (\<lambda>r. u_username r = n) (users db') = Some row"
    using row find_username [of n "users db"] by (simp add: find_append)
  then show "Authenticate None n p db' = Inr u \<and> Username u = n"
    using mig CheckPassword_own [OF row(4)] row(2,3)
    by (simp add: Authenticate_def statement_error_def user_of_row_def)
next
  fix db n q v salt p assume good: "db_inv db \<and> migrated db" and login: "Authenticate None n q db = Inr v"
  have "n \<in> u_username ` set (users db)"
    using login good find_username [of n "users db"]
    by (auto simp: Authenticate_def statement_error_def split: option.splits)
  then show "isl (fst (CreateUser None (Inr salt) n p db))"
    using CreateUser_cases [OF conjunct1 [OF good], of None "Inr salt" n p]
    by (cases "CreateUser None (Inr salt) n p db") (auto split: sum.splits)
qed

section \<open>Histories\<close>

text \<open>The calls on a store, each with the faults and inputs it meets.\<close>

datatype store_op =
    OpMigrate "string option"
  | OpCreateUser "string option" "string + bytes" string string
  | OpAuthenticate "string option" string string
  | OpSaveSession "string option" int string int
  | OpSaveRun "string option" int ProcessingRun
  | OpRecentRuns "string option" int int

fun store_op_effect :: "store_op \<Rightarrow> database \<Rightarrow> database" where
  "store_op_effect (OpMigrate f) db = snd (Migrate f db)"
| "store_op_effect (OpCreateUser f salt n p) db = snd (CreateUser f salt n p db)"
| "store_op_effect (OpAuthenticate f n p) db = db"
| "store_op_effect (OpSaveSession f uid h e) db = snd (SaveSession f uid h e db)"
| "store_op_effect (OpSaveRun f now run) db = snd (SaveProcessingRun f now run db)"
| "store_op_effect (OpRecentRuns f uid n) db = db"

definition store_history :: "store_op list \<Rightarrow> database \<Rightarrow> database" where
  "store_history ops db = fold store_op_effect ops db"

lemma store_op_inv: "db_inv db \<Longrightarrow> db_inv (store_op_effect op db)"
  by (cases op) (simp_all add: Migrate_inv CreateUser_inv SaveSession_inv SaveProcessingRun_inv)

lemma store_history_inv: "db_inv db \<Longrightarrow> db_inv (store_history ops db)"
  unfolding store_history_def by (induction ops arbitrary: db) (simp_all add: store_op_inv)

lemma store_op_mono: "set (users db) \<subseteq> set (users (store_op_effect op db)) \<and>
    set (processing_runs db) \<subseteq> set (processing_runs (store_op_effect op db))"
proof (cases op)
  case (OpCreateUser f salt n p)
  then show ?thesis
    by (auto simp: CreateUser_def insert_user_def Let_def split: sum.splits option.splits prod.splits if_splits)
qed (auto simp: Migrate_def SaveSession_def SaveProcessingRun_def Let_def split: option.splits)

lemma take_sorted:
  assumes "sorted (map k xs)" "x \<in> set (take n xs)" "y \<in> set (drop n xs)"
  shows "k x \<le> k y"
proof -
  have "sorted (map k (take n xs) @ map k (drop n xs))" using assms(1) by (simp flip: map_append)
  then show ?thesis using assms(2,3) by (simp add: sorted_append)
qed

section \<open>Properties\<close>

text \<open>
  C38. The tables stay consistent under any sequence of calls with any faults, from an empty
  database on: names and keys are unique, every session and run belongs to a user, every run has one of
  the two memory modes and sizes that fit the columns; and nothing is ever lost.
\<close>

theorem store_consistent:
  "db_inv (store_history ops empty_database) \<and>
   set (processing_runs (store_history ops empty_database)) \<subseteq>
     set (processing_runs (store_history (ops @ later) empty_database)) \<and>
   set (users (store_history ops empty_database)) \<subseteq> set (users (store_history (ops @ later) empty_database))"
proof -
  have "set (users db) \<subseteq> set (users (fold store_op_effect later db)) \<and>
      set (processing_runs db) \<subseteq> set (processing_runs (fold store_op_effect later db))" for db
    by (induction later arbitrary: db) (use store_op_mono in \<open>fastforce+\<close>)
  then show ?thesis
    using store_history_inv [OF empty_database_inv, of ops] by (simp add: store_history_def)
qed

text \<open>
  Registration and login: after any number of registrations, in any order and with repeated
  names, every registration that was accepted can log in with its name and password, and gets the user
  it was given.
\<close>

theorem registered_users_login:
  assumes "db_inv db" and "migrated db" and "store.register_all regs db = (rs, db')"
    and "i < length regs" and "rs ! i = Inr u"
  shows "Authenticate None (fst (snd (regs ! i))) (snd (snd (regs ! i))) db' = Inr u \<and> Username u = fst (snd (regs ! i))"
  using store.registered_login [OF _ assms(3-5)] assms(1,2) by simp

theorem registered_users_login_witness:
  "\<exists>db' r. store.register_all [([1], ''ann'', ''pw'')] (snd (Migrate None empty_database)) = ([r], db') \<and>
     Authenticate None ''ann'' ''pw'' db' = r"
proof -
  let ?db = "snd (Migrate None empty_database)" and ?regs = "[([1], ''ann'', ''pw'')]"
  have db: "db_inv ?db" "migrated ?db" by (simp_all add: Migrate_inv empty_database_inv) (simp add: Migrate_def)
  obtain rs db' where run: "store.register_all ?regs ?db = (rs, db')" by fastforce
  have "\<exists>u. rs = [Inr u]"
    using run by (auto simp: CreateUser_def HashPassword_def statement_error_def insert_user_def Let_def
        Migrate_def empty_database_def)
  then show ?thesis using registered_users_login [OF db run, of 0] run by auto
qed

text \<open>
  A refused registration: an empty name or password, a failing random source, a failing
  statement and a name already taken are errors, and the tables keep their rows.
\<close>

theorem CreateUser_refused:
  assumes "db_inv db"
    and "username = [] \<or> password = [] \<or> isl salt \<or> statement_error fault db \<noteq> None \<or>
      username \<in> u_username ` set (users db)"
  shows "isl (fst (CreateUser fault salt username password db)) \<and>
    users (snd (CreateUser fault salt username password db)) = users db \<and>
    auth_sessions (snd (CreateUser fault salt username password db)) = auth_sessions db \<and>
    processing_runs (snd (CreateUser fault salt username password db)) = processing_runs db"
  using assms
  by (cases salt) (auto simp: CreateUser_def HashPassword_def insert_user_def Let_def split: option.splits)

theorem CreateUser_refused_witness:
  "isl (fst (CreateUser None (Inl ''no entropy'') ''ann'' ''pw'' empty_database))"
  using CreateUser_refused [OF empty_database_inv, of "''ann''" "''pw''" "Inl ''no entropy''" None] by simp

text \<open>
  The history of a user: at most \<open>limit\<close> runs (20 when the limit is not in 1..100), all of that
  user, newest first, and no run that is left out is newer than one that is returned; with enough room
  all of them are returned.
\<close>

theorem RecentRuns_newest:
  assumes "statement_error fault db = None"
  shows "\<exists>out. RecentRuns fault uid limit db = Inr out \<and> int (length out) \<le> run_limit limit \<and>
    sorted (map (\<lambda>r. - pr_CreatedAt r) out) \<and>
    (\<exists>rest. mset (out @ rest) = mset (filter (\<lambda>r. pr_UserID r = uid) (processing_runs db)) \<and>
      (\<forall>r \<in> set out. \<forall>r' \<in> set rest. pr_CreatedAt r' \<le> pr_CreatedAt r) \<and>
      (int (length out) < run_limit limit \<longrightarrow> rest = []))"
proof -
  let ?n = "nat (run_limit limit)"
  let ?s = "sort_key (\<lambda>r. - pr_CreatedAt r) (filter (\<lambda>r. pr_UserID r = uid) (processing_runs db))"
  have pos: "0 < run_limit limit" by (simp add: run_limit_def)
  have sorted: "sorted (map (\<lambda>r. - pr_CreatedAt r) ?s)" by simp
  have "mset (take ?n ?s) + mset (drop ?n ?s) = filter_mset (\<lambda>r. pr_UserID r = uid) (mset (processing_runs db))"
    by (simp only: mset_append [symmetric] append_take_drop_id mset_sort mset_filter)
  moreover have "\<forall>r \<in> set (take ?n ?s). \<forall>r' \<in> set (drop ?n ?s). pr_CreatedAt r' \<le> pr_CreatedAt r"
    using take_sorted [OF sorted] by fastforce
  moreover have "sorted (map (\<lambda>r. - pr_CreatedAt r) (take ?n ?s))"
    using sorted by (simp add: take_map [symmetric] sorted_wrt_take)
  ultimately show ?thesis
    using assms pos by (intro exI [of _ "take ?n ?s"]) (auto simp: RecentRuns_def intro!: exI [of _ "drop ?n ?s"])
qed

theorem RecentRuns_newest_witness:
  "\<exists>out. RecentRuns None 1 500 (empty_database\<lparr>migrated := True\<rparr>) = Inr out \<and> length out \<le> 20"
  using RecentRuns_newest [of None "empty_database\<lparr>migrated := True\<rparr>" 1 500]
  by (auto simp: statement_error_def run_limit_def)

end
