(* ===== verification/Gateway_Metrics.thy ===== *)
theory Gateway_Metrics
  imports Proto
begin

text \<open>
  \<open>gateway/internal/metrics/metrics.go\<close>: the Prometheus instruments of the gateway and the
  token-bucket rate limiter.

  A counter vector is a function from the label to the counter's value, a histogram the list of
  its observations, a gauge its last value.
\<close>

section \<open>Instruments\<close>

record Metrics =
  requestsTotal :: "string \<Rightarrow> nat"
  errorsTotal :: "string \<Rightarrow> nat"
  framesProcessedTotal :: nat
  requestPayloadBytes :: "string \<Rightarrow> int"
  requestLatency :: "(string \<times> fl) list"
  activeConnections :: int
  processorPoolSize :: int

definition NewMetrics :: Metrics where
  "NewMetrics = \<lparr>requestsTotal = (\<lambda>_. 0), errorsTotal = (\<lambda>_. 0), framesProcessedTotal = 0,
     requestPayloadBytes = (\<lambda>_. 0), requestLatency = [], activeConnections = 0, processorPoolSize = 0\<rparr>"

definition IncrementRequests :: "string \<Rightarrow> Metrics \<Rightarrow> Metrics" where
  "IncrementRequests endpoint m = m\<lparr>requestsTotal := (requestsTotal m)(endpoint := requestsTotal m endpoint + 1)\<rparr>"

definition IncrementErrors :: "string \<Rightarrow> Metrics \<Rightarrow> Metrics" where
  "IncrementErrors errorType m = m\<lparr>errorsTotal := (errorsTotal m)(errorType := errorsTotal m errorType + 1)\<rparr>"

definition IncrementProcessedFrames :: "Metrics \<Rightarrow> Metrics" where
  "IncrementProcessedFrames m = m\<lparr>framesProcessedTotal := framesProcessedTotal m + 1\<rparr>"

definition AddRequestPayloadBytes :: "string \<Rightarrow> int \<Rightarrow> Metrics \<Rightarrow> Metrics" where
  "AddRequestPayloadBytes endpoint n m =
     (if n \<le> 0 then m
      else m\<lparr>requestPayloadBytes := (requestPayloadBytes m)(endpoint := requestPayloadBytes m endpoint + n)\<rparr>)"

definition RecordLatency :: "string \<Rightarrow> i64 \<Rightarrow> Metrics \<Rightarrow> Metrics" where
  "RecordLatency endpoint duration m =
     m\<lparr>requestLatency := requestLatency m @ [(endpoint, duration_seconds duration)]\<rparr>"

definition SetActiveConnections :: "int \<Rightarrow> Metrics \<Rightarrow> Metrics" where
  "SetActiveConnections count m = m\<lparr>activeConnections := count\<rparr>"

definition SetProcessorPoolSize :: "int \<Rightarrow> Metrics \<Rightarrow> Metrics" where
  "SetProcessorPoolSize n m = m\<lparr>processorPoolSize := n\<rparr>"

lemmas metrics_defs = IncrementRequests_def IncrementErrors_def IncrementProcessedFrames_def
  AddRequestPayloadBytes_def RecordLatency_def SetActiveConnections_def SetProcessorPoolSize_def

section \<open>Rate limiter\<close>

text \<open>The channel \<open>tokens\<close>: its capacity, the number of tokens in it, and the ticker's period in ns.\<close>

record RateLimiter =
  capacity :: nat
  tokens :: nat
  period :: int

text \<open>
  \<open>None\<close>: the process dies, at once for a negative capacity of the channel, or in the goroutine
  that divides by the rate or asks for a ticker without a positive period.
\<close>

definition NewRateLimiter :: "int \<Rightarrow> RateLimiter option" where
  "NewRateLimiter rps =
     (if rps < 0 then None
      else if rps = 0 then None
      else let d = 10 ^ 9 sdiv rps in
        if d \<le> 0 then None else Some \<lparr>capacity = nat rps, tokens = nat rps, period = d\<rparr>)"

definition refill :: "RateLimiter \<Rightarrow> RateLimiter" where
  "refill rl = (if tokens rl < capacity rl then rl\<lparr>tokens := tokens rl + 1\<rparr> else rl)"

definition Allow :: "RateLimiter \<Rightarrow> bool \<times> RateLimiter" where
  "Allow rl = (if 0 < tokens rl then (True, rl\<lparr>tokens := tokens rl - 1\<rparr>) else (False, rl))"

definition exempt_path :: "string \<Rightarrow> bool" where
  "exempt_path p \<longleftrightarrow> has_prefix p ''/api/admin/'' \<or> p = ''/metrics'' \<or> p = ''/health''"

text \<open>
  The middleware around \<open>next\<close>, a handler that may change a state of its own; \<open>reject\<close> is the answer
  with status 429.
\<close>

definition limit_middleware ::
  "('req \<Rightarrow> string) \<Rightarrow> 'resp \<Rightarrow> ('req \<Rightarrow> 's \<Rightarrow> 'resp \<times> 's) \<Rightarrow> 'req \<Rightarrow> RateLimiter \<times> 's \<Rightarrow> 'resp \<times> RateLimiter \<times> 's" where
  "limit_middleware path_of reject nxt r st = (case st of (rl, s) \<Rightarrow>
     if exempt_path (path_of r) then (case nxt r s of (resp, s) \<Rightarrow> (resp, rl, s))
     else (case Allow rl of
       (False, rl) \<Rightarrow> (reject, rl, s)
     | (True, rl) \<Rightarrow> (case nxt r s of (resp, s) \<Rightarrow> (resp, rl, s))))"

section \<open>The limiter over time\<close>

text \<open>Ticks of the refilling goroutine and arriving requests, in the order they reach the channel.\<close>

datatype limiter_event = Tick | Request string

fun limiter_run :: "limiter_event list \<Rightarrow> RateLimiter \<Rightarrow> (string \<times> bool) list \<times> RateLimiter" where
  "limiter_run [] rl = ([], rl)"
| "limiter_run (Tick # es) rl = limiter_run es (refill rl)"
| "limiter_run (Request p # es) rl =
     (if exempt_path p then (case limiter_run es rl of (ds, rl) \<Rightarrow> ((p, True) # ds, rl))
      else case Allow rl of (ok, rl) \<Rightarrow> (case limiter_run es rl of (ds, rl) \<Rightarrow> ((p, ok) # ds, rl)))"

definition passed :: "(string \<times> bool) list \<Rightarrow> nat" where
  "passed ds = length (filter (\<lambda>(p, ok). ok \<and> \<not> exempt_path p) ds)"

definition ticks :: "limiter_event list \<Rightarrow> nat" where
  "ticks es = length (filter (\<lambda>e. e = Tick) es)"

definition demand :: "limiter_event list \<Rightarrow> nat" where
  "demand es = length (filter (\<lambda>e. case e of Tick \<Rightarrow> False | Request p \<Rightarrow> \<not> exempt_path p) es)"

lemma passed_simps [simp]:
  "passed [] = 0" "passed ((p, ok) # ds) = (if ok \<and> \<not> exempt_path p then 1 else 0) + passed ds"
  by (simp_all add: passed_def)

lemma ticks_simps [simp]: "ticks [] = 0" "ticks (Tick # es) = Suc (ticks es)" "ticks (Request p # es) = ticks es"
  by (simp_all add: ticks_def)

lemma demand_simps [simp]:
  "demand [] = 0" "demand (Tick # es) = demand es"
  "demand (Request p # es) = (if exempt_path p then 0 else 1) + demand es"
  by (simp_all add: demand_def)

lemma limiter_bounds:
  assumes "limiter_run es rl = (ds, rl')" "tokens rl \<le> capacity rl"
  shows "tokens rl' \<le> capacity rl' \<and> capacity rl' = capacity rl \<and>
    passed ds + tokens rl' \<le> tokens rl + ticks es \<and> min (demand es) (tokens rl) \<le> passed ds \<and>
    length ds = length (filter (\<lambda>e. e \<noteq> Tick) es)"
  using assms
proof (induction es arbitrary: rl ds)
  case Nil
  then show ?case by auto
next
  case (Cons e es)
  show ?case
  proof (cases e)
    case Tick
    have run: "limiter_run es (refill rl) = (ds, rl')" using Cons.prems Tick by simp
    have "tokens (refill rl) \<le> capacity (refill rl)" using Cons.prems(2) by (simp add: refill_def)
    from Cons.IH [OF run this] show ?thesis using Tick by (auto simp: refill_def split: if_splits)
  next
    case (Request p)
    obtain ok rl1 ds1 where step: "rl1 = (if exempt_path p then rl else snd (Allow rl))"
      "ok = (exempt_path p \<or> fst (Allow rl))" "limiter_run es rl1 = (ds1, rl')" "ds = (p, ok) # ds1"
      using Cons.prems(1) Request by (auto split: prod.splits if_splits)
    have "tokens rl1 \<le> capacity rl1" using Cons.prems(2) step(1) by (auto simp: Allow_def)
    from Cons.IH [OF step(3) this] show ?thesis
      using step(1,2,4) Request by (auto simp: Allow_def split: if_splits)
  qed
qed

lemma period_bounds:
  assumes "NewRateLimiter rps = Some rl"
  shows "1 \<le> rps" "rps \<le> 10 ^ 9" "period rl = 10 ^ 9 div rps" "capacity rl = nat rps" "tokens rl = nat rps"
proof -
  have rps: "0 < rps" using assms by (auto simp: NewRateLimiter_def split: if_splits)
  then have q: "10 ^ 9 sdiv rps = (10 ^ 9 div rps :: int)" by (simp add: signed_divide_int_def)
  show "1 \<le> rps" using rps by simp
  show "period rl = 10 ^ 9 div rps" "capacity rl = nat rps" "tokens rl = nat rps"
    using assms q by (auto simp: NewRateLimiter_def Let_def split: if_splits)
  have "0 < (10 ^ 9 div rps :: int)" using assms rps q by (auto simp: NewRateLimiter_def Let_def split: if_splits)
  then show "rps \<le> 10 ^ 9" using rps by (simp add: pos_imp_zdiv_pos_iff)
qed

section \<open>Properties\<close>

text \<open>
  C26. The rate limit over any history: starting from a fresh limiter of rate \<open>rps\<close>, the number of
  limited requests let through never exceeds \<open>rps\<close> plus the number of ticks, the bucket never holds more
  than \<open>rps\<close> tokens, every request gets a decision, and a burst up to the tokens in the bucket is let
  through completely.
\<close>

theorem rate_limit:
  assumes "NewRateLimiter rps = Some rl" and "limiter_run es rl = (ds, rl')"
  shows "int (passed ds) \<le> rps + int (ticks es) \<and> int (tokens rl') \<le> rps \<and>
    length ds = length (filter (\<lambda>e. e \<noteq> Tick) es) \<and> min (int (demand es)) rps \<le> int (passed ds)"
  using limiter_bounds [OF assms(2)] period_bounds [OF assms(1)] by (auto simp: min_def split: if_splits)

theorem rate_limit_witness:
  "int (passed (fst (limiter_run [Request ''/api/process'', Request ''/api/process'', Request ''/health'']
     \<lparr>capacity = 1, tokens = 1, period = 1000000000\<rparr>))) = 1"
proof -
  let ?es = "[Request ''/api/process'', Request ''/api/process'', Request ''/health'']"
  let ?rl = "\<lparr>capacity = 1, tokens = 1, period = 1000000000\<rparr>"
  have new: "NewRateLimiter 1 = Some ?rl" by (simp add: NewRateLimiter_def)
  obtain ds rl' where run: "limiter_run ?es ?rl = (ds, rl')" by fastforce
  have "demand ?es = 2" "ticks ?es = 0" by (simp_all add: exempt_path_def)
  then show ?thesis using rate_limit [OF new run] run by simp
qed

text \<open>
  Which rates work: the constructor survives exactly the rates from 1 to \<open>10^9\<close>; then the
  ticker refills at least \<open>rps\<close> tokens a second, and fewer than \<open>rps\<close> would need a period longer by one
  nanosecond. Any other rate, 0 included, kills the gateway.
\<close>

theorem NewRateLimiter_defined:
  "(NewRateLimiter rps \<noteq> None \<longleftrightarrow> 1 \<le> rps \<and> rps \<le> 10 ^ 9) \<and>
   (\<forall>rl. NewRateLimiter rps = Some rl \<longrightarrow>
      period rl * rps \<le> 10 ^ 9 \<and> 10 ^ 9 < (period rl + 1) * rps \<and> int (tokens rl) = rps)"
proof -
  have "NewRateLimiter rps \<noteq> None" if rps: "1 \<le> rps" "rps \<le> 10 ^ 9"
  proof -
    have "10 ^ 9 sdiv rps = (10 ^ 9 div rps :: int)" using rps by (simp add: signed_divide_int_def)
    moreover have "0 < (10 ^ 9 div rps :: int)" using rps by (simp add: pos_imp_zdiv_pos_iff)
    ultimately show ?thesis using rps by (simp add: NewRateLimiter_def Let_def)
  qed
  moreover have "period rl * rps \<le> 10 ^ 9 \<and> 10 ^ 9 < (period rl + 1) * rps \<and> int (tokens rl) = rps"
    if "NewRateLimiter rps = Some rl" for rl
  proof -
    note b = period_bounds [OF that]
    have "10 ^ 9 = (10 ^ 9 div rps) * rps + 10 ^ 9 mod rps" "0 \<le> 10 ^ 9 mod rps" "10 ^ 9 mod rps < rps"
      using b(1) by simp_all
    then show ?thesis unfolding b(3,5) using b(1) by (simp only: distrib_right) linarith
  qed
  ultimately show ?thesis using period_bounds by auto
qed

theorem NewRateLimiter_defined_witness: "NewRateLimiter 0 = None \<and> NewRateLimiter 2000000000 = None"
  using NewRateLimiter_defined [of 0] NewRateLimiter_defined [of 2000000000] by auto

end
