(* ===== verification/Http_Handlers.thy ===== *)
theory Http_Handlers
  imports Stream_Client Storage Gateway_Metrics
begin

text \<open>
  The request handlers of \<open>gateway/internal/http/handlers.go\<close> and the pages of
  \<open>gateway/internal/http/pages.go\<close>.

  A handler is a function from the request, an environment and the state of the gateway (pool,
  metrics, store, token manager) to the response and the new state. A request carries what the
  handlers read of it; its JSON body is what \<open>encoding/json\<close> makes of it for the type the handler
  decodes into (\<open>None\<close> is a decoding error). The environment holds the clock, the random salt, the
  faults of the database statements and the processors behind the connections.
\<close>

section \<open>Requests and responses\<close>

record ProcessFrameRequest =
  fr_Data :: string
  fr_Width :: int
  fr_Height :: int
  fr_Filter :: string
  fr_BlurRadius :: fl
  fr_MemoryMode :: string

record ProcessFrameResponse =
  fp_Data :: string
  fp_Success :: bool
  fp_ProcessingTimeMs :: fl
  fp_MemoryMode :: string
  fp_Error :: string

record procStats =
  ps_Index :: int
  ps_Addr :: string
  ps_Implementation :: string
  ps_ArenaSemantics :: bool
  ps_Stats :: "StatsResponse option"
  ps_Error :: string

record runtime_report =
  rt_uptime_seconds :: fl
  rt_arena_allocated_bytes :: i64
  rt_arena_used_bytes :: i64
  rt_peak_arena_bytes :: i64
  rt_total_allocations :: i64
  rt_total_resets :: i64
  rt_efficiency_percent :: fl
  rt_bytes_per_frame :: i64
  rt_total_frames :: i64
  rt_fps :: fl
  rt_avg_latency_ms :: fl
  rt_total_time_ns :: i64

datatype body =
    NoBody
  | Text string
  | AuthBody string int User
  | UserBody User
  | RunsBody "ProcessingRun list"
  | FrameBody ProcessFrameResponse
  | RawBody bytes
  | HealthBody string "string \<rightharpoonup> bool"
  | StatsBody StatsResponse
  | RoutingBody string int "string list" "string \<rightharpoonup> bool"
  | StatusBody string
  | ProcStatsBody "procStats list"
  | RuntimeBody runtime_report
  | HtmlBody string

record response =
  status :: nat
  headers :: "(string \<times> string) list"
  auth_cookie :: "(string \<times> int) option"
  body :: body

record request =
  rq_method :: string
  rq_path :: string
  rq_authorization :: string
  rq_cookie :: "string option"
  rq_query :: "string \<Rightarrow> string"
  rq_auth_json :: "(string \<times> string) option"
  rq_frame_json :: "ProcessFrameRequest option"
  rq_routing_json :: "(string \<times> int option) option"
  rq_raw :: bytes

record http_env =
  he_now :: int
  he_cookie_now :: int
  he_latency :: i64
  he_timestamp :: i64
  he_salt :: "string + bytes"
  he_db_now :: int
  he_user_fault :: "string option"
  he_save_fault :: "string option"
  he_call :: "ProcessorClient \<Rightarrow> MediaChunk \<Rightarrow> string \<Rightarrow> error + ProcessedChunk"
  he_get_stats :: "ProcessorClient \<Rightarrow> error + StatsResponse"

record gateway =
  g_pool :: ProcessorPool
  g_metrics :: Metrics
  g_store :: "database option"
  g_tokens :: "TokenManager option"

text \<open>\<open>http.Error\<close> of the standard library, which ends the text with a newline.\<close>

definition http_error :: "string \<Rightarrow> nat \<Rightarrow> response" where
  "http_error msg code = \<lparr>status = code,
     headers = [(''Content-Type'', ''text/plain; charset=utf-8''), (''X-Content-Type-Options'', ''nosniff'')],
     auth_cookie = None, body = Text (msg @ [CHR 0x0A])\<rparr>"

definition json_response :: "nat \<Rightarrow> body \<Rightarrow> response" where
  "json_response code b = \<lparr>status = code, headers = [(''Content-Type'', ''application/json'')],
     auth_cookie = None, body = b\<rparr>"

definition method_not_allowed :: response where "method_not_allowed = http_error ''Method not allowed'' 405"
definition no_storage :: response where "no_storage = http_error ''PostgreSQL storage is not configured'' 503"
definition no_processors :: response where "no_processors = http_error ''No available processors'' 503"

section \<open>Authentication\<close>

definition extractToken :: "request \<Rightarrow> string" where
  "extractToken r =
     (if has_prefix (rq_authorization r) ''Bearer '' then trim_prefix (rq_authorization r) ''Bearer ''
      else case rq_cookie r of
        Some c \<Rightarrow> if c \<noteq> [] then c else rq_query r ''token''
      | None \<Rightarrow> rq_query r ''token'')"

definition userFromRequest :: "http_env \<Rightarrow> gateway \<Rightarrow> request \<Rightarrow> string + User" where
  "userFromRequest env g r = (case g_tokens g of
     None \<Rightarrow> Inl ''auth is not configured''
   | Some m \<Rightarrow>
       let token = extractToken r in
       if token = [] then Inl ''authorization required''
       else (case Verify m (he_now env) token of
         Inl e \<Rightarrow> Inl (token_error_text e)
       | Inr u \<Rightarrow> Inr u))"

text \<open>\<open>currentUser\<close>: the user, or the response 401 that has been written.\<close>

definition currentUser :: "http_env \<Rightarrow> gateway \<Rightarrow> request \<Rightarrow> response + User" where
  "currentUser env g r = (case userFromRequest env g r of
     Inl e \<Rightarrow> Inl (http_error e 401)
   | Inr u \<Rightarrow> Inr u)"

text \<open>
  \<open>writeToken\<close>: issue a token, store its hash (an error of the store is ignored), set the cookie. The
  token manager is not nil in the running gateway; without one the method call panics (\<open>None\<close>).
\<close>

definition writeToken :: "http_env \<Rightarrow> User \<Rightarrow> gateway \<Rightarrow> (response \<times> gateway) option" where
  "writeToken env user g = (case g_tokens g of
     None \<Rightarrow> None
   | Some m \<Rightarrow>
       (case Issue m (he_now env) user of (token, expiresAt) \<Rightarrow>
        let g = (case g_store g of
              None \<Rightarrow> g
            | Some db \<Rightarrow> g\<lparr>g_store := Some (snd (SaveSession (he_save_fault env) (sint (ID user))
                (HashToken token) expiresAt db))\<rparr>);
            age = fl_to_int (duration_seconds (word_of_int (expiresAt - he_cookie_now env)))
        in Some ((json_response 200 (AuthBody token expiresAt user))\<lparr>auth_cookie := Some (token, age)\<rparr>, g)))"

definition HandleRegister :: "http_env \<Rightarrow> request \<Rightarrow> gateway \<Rightarrow> (response \<times> gateway) option" where
  "HandleRegister env r g =
     (if rq_method r \<noteq> ''POST'' then Some (method_not_allowed, g)
      else case g_store g of
        None \<Rightarrow> Some (no_storage, g)
      | Some db \<Rightarrow> (case rq_auth_json r of
          None \<Rightarrow> Some (http_error ''Invalid request body'' 400, g)
        | Some (username, password) \<Rightarrow>
            (case CreateUser (he_user_fault env) (he_salt env) username password db of
              (Inl e, db) \<Rightarrow> Some (http_error e 400, g\<lparr>g_store := Some db\<rparr>)
            | (Inr user, db) \<Rightarrow> writeToken env user (g\<lparr>g_store := Some db\<rparr>))))"

definition HandleLogin :: "http_env \<Rightarrow> request \<Rightarrow> gateway \<Rightarrow> (response \<times> gateway) option" where
  "HandleLogin env r g =
     (if rq_method r \<noteq> ''POST'' then Some (method_not_allowed, g)
      else case g_store g of
        None \<Rightarrow> Some (no_storage, g)
      | Some db \<Rightarrow> (case rq_auth_json r of
          None \<Rightarrow> Some (http_error ''Invalid request body'' 400, g)
        | Some (username, password) \<Rightarrow>
            (case Authenticate (he_user_fault env) username password db of
              Inl e \<Rightarrow> Some (http_error e 401, g)
            | Inr user \<Rightarrow> writeToken env user g)))"

definition HandleMe :: "http_env \<Rightarrow> request \<Rightarrow> gateway \<Rightarrow> response \<times> gateway" where
  "HandleMe env r g = (case currentUser env g r of
     Inl resp \<Rightarrow> (resp, g)
   | Inr user \<Rightarrow> (json_response 200 (UserBody user), g))"

definition HandleHistory :: "http_env \<Rightarrow> request \<Rightarrow> gateway \<Rightarrow> response \<times> gateway" where
  "HandleHistory env r g = (case currentUser env g r of
     Inl resp \<Rightarrow> (resp, g)
   | Inr user \<Rightarrow> (case g_store g of
       None \<Rightarrow> (no_storage, g)
     | Some db \<Rightarrow> (case RecentRuns (he_user_fault env) (sint (ID user)) 30 db of
         Inl e \<Rightarrow> (http_error e 500, g)
       | Inr runs \<Rightarrow> (json_response 200 (RunsBody runs), g))))"

section \<open>Names of filters and modes\<close>

definition parseFilterType :: "string \<Rightarrow> FilterType" where
  "parseFilterType f =
     (if f \<in> {''gaussian_blur'', ''blur''} then FILTER_TYPE_GAUSSIAN_BLUR
      else if f = ''sharpen'' then FILTER_TYPE_SHARPEN
      else if f \<in> {''edge_detect'', ''edge''} then FILTER_TYPE_EDGE_DETECT
      else if f \<in> {''grayscale'', ''gray''} then FILTER_TYPE_GRAYSCALE
      else FILTER_TYPE_GAUSSIAN_BLUR)"

definition normalizeMemoryMode_http :: "string \<Rightarrow> string" where
  "normalizeMemoryMode_http mode =
     (if to_lower mode \<in> {''heap'', ''no_arena'', ''no-arena''} then ''no_arena'' else ''arena'')"

section \<open>One frame\<close>

definition frame_chunk :: "http_env \<Rightarrow> ProcessFrameRequest \<Rightarrow> bytes \<Rightarrow> MediaType \<Rightarrow> i64 \<Rightarrow> MediaChunk" where
  "frame_chunk env req data t sid = \<lparr>mc_Data = data, mc_Type = t,
     mc_Width = word_of_int (fr_Width req), mc_Height = word_of_int (fr_Height req), mc_Codec = ''raw'',
     mc_SequenceId = sid, mc_TimestampNs = he_timestamp env,
     mc_Params = Some \<lparr>pp_Filter = parseFilterType (fr_Filter req), pp_BlurRadius = fr_BlurRadius req,
                      pp_Intensity = Fin 0\<rparr>\<rparr>"

definition nanoseconds_ms :: "i64 \<Rightarrow> fl" where
  "nanoseconds_ms ns = fl_div F64 (float64_of ns) (Fin (10 ^ 6))"

definition mismatch_error :: "int \<Rightarrow> nat \<Rightarrow> string" where
  "mismatch_error expected got =
     ''Data size mismatch: expected '' @ show_int expected @ '', got '' @ show_int (int got)"

definition frame_run :: "User \<Rightarrow> ProcessFrameRequest \<Rightarrow> ProcessFrameResponse \<Rightarrow> ProcessingRun" where
  "frame_run user req resp = \<lparr>pr_ID = 0, pr_UserID = sint (ID user), pr_MemoryMode = fp_MemoryMode resp,
     pr_FilterName = fr_Filter req, pr_Width = fr_Width req, pr_Height = fr_Height req, pr_FramesCount = 1,
     pr_Success = fp_Success resp, pr_ProcessingTimeMs = fp_ProcessingTimeMs resp,
     pr_ErrorMessage = fp_Error resp, pr_CreatedAt = 0\<rparr>"

definition count_error :: "string \<Rightarrow> gateway \<Rightarrow> gateway" where
  "count_error e g = g\<lparr>g_metrics := IncrementErrors e (g_metrics g)\<rparr>"

text \<open>The part of the handler behind the checks: route, call the processor, log the run, answer.\<close>

definition process_frame ::
  "http_env \<Rightarrow> User \<Rightarrow> ProcessFrameRequest \<Rightarrow> bytes \<Rightarrow> gateway \<Rightarrow> response \<times> gateway" where
  "process_frame env user req data g = (
     let g = g\<lparr>g_metrics := AddRequestPayloadBytes ''process_frame'' (int (length data)) (g_metrics g)\<rparr>;
         memoryMode = normalizeMemoryMode_http (fr_MemoryMode req) in
     case Get (g_pool g) of
       (Inl e, p) \<Rightarrow> (no_processors, count_error ''pool_error'' (g\<lparr>g_pool := p\<rparr>))
     | (Inr client, p) \<Rightarrow>
         let g = g\<lparr>g_pool := p\<rparr>;
             chunk = frame_chunk env req data MEDIA_TYPE_IMAGE 1 in
         (case he_call env client chunk memoryMode of
            Inl e \<Rightarrow> (http_error (''Processing error: '' @ e) 500, count_error ''processing_error'' g)
          | Inr result \<Rightarrow>
              let resp = \<lparr>fp_Data = std_encode (pc_Data result), fp_Success = pc_Success result,
                    fp_ProcessingTimeMs = nanoseconds_ms (pc_ProcessingTimeNs result),
                    fp_MemoryMode = memoryMode, fp_Error = pc_ErrorMessage result\<rparr>;
                  g = (case g_store g of
                      None \<Rightarrow> g
                    | Some db \<Rightarrow> g\<lparr>g_store := Some (snd (SaveProcessingRun (he_save_fault env) (he_db_now env)
                        (frame_run user req resp) db))\<rparr>);
                  m = IncrementProcessedFrames (RecordLatency ''process_frame'' (he_latency env) (g_metrics g))
              in (json_response 200 (FrameBody resp), g\<lparr>g_metrics := m\<rparr>)))"

definition HandleProcessFrame :: "http_env \<Rightarrow> request \<Rightarrow> gateway \<Rightarrow> response \<times> gateway" where
  "HandleProcessFrame env r g =
     (if rq_method r \<noteq> ''POST'' then (method_not_allowed, g)
      else case currentUser env g r of
        Inl resp \<Rightarrow> (resp, g)
      | Inr user \<Rightarrow>
          let g = g\<lparr>g_metrics := IncrementRequests ''process_frame'' (g_metrics g)\<rparr> in
          (case rq_frame_json r of
            None \<Rightarrow> (http_error ''Invalid request body'' 400, count_error ''invalid_request'' g)
          | Some req \<Rightarrow> (case std_decode (fr_Data req) of
              None \<Rightarrow> (http_error ''Invalid base64 data'' 400, count_error ''decode_error'' g)
            | Some data \<Rightarrow>
                let expectedSize = wrap64 (fr_Width req * fr_Height req * 3) in
                if int (length data) \<noteq> expectedSize
                then (http_error (mismatch_error expectedSize (length data)) 400, count_error ''size_mismatch'' g)
                else process_frame env user req data g)))"

section \<open>A stream of frames\<close>

text \<open>
  The goroutine that cuts the request body into frames: it reads into the first \<open>frameSize\<close> bytes of a
  pooled buffer of one 640x480 frame. \<open>Crash\<close>: the slice bounds panic, and since the goroutine
  has no recover the process dies. \<open>None\<close> of \<open>read_frames\<close>: the loop never ends, as happens for frames
  of size 0, which \<open>io.ReadFull\<close> reads without consuming anything.
\<close>

partial_function (option) read_frames :: "nat \<Rightarrow> bytes \<Rightarrow> bytes list option" where
  "read_frames frameSize input =
     (if length input < frameSize then Some []
      else do { rest \<leftarrow> read_frames frameSize (drop frameSize input); Some (take frameSize input # rest) })"

definition stream_buffer_size :: int where
  "stream_buffer_size = 640 * 480 * 3"

record stream_params =
  sp_width :: int
  sp_height :: int
  sp_filter :: string
  sp_blurRadius :: fl
  sp_memoryMode :: string

text \<open>
  The query: a malformed number counts as 0 and one out of range as the nearest bound, as
  \<open>strconv.Atoi\<close> returns them with the error the handler ignores. \<open>parse_float\<close> is what
  \<open>strconv.ParseFloat\<close> returns for 32 bits, as a \<open>float64\<close>.
\<close>

definition stream_query :: "(string \<Rightarrow> fl) \<Rightarrow> request \<Rightarrow> stream_params" where
  "stream_query parse_float r = (
     let width = fst (ParseInt (rq_query r ''width''));
         height = fst (ParseInt (rq_query r ''height''));
         blurRadius = parse_float (rq_query r ''blur_radius'')
     in \<lparr>sp_width = (if width = 0 then 640 else width), sp_height = (if height = 0 then 480 else height),
         sp_filter = rq_query r ''filter'',
         sp_blurRadius = (if blurRadius = Fin 0 then Fin 5 else blurRadius),
         sp_memoryMode = normalizeMemoryMode_http (rq_query r ''memory_mode'')\<rparr>)"

definition stream_chunk :: "http_env \<Rightarrow> stream_params \<Rightarrow> bytes \<Rightarrow> nat \<Rightarrow> MediaChunk" where
  "stream_chunk env sp data i = \<lparr>mc_Data = data, mc_Type = MEDIA_TYPE_VIDEO,
     mc_Width = word_of_int (sp_width sp), mc_Height = word_of_int (sp_height sp), mc_Codec = ''raw'',
     mc_SequenceId = word_of_nat (i + 1), mc_TimestampNs = he_timestamp env,
     mc_Params = Some \<lparr>pp_Filter = parseFilterType (sp_filter sp),
                      pp_BlurRadius = fl_conv F32 (sp_blurRadius sp), pp_Intensity = Fin 0\<rparr>\<rparr>"

datatype feed = Crash | Endless | Frames "MediaChunk list"

definition stream_feed :: "http_env \<Rightarrow> stream_params \<Rightarrow> bytes \<Rightarrow> feed" where
  "stream_feed env sp input = (
     let frameSize = wrap64 (sp_width sp * sp_height sp * 3) in
     if frameSize < 0 \<or> stream_buffer_size < frameSize then Crash
     else (case read_frames (nat frameSize) input of
       None \<Rightarrow> Endless
     | Some frames \<Rightarrow> Frames (map2 (stream_chunk env sp) frames [0..<length frames])))"

text \<open>
  The handler up to the goroutines: the response that ends it, or the client, the mode and what the
  feeder will do. The rest is the system of \<open>Stream_Client\<close>, whose final state decides the body.
\<close>

definition HandleProcessStream ::
  "http_env \<Rightarrow> (string \<Rightarrow> fl) \<Rightarrow> request \<Rightarrow> gateway \<Rightarrow> (response + ProcessorClient \<times> string \<times> feed) \<times> gateway" where
  "HandleProcessStream env parse_float r g =
     (if rq_method r \<noteq> ''POST'' then (Inl method_not_allowed, g)
      else case currentUser env g r of
        Inl resp \<Rightarrow> (Inl resp, g)
      | Inr user \<Rightarrow>
          let g = g\<lparr>g_metrics := IncrementRequests ''process_stream'' (g_metrics g)\<rparr>;
              sp = stream_query parse_float r in
          (case Get (g_pool g) of
            (Inl e, p) \<Rightarrow> (Inl no_processors, g\<lparr>g_pool := p\<rparr>)
          | (Inr client, p) \<Rightarrow>
              (Inr (client, sp_memoryMode sp, stream_feed env sp (rq_raw r)), g\<lparr>g_pool := p\<rparr>)))"

text \<open>The response and the metrics after the run that ended in the state \<open>s\<close>, with frames of size \<open>n\<close>.\<close>

definition stream_response :: "stream_state \<Rightarrow> response" where
  "stream_response s = \<lparr>status = 200, headers = [(''Content-Type'', ''application/octet-stream'')],
     auth_cookie = None, body = RawBody (concat (map pc_Data (written s)))\<rparr>"

definition stream_metrics :: "int \<Rightarrow> nat \<Rightarrow> stream_state \<Rightarrow> Metrics \<Rightarrow> Metrics" where
  "stream_metrics n fed s m = (
     let m = (AddRequestPayloadBytes ''process_stream'' n ^^ fed) m;
         m = (IncrementProcessedFrames ^^ length (written s)) m
     in case consumer s of CStopped (Some e) \<Rightarrow> IncrementErrors ''stream_error'' m | _ \<Rightarrow> m)"

section \<open>WebSocket\<close>

text \<open>One round: the message or the failure of the read, and whether writing the frame's answer fails.\<close>

datatype ws_in = WsClosed | WsMessage "ProcessFrameRequest option"

datatype ws_out = WsError string | WsFrame ProcessFrameResponse

fun ws_loop ::
  "http_env \<Rightarrow> ProcessorClient \<Rightarrow> (ws_in \<times> bool) list \<Rightarrow> Metrics \<Rightarrow> ws_out list \<times> Metrics" where
  "ws_loop env client [] m = ([], m)"
| "ws_loop env client ((WsClosed, lost) # ins) m = ([], m)"
| "ws_loop env client ((WsMessage None, lost) # ins) m =
     (case ws_loop env client ins m of (outs, m) \<Rightarrow> (WsError ''Invalid JSON'' # outs, m))"
| "ws_loop env client ((WsMessage (Some req), lost) # ins) m = (case std_decode (fr_Data req) of
     None \<Rightarrow> (case ws_loop env client ins m of (outs, m) \<Rightarrow> (WsError ''Invalid base64'' # outs, m))
   | Some data \<Rightarrow>
       let m = AddRequestPayloadBytes ''websocket'' (int (length data)) m in
       (case he_call env client (frame_chunk env req data MEDIA_TYPE_VIDEO 0)
            (normalizeMemoryMode_http (fr_MemoryMode req)) of
         Inl e \<Rightarrow> (case ws_loop env client ins m of (outs, m) \<Rightarrow> (WsError e # outs, m))
       | Inr result \<Rightarrow>
           let m = IncrementProcessedFrames m;
               resp = \<lparr>fp_Data = std_encode (pc_Data result), fp_Success = pc_Success result,
                  fp_ProcessingTimeMs = nanoseconds_ms (pc_ProcessingTimeNs result),
                  fp_MemoryMode = normalizeMemoryMode_http (fr_MemoryMode req), fp_Error = []\<rparr>
           in if lost then ([], m)
              else (case ws_loop env client ins m of (outs, m) \<Rightarrow> (WsFrame resp # outs, m))))"

text \<open>\<open>upgrade_ok\<close> is the outcome of the upgrade; the library has answered the request when it fails.\<close>

definition HandleWebSocket ::
  "http_env \<Rightarrow> bool \<Rightarrow> (ws_in \<times> bool) list \<Rightarrow> request \<Rightarrow> gateway \<Rightarrow> (response + ws_out list) \<times> gateway" where
  "HandleWebSocket env upgrade_ok ins r g =
     (let g = g\<lparr>g_metrics := IncrementRequests ''websocket'' (g_metrics g)\<rparr> in
      case currentUser env g r of
        Inl resp \<Rightarrow> (Inl resp, g)
      | Inr user \<Rightarrow>
          if \<not> upgrade_ok then (Inr [], count_error ''websocket_upgrade_error'' g)
          else (case Get (g_pool g) of
            (Inl e, p) \<Rightarrow> (Inr [WsError ''No available processors''], g\<lparr>g_pool := p\<rparr>)
          | (Inr client, p) \<Rightarrow> (case ws_loop env client ins (g_metrics g) of
              (outs, m) \<Rightarrow> (Inr outs, g\<lparr>g_pool := p, g_metrics := m\<rparr>))))"

section \<open>Health, statistics and administration\<close>

definition all_healthy :: "(string \<rightharpoonup> bool) \<Rightarrow> bool" where
  "all_healthy health \<longleftrightarrow> False \<notin> ran health"

definition HandleHealth :: "http_env \<Rightarrow> request \<Rightarrow> gateway \<Rightarrow> response \<times> gateway" where
  "HandleHealth env r g = (let health = HealthCheck (he_get_stats env) (g_pool g) in
     if all_healthy health then (json_response 200 (HealthBody ''healthy'' health), g)
     else (json_response 503 (HealthBody ''degraded'' health), g))"

definition stats_failed :: "error \<Rightarrow> response" where
  "stats_failed e = http_error (''Failed to get stats: '' @ e) 500"

definition HandleStats :: "http_env \<Rightarrow> request \<Rightarrow> gateway \<Rightarrow> response \<times> gateway" where
  "HandleStats env r g = (case currentUser env g r of
     Inl resp \<Rightarrow> (resp, g)
   | Inr user \<Rightarrow> (case Get (g_pool g) of
       (Inl e, p) \<Rightarrow> (no_processors, g\<lparr>g_pool := p\<rparr>)
     | (Inr client, p) \<Rightarrow> (case he_get_stats env client of
         Inl e \<Rightarrow> (stats_failed e, g\<lparr>g_pool := p\<rparr>)
       | Inr st \<Rightarrow> (json_response 200 (StatsBody st), g\<lparr>g_pool := p\<rparr>))))"

text \<open>The index a routing request asks for, or the text of its refusal.\<close>

definition routing_index :: "string \<Rightarrow> int option \<Rightarrow> string + int" where
  "routing_index mode sticky_index =
     (if mode = ''round_robin'' \<or> mode = [] then Inr (- 1)
      else if mode = ''fixed''
      then (case sticky_index of None \<Rightarrow> Inl ''fixed mode requires sticky_index'' | Some i \<Rightarrow> Inr i)
      else Inl ''mode must be round_robin or fixed'')"

definition HandleAdminRouting :: "http_env \<Rightarrow> request \<Rightarrow> gateway \<Rightarrow> response \<times> gateway" where
  "HandleAdminRouting env r g = (case currentUser env g r of
     Inl resp \<Rightarrow> (resp, g)
   | Inr user \<Rightarrow>
       if rq_method r = ''GET''
       then (json_response 200 (RoutingBody (if 0 \<le> GetSticky (g_pool g) then ''fixed'' else ''round_robin'')
              (GetSticky (g_pool g)) (Addrs (g_pool g)) (HealthCheck (he_get_stats env) (g_pool g))), g)
       else if rq_method r = ''POST'' then (case rq_routing_json r of
         None \<Rightarrow> (http_error ''Invalid JSON'' 400, g)
       | Some (mode, sticky_index) \<Rightarrow> (case routing_index mode sticky_index of
           Inl e \<Rightarrow> (http_error e 400, g)
         | Inr i \<Rightarrow> (case SetSticky i (g_pool g) of
             (Some e, p) \<Rightarrow> (http_error e 400, g\<lparr>g_pool := p\<rparr>)
           | (None, p) \<Rightarrow> (json_response 200 (StatusBody ''ok''), g\<lparr>g_pool := p\<rparr>))))
       else (method_not_allowed, g))"

text \<open>One row; \<open>ps_ArenaSemantics\<close> tells which of the two explanatory texts the row carries.\<close>

definition proc_stats_row :: "http_env \<Rightarrow> int \<Rightarrow> ProcessorClient \<Rightarrow> procStats" where
  "proc_stats_row env i c = (case he_get_stats env c of
     Inl e \<Rightarrow> \<lparr>ps_Index = i, ps_Addr = addr c, ps_Implementation = ''cpp'',
       ps_ArenaSemantics = contains (addr c) ''processor-cpp'', ps_Stats = None, ps_Error = e\<rparr>
   | Inr st \<Rightarrow> \<lparr>ps_Index = i, ps_Addr = addr c, ps_Implementation = ''cpp'',
       ps_ArenaSemantics = contains (addr c) ''processor-cpp'', ps_Stats = Some st, ps_Error = []\<rparr>)"

definition HandleAdminProcessorsStats :: "http_env \<Rightarrow> request \<Rightarrow> gateway \<Rightarrow> response \<times> gateway" where
  "HandleAdminProcessorsStats env r g =
     (if rq_method r \<noteq> ''GET'' then (method_not_allowed, g)
      else case currentUser env g r of
        Inl resp \<Rightarrow> (resp, g)
      | Inr user \<Rightarrow>
          (json_response 200 (ProcStatsBody (concat (map (\<lambda>i. case ClientAt (g_pool g) i of
              Inl e \<Rightarrow> [] | Inr c \<Rightarrow> [proc_stats_row env i c]) [0..Count (g_pool g) - 1]))), g))"

definition arena_cap :: i64 where
  "arena_cap = 8 * 1024 * 1024"

definition estimated_arena :: "i64 \<Rightarrow> i64" where
  "estimated_arena frames = (let e = frames * 921600 in
     if sint arena_cap < sint e then word_of_int (sint e smod sint arena_cap) else e)"

definition runtime_of :: "StatsResponse \<Rightarrow> runtime_report" where
  "runtime_of st = (
     let used = (if 0 < sint (sr_CurrentArenaSizeBytes st) then sr_CurrentArenaSizeBytes st
                 else estimated_arena (sr_TotalFramesProcessed st));
         peak = (if 0 < sint (sr_PeakArenaSizeBytes st) then sr_PeakArenaSizeBytes st else arena_cap);
         frames = sr_TotalFramesProcessed st
     in \<lparr>rt_uptime_seconds = fl_div F64 (float64_of (sr_TotalProcessingTimeNs st)) (Fin (10 ^ 9)),
         rt_arena_allocated_bytes = used, rt_arena_used_bytes = used, rt_peak_arena_bytes = peak,
         rt_total_allocations = sr_TotalArenaAllocations st, rt_total_resets = sr_TotalArenaResets st,
         rt_efficiency_percent =
           (if 0 < sint (sr_TotalArenaResets st) \<and> 0 < sint frames
            then fl_add F64 (Fin 100) (fl_neg (fl_mul F64
              (fl_div F64 (float64_of (sr_TotalArenaResets st)) (float64_of frames)) (Fin 100)))
            else Fin 100),
         rt_bytes_per_frame = 921600, rt_total_frames = frames, rt_fps = sr_FramesPerSecond st,
         rt_avg_latency_ms = average_ms (sr_TotalProcessingTimeNs st) frames,
         rt_total_time_ns = sr_TotalProcessingTimeNs st\<rparr>)"

definition HandleRuntime :: "http_env \<Rightarrow> request \<Rightarrow> gateway \<Rightarrow> response \<times> gateway" where
  "HandleRuntime env r g = (case Get (g_pool g) of
     (Inl e, p) \<Rightarrow> (no_processors, g\<lparr>g_pool := p\<rparr>)
   | (Inr client, p) \<Rightarrow> (case he_get_stats env client of
       Inl e \<Rightarrow> (stats_failed e, g\<lparr>g_pool := p\<rparr>)
     | Inr st \<Rightarrow> ((json_response 200 (RuntimeBody (runtime_of st)))\<lparr>headers :=
           [(''Content-Type'', ''application/json''), (''Access-Control-Allow-Origin'', ''*'')]\<rparr>, g\<lparr>g_pool := p\<rparr>)))"

section \<open>Pages\<close>

text \<open>\<open>http.Redirect\<close> with \<open>StatusFound\<close>; the standard library adds a link for \<open>GET\<close> requests.\<close>

definition redirect :: "request \<Rightarrow> string \<Rightarrow> response" where
  "redirect r target = \<lparr>status = 302,
     headers = (''Location'', target) #
       (if rq_method r \<in> {''GET'', ''HEAD''} then [(''Content-Type'', ''text/html; charset=utf-8'')] else []),
     auth_cookie = None,
     body = (if rq_method r = ''GET''
       then HtmlBody (''<a href='' @ [CHR 0x22] @ target @ [CHR 0x22] @ ''>Found</a>.'' @ [CHR 0x0A, CHR 0x0A]) else NoBody)\<rparr>"

definition html_response :: "string \<Rightarrow> response" where
  "html_response page = \<lparr>status = 200, headers = [(''Content-Type'', ''text/html; charset=utf-8'')],
     auth_cookie = None, body = HtmlBody page\<rparr>"

definition HandleRoot :: "http_env \<Rightarrow> request \<Rightarrow> gateway \<Rightarrow> response \<times> gateway" where
  "HandleRoot env r g =
     (if rq_path r \<noteq> ''/'' then (http_error ''404 page not found'' 404, g)
      else case userFromRequest env g r of
        Inr u \<Rightarrow> (redirect r ''/panel'', g)
      | Inl e \<Rightarrow> (redirect r ''/login'', g))"

definition HandleLoginPage :: "http_env \<Rightarrow> request \<Rightarrow> gateway \<Rightarrow> response \<times> gateway" where
  "HandleLoginPage env r g =
     (if rq_method r \<noteq> ''GET'' then (method_not_allowed, g)
      else case userFromRequest env g r of
        Inr u \<Rightarrow> (redirect r ''/panel'', g)
      | Inl e \<Rightarrow> (html_response ''login'', g))"

definition HandlePanelPage :: "string \<Rightarrow> http_env \<Rightarrow> request \<Rightarrow> gateway \<Rightarrow> response \<times> gateway" where
  "HandlePanelPage page env r g =
     (if rq_method r \<noteq> ''GET'' then (method_not_allowed, g)
      else case userFromRequest env g r of
        Inl e \<Rightarrow> (redirect r ''/login'', g)
      | Inr u \<Rightarrow> (html_response page, g))"

definition HandleLogout :: "http_env \<Rightarrow> request \<Rightarrow> gateway \<Rightarrow> response \<times> gateway" where
  "HandleLogout env r g = ((redirect r ''/login'')\<lparr>auth_cookie := Some ([], - 1)\<rparr>, g)"

end
