(* ===== verification/Gateway_Main.thy ===== *)
theory Gateway_Main
  imports Http_Handlers
begin

text \<open>
  \<open>gateway/cmd/server/main.go\<close>: start-up (addresses, pool, store with retries, token manager, rate
  limiter), the routing table, and the chain CORS, logging, rate limiting, routes around every request.
\<close>

section \<open>Routes\<close>

text \<open>
  What a request leads to: a response; for \<open>/api/stream\<close> and \<open>/ws\<close> the start of the exchange that
  \<open>Stream_Client\<close> and \<open>ws_loop\<close> describe; or a panic of the handler, which \<open>net/http\<close> recovers by
  dropping the connection.
\<close>

datatype outcome =
    Done response
  | Streaming ProcessorClient string feed
  | Socket "ws_out list"
  | Panicked

record main_env =
  me_http :: http_env
  me_parse_float :: "string \<Rightarrow> fl"
  me_upgrade_ok :: bool
  me_messages :: "(ws_in \<times> bool) list"

definition answered :: "response \<times> gateway \<Rightarrow> outcome \<times> gateway" where
  "answered rg = (case rg of (resp, g) \<Rightarrow> (Done resp, g))"

definition answered_or_panic :: "gateway \<Rightarrow> (response \<times> gateway) option \<Rightarrow> outcome \<times> gateway" where
  "answered_or_panic g rg = (case rg of None \<Rightarrow> (Panicked, g) | Some (resp, g) \<Rightarrow> (Done resp, g))"

text \<open>The Prometheus handler reads the registry only.\<close>

definition metrics_page :: response where
  "metrics_page = \<lparr>status = 200, headers = [(''Content-Type'', ''text/plain; version=0.0.4'')],
     auth_cookie = None, body = NoBody\<rparr>"

text \<open>
  The routing table. All patterns but the last are exact paths; \<open>/\<close> takes every other path. Paths that are not
  clean (with \<open>//\<close>, \<open>.\<close> or \<open>..\<close> in them) are redirected by \<open>net/http\<close> before any of this and are not modelled.
\<close>

definition mux :: "main_env \<Rightarrow> request \<Rightarrow> gateway \<Rightarrow> outcome \<times> gateway" where
  "mux me r g = (let env = me_http me; path = rq_path r in
     if path = ''/api/register'' then answered_or_panic g (HandleRegister env r g)
     else if path = ''/api/login'' then answered_or_panic g (HandleLogin env r g)
     else if path = ''/api/me'' then answered (HandleMe env r g)
     else if path = ''/api/history'' then answered (HandleHistory env r g)
     else if path = ''/api/process'' \<or> path = ''/process'' then answered (HandleProcessFrame env r g)
     else if path = ''/api/stream'' then (case HandleProcessStream env (me_parse_float me) r g of
         (Inl resp, g) \<Rightarrow> (Done resp, g)
       | (Inr (client, mode, fd), g) \<Rightarrow> (Streaming client mode fd, g))
     else if path = ''/ws'' then (case HandleWebSocket env (me_upgrade_ok me) (me_messages me) r g of
         (Inl resp, g) \<Rightarrow> (Done resp, g)
       | (Inr outs, g) \<Rightarrow> (Socket outs, g))
     else if path = ''/health'' then answered (HandleHealth env r g)
     else if path = ''/stats'' then answered (HandleStats env r g)
     else if path = ''/runtime'' then answered (HandleRuntime env r g)
     else if path = ''/api/admin/routing'' then answered (HandleAdminRouting env r g)
     else if path = ''/api/admin/processors/stats'' then answered (HandleAdminProcessorsStats env r g)
     else if path = ''/metrics'' then (Done metrics_page, g)
     else if path = ''/login'' then answered (HandleLoginPage env r g)
     else if path = ''/logout'' then answered (HandleLogout env r g)
     else if path = ''/panel'' then answered (HandlePanelPage ''panel'' env r g)
     else if path = ''/app'' then answered (HandlePanelPage ''app'' env r g)
     else answered (HandleRoot env r g))"

section \<open>Middleware\<close>

record server_state =
  ss_limiter :: RateLimiter
  ss_gateway :: gateway
  ss_log :: "(string \<times> string) list"

definition rate_limited :: response where
  "rate_limited = http_error ''Rate limit exceeded'' 429"

definition limited :: "main_env \<Rightarrow> request \<Rightarrow> server_state \<Rightarrow> outcome \<times> server_state" where
  "limited me r s = (case limit_middleware rq_path (Done rate_limited) (mux me) r (ss_limiter s, ss_gateway s) of
     (out, rl, g) \<Rightarrow> (out, s\<lparr>ss_limiter := rl, ss_gateway := g\<rparr>))"

definition loggingMiddleware ::
  "(request \<Rightarrow> server_state \<Rightarrow> outcome \<times> server_state) \<Rightarrow> request \<Rightarrow> server_state \<Rightarrow> outcome \<times> server_state" where
  "loggingMiddleware nxt r s = (case nxt r s of
     (Panicked, s) \<Rightarrow> (Panicked, s)
   | (out, s) \<Rightarrow> (out, s\<lparr>ss_log := ss_log s @ [(rq_method r, rq_path r)]\<rparr>))"

definition cors_headers :: "(string \<times> string) list" where
  "cors_headers = [(''Access-Control-Allow-Origin'', ''*''), (''Access-Control-Allow-Methods'', ''GET, POST, OPTIONS''),
     (''Access-Control-Allow-Headers'', ''Content-Type, Authorization'')]"

text \<open>The headers set before the inner handler runs; a later \<open>Set\<close> of the same name replaces the value.\<close>

definition with_cors :: "response \<Rightarrow> response" where
  "with_cors resp = resp\<lparr>headers :=
     filter (\<lambda>(k, v). k \<notin> fst ` set (headers resp)) cors_headers @ headers resp\<rparr>"

definition corsMiddleware ::
  "(request \<Rightarrow> server_state \<Rightarrow> outcome \<times> server_state) \<Rightarrow> request \<Rightarrow> server_state \<Rightarrow> outcome \<times> server_state" where
  "corsMiddleware nxt r s =
     (if rq_method r = ''OPTIONS''
      then (Done \<lparr>status = 200, headers = cors_headers, auth_cookie = None, body = NoBody\<rparr>, s)
      else case nxt r s of
        (Done resp, s) \<Rightarrow> (Done (with_cors resp), s)
      | (out, s) \<Rightarrow> (out, s))"

definition finalHandler :: "main_env \<Rightarrow> request \<Rightarrow> server_state \<Rightarrow> outcome \<times> server_state" where
  "finalHandler me = corsMiddleware (loggingMiddleware (limited me))"

section \<open>Start-up\<close>

definition is_space :: "char \<Rightarrow> bool" where
  "is_space c \<longleftrightarrow> (of_char c :: nat) \<in> {9, 10, 11, 12, 13, 32}"

definition trim_space :: "string \<Rightarrow> string" where
  "trim_space s = rev (dropWhile is_space (rev (dropWhile is_space s)))"

definition processor_addresses :: "string \<Rightarrow> string list" where
  "processor_addresses s = map trim_space (split_on CHR '','' s)"

text \<open>
  \<open>attempt i\<close> is what the \<open>i\<close>-th \<open>Open\<close> returns. The result is the first success, or the last error;
  \<open>Inl None\<close> is the pair of two nil values that the loop returns without any attempt. The second
  component counts the pauses.
\<close>

fun retry_loop :: "(nat \<Rightarrow> string + 'db) \<Rightarrow> nat \<Rightarrow> nat \<Rightarrow> string option \<Rightarrow> (string option + 'db) \<times> nat" where
  "retry_loop attempt i 0 lastErr = (Inl lastErr, i)"
| "retry_loop attempt i (Suc k) lastErr = (case attempt i of
     Inr db \<Rightarrow> (Inr db, i)
   | Inl e \<Rightarrow> retry_loop attempt (Suc i) k (Some e))"

definition openStoreWithRetry :: "(nat \<Rightarrow> string + 'db) \<Rightarrow> nat \<Rightarrow> (string option + 'db) \<times> nat" where
  "openStoreWithRetry attempt attempts = retry_loop attempt 0 attempts None"

record config =
  cf_processors :: string
  cf_env_processors :: string
  cf_rate_limit :: int
  cf_database_url :: string
  cf_auth_secret :: string

text \<open>\<open>None\<close>: the process ends (\<open>log.Fatalf\<close>, or the panic of the limiter's goroutine).\<close>

definition open_store :: "(nat \<Rightarrow> string + database) \<Rightarrow> string option \<Rightarrow> config \<Rightarrow> database option option" where
  "open_store attempt migrate_fault cf =
     (if cf_database_url cf = [] then Some None
      else case fst (openStoreWithRetry attempt 12) of
        Inl e \<Rightarrow> None
      | Inr db \<Rightarrow> (case Migrate migrate_fault db of (Some e, db) \<Rightarrow> None | (None, db) \<Rightarrow> Some (Some db)))"

definition gateway_start ::
  "(string \<Rightarrow> error + nat) \<Rightarrow> (nat \<Rightarrow> string + database) \<Rightarrow> string option \<Rightarrow> config \<Rightarrow> server_state option" where
  "gateway_start dial attempt migrate_fault cf = (
     let as = processor_addresses (if cf_env_processors cf \<noteq> [] then cf_env_processors cf else cf_processors cf) in
     case fst (NewProcessorPool dial as) of
       Inl e \<Rightarrow> None
     | Inr pool \<Rightarrow> do {
         store \<leftarrow> open_store attempt migrate_fault cf;
         limiter \<leftarrow> NewRateLimiter (cf_rate_limit cf);
         Some \<lparr>ss_limiter = limiter,
           ss_gateway = \<lparr>g_pool = pool, g_metrics = SetProcessorPoolSize (int (length as)) NewMetrics, g_store = store,
             g_tokens = Some (NewTokenManager (cf_auth_secret cf) (24 * 3600 * 10 ^ 9))\<rparr>,
           ss_log = []\<rparr> })"

end
