(* ===== verification/Handler_Facts.thy ===== *)
theory Handler_Facts
  imports Http_Handlers
begin

text \<open>
  What the handlers of \<open>Http_Handlers\<close> guarantee: the authentication gate, the effect of each handler
  on the counters and the store, the frames a stream request is cut into, and the answers built on
  the contract of a processor.
\<close>

section \<open>Authentication\<close>

lemma currentUser_Inl: "currentUser env g r = Inl resp \<Longrightarrow> status resp = 401"
  by (auto simp: currentUser_def http_error_def split: sum.splits)

lemma currentUser_Inr: "currentUser env g r = Inr u \<longleftrightarrow> userFromRequest env g r = Inr u"
  by (simp add: currentUser_def split: sum.splits)

lemma currentUser_tokens: "g_tokens g' = g_tokens g \<Longrightarrow> currentUser env g' r = currentUser env g r"
  by (simp add: currentUser_def userFromRequest_def)

text \<open>A token presented in the header.\<close>

definition bearer :: "string \<Rightarrow> request \<Rightarrow> request" where
  "bearer token r = r\<lparr>rq_authorization := ''Bearer '' @ token\<rparr>"

lemma extract_bearer [simp]: "extractToken (bearer token r) = token"
  by (simp add: extractToken_def bearer_def trim_prefix_def)

section \<open>Names\<close>

lemma normalizeMemoryMode_idem:
  "normalizeMemoryMode_grpc (normalizeMemoryMode_http m) = normalizeMemoryMode_http m"
  "normalizeMemoryMode_db (normalizeMemoryMode_http m) = normalizeMemoryMode_http m"
  by (simp_all add: normalizeMemoryMode_http_def normalizeMemoryMode_grpc_def normalizeMemoryMode_db_def)

section \<open>One frame\<close>

lemma sint_word_i32: "- (2 ^ 31) \<le> n \<Longrightarrow> n < 2 ^ 31 \<Longrightarrow> sint (word_of_int n :: i32) = n"
  by (simp add: sint_sbintrunc' signed_take_bit_int_eq_self)

text \<open>A positive size that fits 62 bits leaves only dimensions that survive the conversion to \<open>int32\<close>.\<close>

lemma frame_chunk_valid:
  assumes "t \<in> {MEDIA_TYPE_VIDEO, MEDIA_TYPE_IMAGE}" "in_i32 (fr_Width req)" "in_i32 (fr_Height req)"
    and "int (length data) = fr_Width req * fr_Height req * 3"
  shows "valid_chunk (frame_chunk env req data t sid)"
  using assms by (simp add: valid_chunk_def frame_chunk_def in_i32_def sint_word_i32)

lemma Get_Inr:
  assumes "clients p \<noteq> []" "length (clients p) < 2 ^ 64"
  shows "\<exists>c p'. Get p = (Inr c, p') \<and> c \<in> set (clients p)"
proof -
  have "unat (word_of_nat (length (clients p)) :: 64 word) = length (clients p)"
    using assms(2) by (simp add: unsigned_of_nat take_bit_nat_eq_self)
  then have "unat (n mod word_of_nat (length (clients p)) :: 64 word) < length (clients p)" for n
    using assms(1) by (simp add: unat_mod_distrib)
  then show ?thesis using assms(1) by (auto simp: Get_def Let_def intro!: nth_mem)
qed

text \<open>
  The client side of the interface: with a processor that keeps the contract, what the browser
  decodes from the answer is a frame of the size it sent.
\<close>

context processor_service
begin

lemma process_frame_answer:
  assumes "he_call env = (\<lambda>_. call)" "sized (frame_chunk env req data MEDIA_TYPE_IMAGE 1)"
    and "process_frame env user req data g = (resp, g')" "status resp = 200"
  shows "\<exists>r fp. call (frame_chunk env req data MEDIA_TYPE_IMAGE 1) (normalizeMemoryMode_http (fr_MemoryMode req)) = Inr r \<and>
    body resp = FrameBody fp \<and> fp_Success fp = pc_Success r \<and> std_decode (fp_Data fp) = Some (pc_Data r) \<and>
    length (pc_Data r) = (if fp_Success fp then length data else 0) \<and> (fp_Error fp = [] \<longrightarrow> pc_ErrorMessage r = [])"
proof -
  let ?c = "frame_chunk env req data MEDIA_TYPE_IMAGE 1"
  let ?m = "normalizeMemoryMode_http (fr_MemoryMode req)"
  obtain r where r: "call ?c ?m = Inr r"
    using assms(1,3,4) by (auto simp: process_frame_def Let_def no_processors_def http_error_def
        split: prod.splits sum.splits)
  have "\<exists>fp. body resp = FrameBody fp \<and> fp_Success fp = pc_Success r \<and> fp_Data fp = std_encode (pc_Data r) \<and>
      fp_Error fp = pc_ErrorMessage r"
    using assms(1,3,4) r by (auto simp: process_frame_def Let_def no_processors_def http_error_def json_response_def
        split: prod.splits sum.splits)
  moreover have "length (mc_Data ?c) = length data" by (simp add: frame_chunk_def)
  ultimately show ?thesis
    using r reply_length [OF assms(2) r] b64std.dec_enc by auto
qed

end

section \<open>Cutting a body into frames\<close>

lemma read_frames_pos:
  assumes "0 < n"
  shows "\<exists>fs. read_frames n input = Some fs \<and> length fs = length input div n \<and> (\<forall>f \<in> set fs. length f = n) \<and>
    concat fs = take (n * (length input div n)) input"
proof (induction "length input" arbitrary: input rule: less_induct)
  case less
  show ?case
  proof (cases "length input < n")
    case True
    then show ?thesis by (subst read_frames.simps) simp
  next
    case False
    then have "length (drop n input) < length input" using assms by simp
    from less [OF this] obtain fs where fs: "read_frames n (drop n input) = Some fs"
      "length fs = (length input - n) div n" "\<forall>f \<in> set fs. length f = n"
      "concat fs = take (n * ((length input - n) div n)) (drop n input)"
      by auto
    have div: "length input div n = Suc ((length input - n) div n)"
      using False assms by (simp add: le_div_geq)
    have "take n input @ concat fs = take (n * (length input div n)) input"
      unfolding fs(4) div by (simp add: take_add)
    then show ?thesis
      using False fs(1-3) div by (subst read_frames.simps) simp
  qed
qed

lemma read_frames_zero: "read_frames 0 input = None"
proof (cases "read_frames 0 input")
  case (Some fs)
  have eq: "read_frames 0 input = do { rest \<leftarrow> read_frames 0 input; Some ([] # rest) }"
    by (subst read_frames.simps) simp
  have "Some fs = Some ([] # fs)" using eq unfolding Some by simp
  then show ?thesis by simp
qed

lemma factor_bound:
  fixes w h :: int
  assumes "0 < w * h * 3" "w * h * 3 \<le> b"
  shows "\<bar>w\<bar> \<le> b" "\<bar>h\<bar> \<le> b"
proof -
  have *: "\<bar>x\<bar> \<le> \<bar>x * y\<bar>" if "x * y \<noteq> 0" for x y :: int
  proof -
    have "0 < \<bar>y\<bar>" using that by simp
    then have "1 \<le> \<bar>y\<bar>" by linarith
    then show ?thesis using mult_left_mono [of 1 "\<bar>y\<bar>" "\<bar>x\<bar>"] by (simp add: abs_mult)
  qed
  have "w * h \<noteq> 0" "\<bar>w * h\<bar> \<le> b" using assms by linarith+
  then show "\<bar>w\<bar> \<le> b" "\<bar>h\<bar> \<le> b" using * [of w h] * [of h w] by (simp_all add: mult.commute)
qed

lemma in_i64_buffer: "0 \<le> x \<Longrightarrow> x \<le> stream_buffer_size \<Longrightarrow> in_i64 x"
  by (simp add: in_i64_def stream_buffer_size_def)

text \<open>The frames of a stream request whose frame fits the buffer.\<close>

lemma stream_feed_fits:
  assumes "0 < sp_width sp * sp_height sp * 3" "sp_width sp * sp_height sp * 3 \<le> stream_buffer_size"
  defines "n \<equiv> nat (sp_width sp * sp_height sp * 3)"
  shows "\<exists>cs. stream_feed env sp input = Frames cs \<and> length cs = length input div n \<and>
    concat (map mc_Data cs) = take (n * (length input div n)) input \<and>
    (\<forall>c \<in> set cs. valid_chunk c \<and> sized c \<and> length (mc_Data c) = n) \<and>
    map mc_SequenceId cs = map word_of_nat [1..<length cs + 1]"
proof -
  let ?p = "sp_width sp * sp_height sp * 3"
  have n: "0 < n" "int n = ?p" using assms(1) by (simp_all add: n_def)
  have "int n \<le> 921600" using n(2) assms(2) by (simp add: stream_buffer_size_def)
  then have n62: "n < 2 ^ 62" by simp
  have dims: "sint (word_of_int (sp_width sp) :: i32) = sp_width sp" "sint (word_of_int (sp_height sp) :: i32) = sp_height sp"
    using factor_bound [OF assms(1,2)] by (intro sint_word_i32; simp add: stream_buffer_size_def)+
  have wrap: "wrap64 ?p = ?p" 
    using assms(1,2) by (intro wrap64_id in_i64_buffer) simp_all
  obtain fs where fs: "read_frames n input = Some fs" "length fs = length input div n"
    "\<forall>f \<in> set fs. length f = n" "concat fs = take (n * (length input div n)) input"
    using read_frames_pos [OF n(1), of input] by auto
  let ?cs = "map2 (stream_chunk env sp) fs [0..<length fs]"
  have feed: "stream_feed env sp input = Frames ?cs"
    using assms(1,2) fs(1) unfolding stream_feed_def wrap by (simp add: Let_def n_def)
  have data: "map mc_Data ?cs = fs"
    by (rule nth_equalityI) (simp_all add: stream_chunk_def)
  have "valid_chunk c \<and> sized c \<and> length (mc_Data c) = n" if mem: "c \<in> set ?cs" for c
  proof -
    obtain f i where p: "(f, i) \<in> set (zip fs [0..<length fs])" and c: "c = stream_chunk env sp f i"
      using mem by auto
    have "f \<in> set fs" using p by (rule set_zip_leftD)
    then show ?thesis using c fs(3) n(2) n62 dims by (simp add: stream_chunk_def valid_chunk_def sized_def)
  qed
  moreover have "map mc_SequenceId ?cs = map word_of_nat [1..<length ?cs + 1]"
    by (rule nth_equalityI) (simp_all add: stream_chunk_def del: upt_Suc)
  moreover have "length ?cs = length input div n" "concat (map mc_Data ?cs) = take (n * (length input div n)) input"
    unfolding data fs(4) using fs(2) by simp_all
  ultimately show ?thesis using feed by blast
qed

section \<open>A frame through the Go processor\<close>

definition faultless :: "transport \<Rightarrow> bool" where
  "faultless tr \<longleftrightarrow> open_error tr = None \<and> send_error tr = None \<and> close_error tr = None \<and> recv_error tr = None"

lemma go_call_faultless:
  assumes "faultless tr" "sized c"
  shows "go_call tr mexp env past c m = Inr (chunk_reply mexp env c)"
  using assms go_serve_spec [OF server_after_inv, of "[c]" mexp env mexp past env "normalizeMemoryMode_grpc m"]
  by (simp add: go_call_def ProcessSingleChunk_def recv_first_def faultless_def Let_def)

text \<open>A request with a frame of the announced size, and the answer to it.\<close>

definition frame_request :: "request \<Rightarrow> ProcessFrameRequest \<Rightarrow> bytes \<Rightarrow> bool" where
  "frame_request r req data \<longleftrightarrow> rq_method r = ''POST'' \<and> rq_frame_json r = Some req \<and>
     std_decode (fr_Data req) = Some data \<and> length data < 2 ^ 62 \<and>
     in_i32 (fr_Width req) \<and> in_i32 (fr_Height req) \<and>
     int (length data) = fr_Width req * fr_Height req * 3"

lemma HandleProcessFrame_ok:
  assumes "currentUser env g r = Inr u" "frame_request r req data"
    and "clients (g_pool g) \<noteq> []" "length (clients (g_pool g)) < 2 ^ 64"
    and "he_call env = (\<lambda>_. go_call tr mexp penv past)" "faultless tr"
  shows "\<exists>g' fp. HandleProcessFrame env r g = (json_response 200 (FrameBody fp), g') \<and> fp_Success fp \<and> fp_Error fp = [] \<and>
    std_decode (fp_Data fp) = chunk_frame mexp (frame_chunk env req data MEDIA_TYPE_IMAGE 1) \<and>
    fp_MemoryMode fp = normalizeMemoryMode_http (fr_MemoryMode req) \<and>
    fp_ProcessingTimeMs fp = nanoseconds_ms (elapsed_ns penv)"
proof -
  let ?c = "frame_chunk env req data MEDIA_TYPE_IMAGE 1"
  have sized: "sized ?c" using assms(2) by (simp add: frame_request_def sized_def frame_chunk_def)
  have valid: "valid_chunk ?c" using assms(2) by (intro frame_chunk_valid) (simp_all add: frame_request_def)
  obtain out where out: "chunk_frame mexp ?c = Some out"
    using chosen.total [OF valid_chunk_fits [OF valid sized], of mexp "chunk_params (mc_Params ?c)"]
    by (auto simp: chunk_frame_def)
  obtain c p where get: "Get (g_pool g) = (Inr c, p)" using Get_Inr [OF assms(3,4)] by blast
  have wrap: "wrap64 (fr_Width req * fr_Height req * 3) = int (length data)"
    using assms(2) by (auto simp: frame_request_def in_i64_def intro!: wrap64_id)
  have call: "he_call env c ?c m = Inr (chunk_reply mexp penv ?c)" for m
    using go_call_faultless [OF assms(6) sized] assms(5) by simp
  have time: "pc_ProcessingTimeNs (chunk_reply mexp penv ?c) = elapsed_ns penv"
    using valid by (auto simp: chunk_reply_def Let_def valid_chunk_def)
  have msg: "pc_ErrorMessage (chunk_reply mexp penv ?c) = []" using valid by (simp add: chunk_reply_facts)
  let ?fp = "\<lparr>fp_Data = std_encode out, fp_Success = True, fp_ProcessingTimeMs = nanoseconds_ms (elapsed_ns penv),
      fp_MemoryMode = normalizeMemoryMode_http (fr_MemoryMode req), fp_Error = []\<rparr>"
  have "\<exists>g'. HandleProcessFrame env r g = (json_response 200 (FrameBody ?fp), g')"
    using assms(1,2) get wrap call time valid out msg
    by (simp add: HandleProcessFrame_def frame_request_def process_frame_def chunk_reply_facts(2,3) Let_def)
  then obtain g' where "HandleProcessFrame env r g = (json_response 200 (FrameBody ?fp), g')" by blast
  then show ?thesis
    using out b64std.dec_enc [of out] by (intro exI [of _ g'] exI [of _ ?fp]) simp
qed

section \<open>WebSocket\<close>

text \<open>The answer to one message, independent of the messages around it.\<close>

definition ws_reply :: "http_env \<Rightarrow> ProcessorClient \<Rightarrow> ws_in \<Rightarrow> ws_out" where
  "ws_reply env client i = (case i of
     WsMessage (Some req) \<Rightarrow> (case std_decode (fr_Data req) of
       None \<Rightarrow> WsError ''Invalid base64''
     | Some data \<Rightarrow> (case he_call env client (frame_chunk env req data MEDIA_TYPE_VIDEO 0)
           (normalizeMemoryMode_http (fr_MemoryMode req)) of
         Inl e \<Rightarrow> WsError e
       | Inr r \<Rightarrow> WsFrame \<lparr>fp_Data = std_encode (pc_Data r), fp_Success = pc_Success r,
           fp_ProcessingTimeMs = nanoseconds_ms (pc_ProcessingTimeNs r),
           fp_MemoryMode = normalizeMemoryMode_http (fr_MemoryMode req), fp_Error = []\<rparr>))
   | _ \<Rightarrow> WsError ''Invalid JSON'')"

definition is_frame :: "ws_out \<Rightarrow> bool" where
  "is_frame out \<longleftrightarrow> (case out of WsFrame fp \<Rightarrow> True | WsError e \<Rightarrow> False)"

lemma ws_loop_step:
  assumes "i \<noteq> WsClosed"
  shows "\<exists>m1. ws_loop env client ((i, False) # ins) m = (case ws_loop env client ins m1 of
       (outs, m') \<Rightarrow> (ws_reply env client i # outs, m')) \<and>
     framesProcessedTotal m1 = framesProcessedTotal m + (if is_frame (ws_reply env client i) then 1 else 0)"
proof (cases i)
  case WsClosed
  then show ?thesis using assms by simp
next
  case (WsMessage msg)
  show ?thesis
  proof (cases msg)
    case None
    then show ?thesis by (intro exI [of _ m]) (simp add: WsMessage ws_reply_def is_frame_def)
  next
    case msg: (Some req)
    show ?thesis
    proof (cases "std_decode (fr_Data req)")
      case None
      then show ?thesis by (intro exI [of _ m]) (simp add: WsMessage msg ws_reply_def is_frame_def)
    next
      case data: (Some data)
      let ?m = "AddRequestPayloadBytes ''websocket'' (int (length data)) m"
      show ?thesis
      proof (cases "he_call env client (frame_chunk env req data MEDIA_TYPE_VIDEO 0) (normalizeMemoryMode_http (fr_MemoryMode req))")
        case (Inl e)
        then show ?thesis
          by (intro exI [of _ ?m]) (simp add: WsMessage msg data ws_reply_def is_frame_def metrics_defs Let_def)
      next
        case (Inr r)
        then show ?thesis
          by (intro exI [of _ "IncrementProcessedFrames ?m"])
            (simp add: WsMessage msg data ws_reply_def is_frame_def metrics_defs Let_def)
      qed
    qed
  qed
qed

lemma ws_loop_replies:
  "list_all (\<lambda>(i, lost). i \<noteq> WsClosed \<and> \<not> lost) ins \<Longrightarrow> ws_loop env client ins m = (outs, m') \<Longrightarrow>
   outs = map (ws_reply env client \<circ> fst) ins \<and>
   framesProcessedTotal m' = framesProcessedTotal m + length (filter is_frame outs)"
proof (induction ins arbitrary: m outs)
  case Nil
  then show ?case by simp
next
  case (Cons x ins)
  obtain i where x: "x = (i, False)" "i \<noteq> WsClosed" using Cons.prems(1) by (cases x) auto
  obtain m1 where step: "ws_loop env client ((i, False) # ins) m = (case ws_loop env client ins m1 of
       (outs, m') \<Rightarrow> (ws_reply env client i # outs, m'))"
     "framesProcessedTotal m1 = framesProcessedTotal m + (if is_frame (ws_reply env client i) then 1 else 0)"
    using ws_loop_step [OF x(2)] by blast
  obtain outs1 where rest: "ws_loop env client ins m1 = (outs1, m')" "outs = ws_reply env client i # outs1"
    using Cons.prems(2) unfolding x(1) step(1) by (auto split: prod.splits)
  from Cons.IH [OF _ rest(1)] Cons.prems(1) show ?case using step(2) rest(2) x by auto
qed

section \<open>Sample data\<close>

definition sample_client :: ProcessorClient where
  "sample_client = \<lparr>conn = 0, addr = ''processor-go:9090''\<rparr>"

definition sample_manager :: TokenManager where
  "sample_manager = NewTokenManager ''secret'' 86400000000000"

definition sample_user :: User where
  "sample_user = \<lparr>ID = 1, Username = ''ann''\<rparr>"

definition sample_gateway :: gateway where
  "sample_gateway = \<lparr>g_pool = fresh_pool (\<lambda>_. 0) [''processor-go:9090''], g_metrics = NewMetrics,
     g_store = Some (snd (Migrate None empty_database)), g_tokens = Some sample_manager\<rparr>"

definition sample_transport :: transport where
  "sample_transport = \<lparr>open_error = None, send_error = None, close_error = None, recv_error = None\<rparr>"

definition sample_http_env :: http_env where
  "sample_http_env = \<lparr>he_now = 0, he_cookie_now = 0, he_latency = 2000000, he_timestamp = 0, he_salt = Inr [1, 2, 3],
     he_db_now = 5, he_user_fault = None, he_save_fault = None,
     he_call = (\<lambda>_. go_call sample_transport sample_exp sample_env []), he_get_stats = (\<lambda>_. Inl ''down'')\<rparr>"

definition sample_request :: request where
  "sample_request = \<lparr>rq_method = ''POST'', rq_path = ''/api/process'', rq_authorization = [], rq_cookie = None,
     rq_query = (\<lambda>_. []), rq_auth_json = Some (''ann'', ''pw''), rq_frame_json = None, rq_routing_json = None,
     rq_raw = []\<rparr>"

definition sample_token :: string where
  "sample_token = fst (Issue sample_manager 0 sample_user)"

lemma Issue_verifies:
  assumes "CHR '':'' \<notin> set (Username user)" "in_i64 (unix (now + sint (ttl m)))"
    and "unix later \<le> unix (now + sint (ttl m))"
  shows "Verify m later (fst (Issue m now user)) = Inr user"
  using Verify_signed [OF Issue_signed_parts [OF assms(1)], of m later now] assms(2,3)
  by (simp add: ParseInt_show_int sint_i64_in)

lemma Issue_nonempty: "fst (Issue m now user) \<noteq> []"
  by (simp add: Issue_def Let_def rawurl_nonempty string_bytes_def)

lemma sample_currentUser:
  "currentUser sample_http_env sample_gateway (bearer sample_token r) = Inr sample_user"
proof -
  have "Verify sample_manager 0 sample_token = Inr sample_user"
    unfolding sample_token_def
    by (rule Issue_verifies) (simp_all add: sample_user_def sample_manager_def NewTokenManager_def unix_def in_i64_def)
  moreover have "sample_token \<noteq> []" by (simp add: sample_token_def Issue_nonempty)
  ultimately show ?thesis
    by (simp add: currentUser_Inr userFromRequest_def sample_gateway_def sample_http_env_def Let_def)
qed

lemma sample_register:
  "\<exists>resp g'. HandleRegister sample_http_env sample_request sample_gateway = Some (resp, g') \<and> status resp = 200"
  by (simp add: HandleRegister_def sample_request_def sample_gateway_def sample_http_env_def CreateUser_def
      HashPassword_def statement_error_def insert_user_def Migrate_def empty_database_def writeToken_def
      json_response_def Let_def split: prod.splits)

lemma sample_clients: "clients (g_pool sample_gateway) \<noteq> []" "length (clients (g_pool sample_gateway)) < 2 ^ 64"
  by (simp_all add: sample_gateway_def fresh_pool_def)

section \<open>Properties\<close>



text \<open>
  C36. A frame that does not fit the gateway's buffer kills it: for an authenticated stream request
  whose query announces frames of negative size, or larger than one of 640x480, the feeder goroutine
  panics on the slice bounds, whatever the body holds.
\<close>

theorem HandleProcessStream_crash:
  assumes "rq_method r = ''POST''" and "currentUser env g r = Inr u"
    and "clients (g_pool g) \<noteq> []" and "length (clients (g_pool g)) < 2 ^ 64"
    and "rq_query r ''width'' = show_int w" and "rq_query r ''height'' = show_int h"
    and "in_i64 w" and "in_i64 h" and "in_i64 (w * h * 3)"
    and "w * h * 3 < 0 \<or> stream_buffer_size < w * h * 3"
  shows "\<exists>client mode g'. HandleProcessStream env pf r g = (Inr (client, mode, Crash), g')"
proof -
  obtain c p where get: "Get (g_pool g) = (Inr c, p)" using Get_Inr [OF assms(3,4)] by blast
  have "w \<noteq> 0" "h \<noteq> 0" using assms(10) by (auto simp: stream_buffer_size_def)
  then have "sp_width (stream_query pf r) = w" "sp_height (stream_query pf r) = h"
    using assms(5-8) by (simp_all add: stream_query_def Let_def ParseInt_show_int)
  then have "stream_feed env (stream_query pf r) (rq_raw r) = Crash"
    using assms(9,10) by (simp add: stream_feed_def Let_def wrap64_id)
  then show ?thesis
    using assms(1,2) get by (simp add: HandleProcessStream_def Let_def)
qed

theorem HandleProcessStream_crash_witness:
  "\<exists>client mode g'. HandleProcessStream sample_http_env (\<lambda>_. Fin 5)
     (bearer sample_token (sample_request\<lparr>rq_query := (\<lambda>k. if k = ''width'' then show_int 1920 else show_int 1080)\<rparr>)) sample_gateway =
       (Inr (client, mode, Crash), g')"
proof (rule HandleProcessStream_crash [OF _ sample_currentUser sample_clients, where w = 1920 and h = 1080])
  show "in_i64 1920" "in_i64 1080" "in_i64 (1920 * 1080 * 3)" by (simp_all add: in_i64_def)
  show "1920 * 1080 * 3 < (0 :: int) \<or> stream_buffer_size < 1920 * 1080 * 3" by (simp add: stream_buffer_size_def)
qed (simp_all add: sample_request_def bearer_def)

text \<open>
  A stream request whose frames fit: the body is cut into consecutive frames of
  \<open>width * height * 3\<close> bytes, a last partial frame is dropped, and each chunk is one the processor
  accepts, numbered 1, 2, ... in order.
\<close>

theorem HandleProcessStream_frames:
  assumes "rq_method r = ''POST''" and "currentUser env g r = Inr u"
    and "clients (g_pool g) \<noteq> []" and "length (clients (g_pool g)) < 2 ^ 64"
    and "rq_query r ''width'' = show_int w" and "rq_query r ''height'' = show_int h"
    and "in_i64 w" and "in_i64 h" and "0 < w * h * 3" and "w * h * 3 \<le> stream_buffer_size"
    and "n = nat (w * h * 3)"
  shows "\<exists>client mode cs g'. HandleProcessStream env pf r g = (Inr (client, mode, Frames cs), g') \<and>
    client \<in> set (clients (g_pool g)) \<and> length cs = length (rq_raw r) div n \<and>
    concat (map mc_Data cs) = take (n * (length (rq_raw r) div n)) (rq_raw r) \<and>
    (\<forall>c \<in> set cs. valid_chunk c \<and> length (mc_Data c) = n) \<and>
    map mc_SequenceId cs = map word_of_nat [1..<length cs + 1]"
proof -
  obtain c p where get: "Get (g_pool g) = (Inr c, p)" "c \<in> set (clients (g_pool g))"
    using Get_Inr [OF assms(3,4)] by blast
  have "w \<noteq> 0" "h \<noteq> 0" using assms(9) by auto
  then have sp: "sp_width (stream_query pf r) = w" "sp_height (stream_query pf r) = h"
    using assms(5-8) by (simp_all add: stream_query_def Let_def ParseInt_show_int)
  obtain cs where feed: "stream_feed env (stream_query pf r) (rq_raw r) = Frames cs"
    and cs: "length cs = length (rq_raw r) div n" "concat (map mc_Data cs) = take (n * (length (rq_raw r) div n)) (rq_raw r)"
      "\<forall>c \<in> set cs. valid_chunk c \<and> sized c \<and> length (mc_Data c) = n"
      "map mc_SequenceId cs = map word_of_nat [1..<length cs + 1]"
    using stream_feed_fits [of "stream_query pf r" env "rq_raw r"] assms(9-11) unfolding sp by blast
  have "\<exists>mode g'. HandleProcessStream env pf r g = (Inr (c, mode, Frames cs), g')"
    using assms(1,2) get(1) feed by (simp add: HandleProcessStream_def Let_def)
  then show ?thesis using get(2) cs by blast
qed

theorem HandleProcessStream_frames_witness:
  "\<exists>client mode cs g'. HandleProcessStream sample_http_env (\<lambda>_. Fin 5)
     (bearer sample_token (sample_request\<lparr>rq_query := (\<lambda>k. if k = ''width'' then show_int 2 else show_int 1), rq_raw := replicate 13 7\<rparr>))
     sample_gateway = (Inr (client, mode, Frames cs), g') \<and> length cs = 2"
proof -
  let ?r = "bearer sample_token (sample_request\<lparr>rq_query := (\<lambda>k. if k = ''width'' then show_int 2 else show_int 1),
      rq_raw := replicate 13 7\<rparr>)"
  have "\<exists>client mode cs g'. HandleProcessStream sample_http_env (\<lambda>_. Fin 5) ?r sample_gateway =
      (Inr (client, mode, Frames cs), g') \<and> client \<in> set (clients (g_pool sample_gateway)) \<and>
      length cs = length (rq_raw ?r) div 6 \<and>
      concat (map mc_Data cs) = take (6 * (length (rq_raw ?r) div 6)) (rq_raw ?r) \<and>
      (\<forall>c \<in> set cs. valid_chunk c \<and> length (mc_Data c) = 6) \<and> map mc_SequenceId cs = map word_of_nat [1..<length cs + 1]"
    by (intro HandleProcessStream_frames [OF _ sample_currentUser sample_clients, where w = 2 and h = 1 and n = 6])
      (simp_all add: sample_request_def bearer_def in_i64_def stream_buffer_size_def)
  then show ?thesis by (simp add: sample_request_def bearer_def) blast
qed


text \<open>
  From registration to an authenticated request: when \<open>/api/register\<close> accepts a user whose name
  has no colon, the token in its answer, sent back as a bearer header until its expiry, makes
  \<open>/api/me\<close> answer with that user, under the name that was registered.
\<close>

theorem HandleRegister_then_Me:
  assumes "HandleRegister env r g = Some (resp, g')" and "status resp = 200"
    and "rq_auth_json r = Some (name, pw)" and "CHR '':'' \<notin> set name"
    and "g_store g = Some db" and "db_inv db"
    and "g_tokens g = Some m" and "in_i64 (unix (he_now env + sint (ttl m)))"
    and "unix (he_now later) \<le> unix (he_now env + sint (ttl m))"
  shows "\<exists>token e user. body resp = AuthBody token e user \<and> Username user = name \<and>
    fst (HandleMe later (bearer token r') g') = json_response 200 (UserBody user)"
proof -
  obtain user db' where create: "CreateUser (he_user_fault env) (he_salt env) name pw db = (Inr user, db')"
    and issued: "writeToken env user (g\<lparr>g_store := Some db'\<rparr>) = Some (resp, g')"
    using assms(1-3,5) by (auto simp: HandleRegister_def method_not_allowed_def http_error_def
        split: if_splits option.splits prod.splits sum.splits)
  have name: "Username user = name"
    using CreateUser_cases [OF assms(6) create] by (auto simp: user_of_row_def)
  let ?token = "fst (Issue m (he_now env) user)"
  have body: "body resp = AuthBody ?token (snd (Issue m (he_now env) user)) user" and tok: "g_tokens g' = Some m"
    using issued assms(7) by (auto simp: writeToken_def json_response_def Let_def split: prod.splits)
  have "Verify m (he_now later) ?token = Inr user"
    using assms(4,8,9) name by (intro Issue_verifies) simp_all
  then have "currentUser later g' (bearer ?token r') = Inr user"
    using tok Issue_nonempty [of m "he_now env" user] by (simp add: currentUser_Inr userFromRequest_def Let_def)
  then show ?thesis using body name by (simp add: HandleMe_def)
qed

theorem HandleRegister_then_Me_witness:
  "\<exists>resp g' token e user. HandleRegister sample_http_env sample_request sample_gateway = Some (resp, g') \<and>
     body resp = AuthBody token e user \<and>
     fst (HandleMe sample_http_env (bearer token sample_request) g') = json_response 200 (UserBody user)"
proof -
  let ?db = "snd (Migrate None empty_database)"
  obtain resp g' where run: "HandleRegister sample_http_env sample_request sample_gateway = Some (resp, g')"
    "status resp = 200" using sample_register by blast
  have "\<exists>token e user. body resp = AuthBody token e user \<and> Username user = ''ann'' \<and>
      fst (HandleMe sample_http_env (bearer token sample_request) g') = json_response 200 (UserBody user)"
    by (rule HandleRegister_then_Me [OF run, where db = ?db and m = sample_manager and pw = "''pw''"])
      (simp_all add: sample_request_def sample_gateway_def Migrate_inv empty_database_inv sample_manager_def
        NewTokenManager_def sample_http_env_def unix_def in_i64_def)
  then show ?thesis using run by blast
qed



lemma sort_key_newest:
  fixes k :: "'a \<Rightarrow> 'b :: linorder"
  shows "\<forall>x \<in> set xs. k y < k x \<Longrightarrow> sort_key k (xs @ [y]) = y # sort_key k xs"
  by (induction xs) (auto simp: not_le)

lemma take_Suc_pos: "0 < n \<Longrightarrow> take n (x # xs) = x # take (n - 1) xs"
  by (cases n) simp_all

text \<open>
  C33. The log of a user: when a frame request of an existing user is answered with 200, the store is
  up and the sizes fit its columns, the history of that user (all earlier runs being older) starts
  with that very run: its sizes, filter, memory mode, outcome, time and message are those of the answer.
\<close>

theorem HandleProcessFrame_logged:
  assumes "HandleProcessFrame env r g = (resp, g')" and "status resp = 200"
    and "currentUser env g r = Inr u" and "rq_frame_json r = Some req"
    and "g_store g = Some db" and "migrated db" and "he_save_fault env = None"
    and "user_exists (sint (ID u)) db" and "runs_seq db < 2 ^ 63" and "in_i32 (fr_Width req)" and "in_i32 (fr_Height req)"
    and "\<forall>run \<in> set (processing_runs db). pr_CreatedAt run < he_db_now env"
    and "currentUser later g' r' = Inr u" and "he_user_fault later = None"
  shows "\<exists>fp runs. body resp = FrameBody fp \<and>
    fst (HandleHistory later r' g') = json_response 200 (RunsBody
      ((frame_run u req fp)\<lparr>pr_ID := runs_seq db, pr_CreatedAt := he_db_now env\<rparr> # runs))"
proof -
  obtain data where run: "process_frame env u req data
      (g\<lparr>g_metrics := IncrementRequests ''process_frame'' (g_metrics g)\<rparr>) = (resp, g')"
    using assms(1-4) by (auto simp: HandleProcessFrame_def method_not_allowed_def http_error_def Let_def
        split: if_splits option.splits)
  obtain fp where fp: "body resp = FrameBody fp" "fp_MemoryMode fp = normalizeMemoryMode_http (fr_MemoryMode req)"
    and store: "g_store g' = Some (snd (SaveProcessingRun None (he_db_now env) (frame_run u req fp) db))"
    using run assms(2,5,7) by (auto simp: process_frame_def no_processors_def http_error_def json_response_def Let_def
        split: prod.splits sum.splits)
  define new where "new = (frame_run u req fp)\<lparr>pr_ID := runs_seq db, pr_CreatedAt := he_db_now env\<rparr>"
  have "normalizeMemoryMode_db (fp_MemoryMode fp) = fp_MemoryMode fp" using fp(2) normalizeMemoryMode_idem(2) by simp
  then have "(frame_run u req fp)\<lparr>pr_ID := runs_seq db, pr_MemoryMode := normalizeMemoryMode_db (fp_MemoryMode fp),
      pr_CreatedAt := he_db_now env\<rparr> = new"
    by (simp add: new_def frame_run_def)
  then have db': "g_store g' = Some (db\<lparr>runs_seq := runs_seq db + 1, processing_runs := processing_runs db @ [new]\<rparr>)"
    using store assms(6,8-11)
    by (simp add: SaveProcessingRun_def statement_error_def frame_run_def in_i32_def Let_def)
  have new: "pr_UserID new = sint (ID u)" "pr_CreatedAt new = he_db_now env" by (simp_all add: new_def frame_run_def)
  have "sort_key (\<lambda>r. - pr_CreatedAt r) (filter (\<lambda>r. pr_UserID r = sint (ID u)) (processing_runs db) @ [new]) =
      new # sort_key (\<lambda>r. - pr_CreatedAt r) (filter (\<lambda>r. pr_UserID r = sint (ID u)) (processing_runs db))"
    by (rule sort_key_newest) (use assms(12) new in auto)
  then have "\<exists>runs. fst (HandleHistory later r' g') = json_response 200 (RunsBody (new # runs))"
    using assms(6,13,14) db' new
    by (simp add: HandleHistory_def RecentRuns_def statement_error_def run_limit_def take_Suc_pos; blast)
  then show ?thesis using fp(1) new_def by blast
qed

definition sample_frame :: ProcessFrameRequest where
  "sample_frame = \<lparr>fr_Data = std_encode [10, 20, 30], fr_Width = 1, fr_Height = 1, fr_Filter = ''gray'',
     fr_BlurRadius = Fin 0, fr_MemoryMode = ''HEAP''\<rparr>"

lemma sample_frame_request:
  "frame_request (bearer sample_token (sample_request\<lparr>rq_frame_json := Some sample_frame\<rparr>)) sample_frame [10, 20, 30]"
  by (simp add: frame_request_def bearer_def sample_request_def sample_frame_def b64std.dec_enc in_i32_def)

lemma sample_frame_ok:
  assumes "g_pool g = g_pool sample_gateway" "g_tokens g = g_tokens sample_gateway"
  shows "\<exists>g' fp. HandleProcessFrame sample_http_env
      (bearer sample_token (sample_request\<lparr>rq_frame_json := Some sample_frame\<rparr>)) g =
    (json_response 200 (FrameBody fp), g')"
proof -
  have "currentUser sample_http_env g (bearer sample_token (sample_request\<lparr>rq_frame_json := Some sample_frame\<rparr>)) =
      Inr sample_user"
    using sample_currentUser currentUser_tokens [OF assms(2)] by simp
  from HandleProcessFrame_ok [OF this sample_frame_request, of sample_transport sample_exp sample_env "[]"] sample_clients
  show ?thesis by (auto simp: assms(1) sample_http_env_def faultless_def sample_transport_def)
qed

definition sample_database :: database where
  "sample_database = empty_database\<lparr>migrated := True, users := [\<lparr>u_id = 1, u_username = ''ann'', u_password_hash = []\<rparr>],
     users_seq := 2\<rparr>"

theorem HandleProcessFrame_logged_witness:
  "\<exists>resp g' fp runs. HandleProcessFrame sample_http_env
      (bearer sample_token (sample_request\<lparr>rq_frame_json := Some sample_frame\<rparr>))
      (sample_gateway\<lparr>g_store := Some sample_database\<rparr>) = (resp, g') \<and>
    fst (HandleHistory sample_http_env (bearer sample_token sample_request) g') =
      json_response 200 (RunsBody ((frame_run sample_user sample_frame fp)\<lparr>pr_ID := 1, pr_CreatedAt := 5\<rparr> # runs))"
proof -
  let ?g = "sample_gateway\<lparr>g_store := Some sample_database\<rparr>"
  let ?r = "bearer sample_token (sample_request\<lparr>rq_frame_json := Some sample_frame\<rparr>)"
  obtain fp g' where run: "HandleProcessFrame sample_http_env ?r ?g = (json_response 200 (FrameBody fp), g')"
    using sample_frame_ok [of ?g] by auto
  have user: "currentUser sample_http_env ?g ?r = Inr sample_user"
    using sample_currentUser currentUser_tokens [of ?g sample_gateway] by simp
  have tok: "g_tokens g' = g_tokens sample_gateway"
    using arg_cong [OF run, of "g_tokens \<circ> snd"]
    by (auto simp: HandleProcessFrame_def process_frame_def count_error_def Let_def
        split: if_splits option.splits sum.splits prod.splits)
  have later: "currentUser sample_http_env g' (bearer sample_token sample_request) = Inr sample_user"
    using sample_currentUser currentUser_tokens [OF tok] by simp
  have "\<exists>fp' runs. body (json_response 200 (FrameBody fp)) = FrameBody fp' \<and>
      fst (HandleHistory sample_http_env (bearer sample_token sample_request) g') = json_response 200 (RunsBody
        ((frame_run sample_user sample_frame fp')\<lparr>pr_ID := runs_seq sample_database,
          pr_CreatedAt := he_db_now sample_http_env\<rparr> # runs))"
    by (rule HandleProcessFrame_logged [OF run _ user _ _ _ _ _ _ _ _ _ later])
      (simp_all add: json_response_def bearer_def sample_request_def sample_database_def empty_database_def
        sample_http_env_def user_exists_def sample_user_def sample_frame_def in_i32_def)
  then show ?thesis using run by (auto simp: sample_database_def empty_database_def sample_http_env_def)
qed

text \<open>
  C35. A WebSocket session of an authenticated client: while the connection holds, every message gets exactly one
  answer, in order, which depends on that message and the chosen processor only; a message that cannot be read or
  processed gets an error object and the session goes on. The frames counted are the frames answered.
\<close>

theorem HandleWebSocket_answers:
  assumes "currentUser env g r = Inr u" and "clients (g_pool g) \<noteq> []" and "length (clients (g_pool g)) < 2 ^ 64"
    and "list_all (\<lambda>(i, lost). i \<noteq> WsClosed \<and> \<not> lost) ins"
  shows "\<exists>client outs g'. HandleWebSocket env True ins r g = (Inr outs, g') \<and> client \<in> set (clients (g_pool g)) \<and>
    outs = map (ws_reply env client \<circ> fst) ins \<and>
    framesProcessedTotal (g_metrics g') = framesProcessedTotal (g_metrics g) + length (filter is_frame outs)"
proof -
  obtain client p where get: "Get (g_pool g) = (Inr client, p)" "client \<in> set (clients (g_pool g))"
    using Get_Inr [OF assms(2,3)] by blast
  let ?m = "IncrementRequests ''websocket'' (g_metrics g)"
  obtain outs m' where loop: "ws_loop env client ins ?m = (outs, m')" by fastforce
  have "currentUser env (g\<lparr>g_metrics := ?m\<rparr>) r = Inr u"
    using assms(1) currentUser_tokens [of "g\<lparr>g_metrics := ?m\<rparr>" g env r] by simp
  then have "HandleWebSocket env True ins r g = (Inr outs, g\<lparr>g_pool := p, g_metrics := m'\<rparr>)"
    using get(1) loop by (simp add: HandleWebSocket_def Let_def)
  moreover have "framesProcessedTotal ?m = framesProcessedTotal (g_metrics g)" by (simp add: metrics_defs)
  ultimately show ?thesis using ws_loop_replies [OF assms(4) loop] get(2)
    by (intro exI [of _ client] exI [of _ outs] exI [of _ "g\<lparr>g_pool := p, g_metrics := m'\<rparr>"]) simp
qed

theorem HandleWebSocket_answers_witness:
  "\<exists>client g'. HandleWebSocket sample_http_env True [(WsMessage None, False)] (bearer sample_token sample_request) sample_gateway =
     (Inr [ws_reply sample_http_env client (WsMessage None)], g')"
  using HandleWebSocket_answers [OF sample_currentUser sample_clients, of "[(WsMessage None, False)]" sample_request] by auto

text \<open>
  The WebSocket answer to a frame of the wrong size, which the Go processor refuses: it carries neither data nor the
  processor's error text.
\<close>

lemma ws_reply_drops_error:
  assumes "he_call env = (\<lambda>_. go_call tr mexp penv past)" "faultless tr"
    and "std_decode (fr_Data req) = Some data" "length data < 2 ^ 62"
    and "int (length data) \<noteq> sint (word_of_int (fr_Width req) :: i32) * sint (word_of_int (fr_Height req) :: i32) * 3"
  shows "\<exists>fp. ws_reply env client (WsMessage (Some req)) = WsFrame fp \<and> \<not> fp_Success fp \<and> fp_Error fp = [] \<and>
    fp_Data fp = std_encode []"
proof -
  let ?c = "frame_chunk env req data MEDIA_TYPE_VIDEO 0"
  have "sized ?c" using assms(4) by (simp add: sized_def frame_chunk_def)
  then have call: "he_call env client ?c m = Inr (chunk_reply mexp penv ?c)" for m
    using go_call_faultless [OF assms(2)] assms(1) by simp
  have "\<not> valid_chunk ?c" using assms(5) by (simp add: valid_chunk_def frame_chunk_def)
  then show ?thesis using assms(3) call by (simp add: ws_reply_def chunk_reply_facts)
qed

end
