(* ===== verification/Gateway_Facts.thy ===== *)
theory Gateway_Facts
  imports Gateway_Main Handler_Facts
begin

text \<open>
  What the running gateway of \<open>Gateway_Main\<close> guarantees: the invariant of its state over every sequence of
  requests and ticks, the well-formedness of its answers, and the contract of the middleware chain.
\<close>

section \<open>The state between requests\<close>

definition gateway_inv :: "gateway \<Rightarrow> bool" where
  "gateway_inv g \<longleftrightarrow> pool_inv (g_pool g, []) \<and> clients (g_pool g) \<noteq> [] \<and> g_tokens g \<noteq> None \<and>
     (\<forall>db. g_store g = Some db \<longrightarrow> db_inv db)"

definition server_state_inv :: "server_state \<Rightarrow> bool" where
  "server_state_inv s \<longleftrightarrow> gateway_inv (ss_gateway s) \<and> tokens (ss_limiter s) \<le> capacity (ss_limiter s)"

lemma inv_metrics [simp]: "gateway_inv (g\<lparr>g_metrics := m\<rparr>) = gateway_inv g"
  by (simp add: gateway_inv_def)

lemma inv_count_error [simp]: "gateway_inv (count_error e g) = gateway_inv g"
  by (simp add: count_error_def)

lemma inv_get: "gateway_inv g \<Longrightarrow> Get (g_pool g) = (res, p) \<Longrightarrow> gateway_inv (g\<lparr>g_pool := p\<rparr>)"
  using pool_step_inv [OF pool_step.get, of "g_pool g" "[]"] Get_keeps(1) [of "g_pool g"]
  by (simp add: gateway_inv_def)

lemma inv_store: "gateway_inv g \<Longrightarrow> db_inv db \<Longrightarrow> gateway_inv (g\<lparr>g_store := Some db\<rparr>)"
  by (simp add: gateway_inv_def)

lemma inv_db: "gateway_inv g \<Longrightarrow> g_store g = Some db \<Longrightarrow> db_inv db"
  by (simp add: gateway_inv_def)

lemma inv_sticky:
  assumes "gateway_inv g" "SetSticky i (g_pool g) = (e, p)"
  shows "gateway_inv (g\<lparr>g_pool := p\<rparr>)"
proof (cases "int (length (clients (g_pool g))) \<le> i")
  case True
  then have "p = g_pool g" using assms(2) by (simp add: SetSticky_def)
  then show ?thesis using assms(1) by (simp add: gateway_inv_def)
next
  case False
  then have p: "p = store_sticky i (g_pool g)" using assms(2) by (simp add: SetSticky_atomic)
  have "pool_step (g_pool g, []) (g_pool g, [i])" using False by (intro pool_step.check) simp
  moreover have "pool_step (g_pool g, [i]) (store_sticky i (g_pool g), remove1 i [i])"
    by (rule pool_step.store) simp
  ultimately have "pool_inv (p, [])"
    using pool_step_inv assms(1) by (auto simp: gateway_inv_def p)
  then show ?thesis using assms(1) by (simp add: gateway_inv_def p store_sticky_def)
qed

lemma inv_pool_length: "gateway_inv g \<Longrightarrow> length (clients (g_pool g)) \<le> 2 ^ 31"
  by (auto simp: gateway_inv_def pool_inv_def dest: arg_cong [where f = length])

lemma inv_writeToken: "gateway_inv g \<Longrightarrow> writeToken env u g = Some (resp, g') \<Longrightarrow> gateway_inv g'"
  by (auto simp: writeToken_def Let_def SaveSession_inv inv_db intro: inv_store
      split: option.splits prod.splits)

lemma inv_CreateUser: "gateway_inv g \<Longrightarrow> g_store g = Some db \<Longrightarrow>
    CreateUser fault salt n p db = (res, db') \<Longrightarrow> gateway_inv (g\<lparr>g_store := Some db'\<rparr>)"
  using CreateUser_cases [OF inv_db, of g db fault salt n p res db'] inv_store by blast

lemma inv_HandleRegister: "gateway_inv g \<Longrightarrow> HandleRegister env r g = Some (resp, g') \<Longrightarrow> gateway_inv g'"
  by (auto simp: HandleRegister_def inv_CreateUser split: if_splits option.splits prod.splits sum.splits
      intro: inv_writeToken [OF inv_CreateUser])

lemma inv_HandleLogin: "gateway_inv g \<Longrightarrow> HandleLogin env r g = Some (resp, g') \<Longrightarrow> gateway_inv g'"
  by (auto simp: HandleLogin_def split: if_splits option.splits prod.splits sum.splits
      elim!: inv_writeToken [rotated])

lemma inv_process_frame:
  assumes "gateway_inv g" "process_frame env u req data g = (resp, g')"
  shows "gateway_inv g'"
proof -
  obtain res p where get: "Get (g_pool g) = (res, p)" by fastforce
  have "gateway_inv (g\<lparr>g_pool := p\<rparr>)" using inv_get [OF assms(1) get] .
  moreover have "gateway_inv (g\<lparr>g_pool := p, g_store := Some (snd (SaveProcessingRun f n run db))\<rparr>)"
    if "g_store g = Some db" for f n run db
    using inv_store [OF calculation] SaveProcessingRun_inv [OF inv_db [OF assms(1) that]] by simp
  ultimately show ?thesis
    using assms(2) get by (auto simp: process_frame_def Let_def gateway_inv_def count_error_def
        split: sum.splits option.splits)
qed

lemma inv_HandleProcessFrame: "gateway_inv g \<Longrightarrow> HandleProcessFrame env r g = (resp, g') \<Longrightarrow> gateway_inv g'"
  by (auto simp: HandleProcessFrame_def Let_def split: if_splits option.splits sum.splits
      elim!: inv_process_frame [rotated])

lemma inv_HandleProcessStream: "gateway_inv g \<Longrightarrow> HandleProcessStream env pf r g = (out, g') \<Longrightarrow> gateway_inv g'"
  using inv_get [of "g\<lparr>g_metrics := IncrementRequests ''process_stream'' (g_metrics g)\<rparr>"]
  by (auto simp: HandleProcessStream_def Let_def split: if_splits sum.splits prod.splits)

lemma inv_HandleWebSocket: "gateway_inv g \<Longrightarrow> HandleWebSocket env ok ins r g = (out, g') \<Longrightarrow> gateway_inv g'"
  using inv_get [of "g\<lparr>g_metrics := IncrementRequests ''websocket'' (g_metrics g)\<rparr>"]
  by (auto simp: HandleWebSocket_def Let_def gateway_inv_def count_error_def split: if_splits sum.splits prod.splits)

lemma inv_readers:
  "gateway_inv g \<Longrightarrow> HandleMe env r g = (resp, g') \<Longrightarrow> gateway_inv g'"
  "gateway_inv g \<Longrightarrow> HandleHistory env r g = (resp, g') \<Longrightarrow> gateway_inv g'"
  "gateway_inv g \<Longrightarrow> HandleHealth env r g = (resp, g') \<Longrightarrow> gateway_inv g'"
  "gateway_inv g \<Longrightarrow> HandleAdminProcessorsStats env r g = (resp, g') \<Longrightarrow> gateway_inv g'"
  "gateway_inv g \<Longrightarrow> HandleRoot env r g = (resp, g') \<Longrightarrow> gateway_inv g'"
  "gateway_inv g \<Longrightarrow> HandleLoginPage env r g = (resp, g') \<Longrightarrow> gateway_inv g'"
  "gateway_inv g \<Longrightarrow> HandlePanelPage page env r g = (resp, g') \<Longrightarrow> gateway_inv g'"
  "gateway_inv g \<Longrightarrow> HandleLogout env r g = (resp, g') \<Longrightarrow> gateway_inv g'"
  by (auto simp: HandleMe_def HandleHistory_def HandleHealth_def HandleAdminProcessorsStats_def HandleRoot_def
      HandleLoginPage_def HandlePanelPage_def HandleLogout_def Let_def split: if_splits sum.splits option.splits)

lemma inv_stats:
  "gateway_inv g \<Longrightarrow> HandleStats env r g = (resp, g') \<Longrightarrow> gateway_inv g'"
  "gateway_inv g \<Longrightarrow> HandleRuntime env r g = (resp, g') \<Longrightarrow> gateway_inv g'"
  by (auto simp: HandleStats_def HandleRuntime_def inv_get split: sum.splits prod.splits)

lemma inv_HandleAdminRouting: "gateway_inv g \<Longrightarrow> HandleAdminRouting env r g = (resp, g') \<Longrightarrow> gateway_inv g'"
  by (auto simp: HandleAdminRouting_def inv_sticky split: if_splits sum.splits option.splits prod.splits)

lemmas handler_invs = inv_HandleRegister inv_HandleLogin inv_HandleProcessFrame inv_HandleProcessStream
  inv_HandleWebSocket inv_readers inv_stats inv_HandleAdminRouting

section \<open>Requests and ticks over time\<close>

text \<open>What happens to the gateway, in the order it takes effect: a request, or a tick of the limiter's clock.\<close>

datatype event = Serve main_env request | Refill

fun gateway_run :: "event list \<Rightarrow> server_state \<Rightarrow> outcome list \<times> server_state" where
  "gateway_run [] s = ([], s)"
| "gateway_run (Refill # es) s = gateway_run es (s\<lparr>ss_limiter := refill (ss_limiter s)\<rparr>)"
| "gateway_run (Serve me r # es) s = (case finalHandler me r s of
     (out, s) \<Rightarrow> (case gateway_run es s of (outs, s) \<Rightarrow> (out # outs, s)))"

text \<open>
  What one request has to keep so that every run keeps it: \<open>Q\<close> holds of the state between requests, \<open>P\<close> of every
  outcome.
\<close>

locale run_invariant =
  fixes Q :: "server_state \<Rightarrow> bool" and P :: "outcome \<Rightarrow> bool"
  assumes serve: "Q s \<Longrightarrow> finalHandler me r s = (out, s') \<Longrightarrow> P out \<and> Q s'"
    and tick: "Q s \<Longrightarrow> Q (s\<lparr>ss_limiter := refill (ss_limiter s)\<rparr>)"
begin

lemma runs: "Q s \<Longrightarrow> gateway_run es s = (outs, s') \<Longrightarrow> list_all P outs \<and> Q s'"
proof (induction es s arbitrary: outs s' rule: gateway_run.induct)
  case (1 s)
  then show ?case by simp
next
  case (2 es s)
  then show ?case using tick by simp
next
  case (3 me r es s)
  obtain out s1 where one: "finalHandler me r s = (out, s1)" by fastforce
  obtain outs1 s2 where rest: "gateway_run es s1 = (outs1, s2)" by fastforce
  have "P out \<and> Q s1" using serve [OF "3.prems"(1) one] .
  moreover have "list_all P outs1 \<and> Q s2"
    using "3.IH" [OF one [symmetric], of outs1 s2] calculation rest by simp
  ultimately show ?case using "3.prems"(2) one rest by auto
qed

end

lemma inv_mux: "gateway_inv g \<Longrightarrow> mux me r g = (out, g') \<Longrightarrow> gateway_inv g'"
  by (auto simp: mux_def Let_def answered_def answered_or_panic_def
      split: if_splits prod.splits option.splits sum.splits dest: handler_invs)

text \<open>The status codes the handlers use, the content type that goes with each body, and the answer of an empty pool.\<close>

definition content_type :: "body \<Rightarrow> string option" where
  "content_type b = (case b of NoBody \<Rightarrow> None | Text t \<Rightarrow> Some ''text/plain; charset=utf-8''
     | HtmlBody t \<Rightarrow> Some ''text/html; charset=utf-8'' | RawBody bs \<Rightarrow> Some ''application/octet-stream''
     | _ \<Rightarrow> Some ''application/json'')"

definition typed :: "response \<Rightarrow> bool" where
  "typed resp \<longleftrightarrow> status resp \<in> {200, 302, 400, 401, 404, 405, 500, 503} \<and>
     (case content_type (body resp) of None \<Rightarrow> True | Some t \<Rightarrow> (''Content-Type'', t) \<in> set (headers resp))"

definition starved :: "response \<Rightarrow> bool" where
  "starved resp \<longleftrightarrow> status resp = 503 \<and> body resp = body no_processors"

definition good_response :: "response \<Rightarrow> bool" where
  "good_response resp \<longleftrightarrow> typed resp \<and> \<not> starved resp"

lemma good_responses [simp]:
  "good_response (http_error e c) \<longleftrightarrow> c \<in> {200, 302, 400, 401, 404, 405, 500, 503} \<and> (c = 503 \<longrightarrow> e \<noteq> ''No available processors'')"
  "c \<in> {200, 503} \<Longrightarrow> content_type b = Some ''application/json'' \<Longrightarrow> good_response (json_response c b)"
  "good_response method_not_allowed" "good_response no_storage"
  "good_response (redirect r t)" "good_response (html_response t)" "good_response metrics_page"
  "good_response (resp\<lparr>auth_cookie := ck\<rparr>) = good_response resp"
  by (auto simp: good_response_def typed_def starved_def http_error_def json_response_def method_not_allowed_def
      no_storage_def no_processors_def redirect_def html_response_def metrics_page_def content_type_def
      split: body.splits)

lemma content_types [simp]:
  "content_type (AuthBody t e u) = Some ''application/json''" "content_type (UserBody u) = Some ''application/json''"
  "content_type (RunsBody rs) = Some ''application/json''" "content_type (FrameBody f) = Some ''application/json''"
  "content_type (HealthBody t h) = Some ''application/json''" "content_type (StatsBody st) = Some ''application/json''"
  "content_type (RoutingBody m i as h) = Some ''application/json''" "content_type (StatusBody t) = Some ''application/json''"
  "content_type (ProcStatsBody ps) = Some ''application/json''" "content_type (RuntimeBody rt) = Some ''application/json''"
  by (simp_all add: content_type_def)

lemma good_runtime [simp]:
  "good_response ((json_response 200 (RuntimeBody rt))\<lparr>headers := [(''Content-Type'', ''application/json''), h]\<rparr>)"
  by (simp add: good_response_def typed_def starved_def json_response_def)

lemma currentUser_good: "currentUser env g r = Inl resp \<Longrightarrow> good_response resp"
  by (auto simp: currentUser_def split: sum.splits)

lemma pool_serves:
  assumes "gateway_inv g"
  obtains c p where "Get (g_pool g) = (Inr c, p)"
proof -
  have "length (clients (g_pool g)) < 2 ^ 64" using inv_pool_length [OF assms] by simp
  then show ?thesis using Get_Inr [of "g_pool g"] assms by (auto simp: gateway_inv_def intro: that)
qed

text \<open>No handler of a gateway in a good state panics or finds the pool empty.\<close>

lemma good_writeToken: "gateway_inv g \<Longrightarrow> \<exists>resp g'. writeToken env u g = Some (resp, g') \<and> good_response resp"
  by (auto simp: gateway_inv_def writeToken_def Let_def split: prod.splits option.splits)

lemma good_HandleRegister:
  assumes "gateway_inv g"
  shows "\<exists>resp g'. HandleRegister env r g = Some (resp, g') \<and> good_response resp"
  using good_writeToken [OF inv_CreateUser [OF assms]]
  by (fastforce simp: HandleRegister_def split: option.split sum.split prod.split)

lemma good_HandleLogin:
  assumes "gateway_inv g"
  shows "\<exists>resp g'. HandleLogin env r g = Some (resp, g') \<and> good_response resp"
  using good_writeToken [OF assms]
  by (fastforce simp: HandleLogin_def split: option.split sum.split prod.split)

lemma good_HandleProcessFrame:
  assumes "gateway_inv g" "HandleProcessFrame env r g = (resp, g')"
  shows "good_response resp"
proof -
  obtain c p where get: "Get (g_pool g) = (Inr c, p)" using pool_serves [OF assms(1)] .
  have frame: "process_frame env u req data (g\<lparr>g_metrics := m\<rparr>) = (resp, g') \<Longrightarrow> good_response resp" for u req data m g'
    using get by (auto simp: process_frame_def Let_def split: sum.splits)
  show ?thesis
    using assms(2) by (auto simp: HandleProcessFrame_def Let_def split: if_splits option.splits sum.splits
        dest: currentUser_good frame)
qed

lemma good_HandleProcessStream:
  assumes "gateway_inv g" "HandleProcessStream env pf r g = (Inl resp, g')"
  shows "good_response resp"
proof -
  obtain c p where get: "Get (g_pool g) = (Inr c, p)" using pool_serves [OF assms(1)] .
  show ?thesis
    using assms(2) get
    by (auto simp: HandleProcessStream_def Let_def split: if_splits sum.splits dest: currentUser_good)
qed

lemma good_HandleWebSocket:
  "HandleWebSocket env ok ins r g = (Inl resp, g') \<Longrightarrow> good_response resp"
  by (auto simp: HandleWebSocket_def Let_def split: if_splits sum.splits prod.splits dest: currentUser_good)

lemma good_readers:
  "HandleMe env r g = (resp, g') \<Longrightarrow> good_response resp"
  "HandleHistory env r g = (resp, g') \<Longrightarrow> good_response resp"
  "HandleHealth env r g = (resp, g') \<Longrightarrow> good_response resp"
  "HandleAdminProcessorsStats env r g = (resp, g') \<Longrightarrow> good_response resp"
  "HandleAdminRouting env r g = (resp, g') \<Longrightarrow> good_response resp"
  "HandleRoot env r g = (resp, g') \<Longrightarrow> good_response resp"
  "HandleLoginPage env r g = (resp, g') \<Longrightarrow> good_response resp"
  "HandlePanelPage page env r g = (resp, g') \<Longrightarrow> good_response resp"
  "HandleLogout env r g = (resp, g') \<Longrightarrow> good_response resp"
  by (auto simp: HandleMe_def HandleHistory_def HandleHealth_def HandleAdminProcessorsStats_def HandleAdminRouting_def
      HandleRoot_def HandleLoginPage_def HandlePanelPage_def HandleLogout_def Let_def
      split: if_splits sum.splits option.splits prod.splits dest: currentUser_good)

lemma good_stats:
  assumes "gateway_inv g"
  shows "HandleStats env r g = (resp, g') \<Longrightarrow> good_response resp"
    and "HandleRuntime env r g = (resp, g') \<Longrightarrow> good_response resp"
proof -
  obtain c p where get: "Get (g_pool g) = (Inr c, p)" using pool_serves [OF assms] .
  show "HandleStats env r g = (resp, g') \<Longrightarrow> good_response resp"
    and "HandleRuntime env r g = (resp, g') \<Longrightarrow> good_response resp"
    using get by (auto simp: HandleStats_def HandleRuntime_def stats_failed_def split: sum.splits dest: currentUser_good)
qed

definition good_outcome :: "outcome \<Rightarrow> bool" where
  "good_outcome out \<longleftrightarrow> (case out of Done resp \<Rightarrow> good_response resp | Panicked \<Rightarrow> False | _ \<Rightarrow> True)"

lemma good_outcomes [simp]:
  "good_outcome (Done resp) = good_response resp" "\<not> good_outcome Panicked"
  "good_outcome (Streaming c m fd)" "good_outcome (Socket outs)"
  by (simp_all add: good_outcome_def)

lemma good_mux:
  assumes "gateway_inv g" "mux me r g = (out, g')"
  shows "good_outcome out"
proof -
  note reg = good_HandleRegister [OF assms(1), of "me_http me" r]
  note login = good_HandleLogin [OF assms(1), of "me_http me" r]
  show ?thesis
    using assms(2) reg login
    by (auto simp: mux_def Let_def answered_def answered_or_panic_def
        split: if_splits prod.splits option.splits sum.splits
        dest: good_readers good_stats [OF assms(1)] good_HandleProcessFrame [OF assms(1)] good_HandleWebSocket
          good_HandleProcessStream [OF assms(1)])
qed

section \<open>The chain of middleware\<close>

lemma with_cors_simps [simp]:
  "body (with_cors resp) = body resp" "status (with_cors resp) = status resp"
  "auth_cookie (with_cors resp) = auth_cookie resp"
  "h \<in> set (headers resp) \<Longrightarrow> h \<in> set (headers (with_cors resp))"
  by (auto simp: with_cors_def)

lemma with_cors_good [simp]: "good_response resp \<Longrightarrow> good_response (with_cors resp)"
  by (simp add: good_response_def typed_def starved_def split: option.splits)

text \<open>What the limiter decides about a request, and the limiter after it.\<close>

definition admitted :: "request \<Rightarrow> RateLimiter \<Rightarrow> bool" where
  "admitted r rl \<longleftrightarrow> exempt_path (rq_path r) \<or> 0 < tokens rl"

definition charge :: "request \<Rightarrow> RateLimiter \<Rightarrow> RateLimiter" where
  "charge r rl = (if exempt_path (rq_path r) then rl else snd (Allow rl))"

lemma limited_admitted:
  "admitted r (ss_limiter s) \<Longrightarrow> limited me r s = (case mux me r (ss_gateway s) of
     (out, g) \<Rightarrow> (out, s\<lparr>ss_limiter := charge r (ss_limiter s), ss_gateway := g\<rparr>))"
  by (auto simp: limited_def limit_middleware_def admitted_def charge_def Allow_def split: prod.split)

lemma limited_refused:
  "\<not> admitted r (ss_limiter s) \<Longrightarrow> limited me r s = (Done rate_limited, s)"
  by (simp add: limited_def limit_middleware_def admitted_def Allow_def)

lemma charge_bound: "tokens rl \<le> capacity rl \<Longrightarrow> tokens (charge r rl) \<le> capacity (charge r rl)"
  by (auto simp: charge_def Allow_def)

lemma finalHandler_cases:
  assumes "finalHandler me r s = (out, s')"
  obtains (preflight) "rq_method r = ''OPTIONS''" "s' = s"
      "out = Done \<lparr>status = 200, headers = cors_headers, auth_cookie = None, body = NoBody\<rparr>"
    | (refused) "rq_method r \<noteq> ''OPTIONS''" "\<not> admitted r (ss_limiter s)" "out = Done (with_cors rate_limited)"
      "s' = s\<lparr>ss_log := ss_log s @ [(rq_method r, rq_path r)]\<rparr>"
    | (routed) o' g where "rq_method r \<noteq> ''OPTIONS''" "admitted r (ss_limiter s)" "mux me r (ss_gateway s) = (o', g)"
      "out = (case o' of Done resp \<Rightarrow> Done (with_cors resp) | _ \<Rightarrow> o')"
      "s' = s\<lparr>ss_limiter := charge r (ss_limiter s), ss_gateway := g,
         ss_log := (if o' = Panicked then ss_log s else ss_log s @ [(rq_method r, rq_path r)])\<rparr>"
proof (cases "rq_method r = ''OPTIONS''")
  case True
  then show thesis using assms by (intro preflight) (auto simp: finalHandler_def corsMiddleware_def)
next
  case False
  show thesis
  proof (cases "admitted r (ss_limiter s)")
    case True
    obtain o' g where mux: "mux me r (ss_gateway s) = (o', g)" by fastforce
    show thesis
      using assms False True mux by (intro routed [of o' g])
        (auto simp: finalHandler_def corsMiddleware_def loggingMiddleware_def limited_admitted split: outcome.splits)
  next
    case no: False
    then show thesis using assms False
      by (intro refused) (auto simp: finalHandler_def corsMiddleware_def loggingMiddleware_def limited_refused)
  qed
qed

lemma finalHandler_keeps:
  assumes "server_state_inv s" "finalHandler me r s = (out, s')"
  shows "(good_outcome out \<or> out = Done (with_cors rate_limited)) \<and> server_state_inv s'"
  using assms(2)
proof (cases rule: finalHandler_cases)
  case preflight
  then show ?thesis using assms(1) by (simp add: good_response_def typed_def starved_def content_type_def)
next
  case refused
  then show ?thesis using assms(1) by (simp add: server_state_inv_def)
next
  case (routed o' g)
  have "gateway_inv (ss_gateway s)" using assms(1) by (simp add: server_state_inv_def)
  from good_mux [OF this routed(3)] inv_mux [OF this routed(3)]
  show ?thesis
    using routed(4,5) assms(1) charge_bound by (auto simp: server_state_inv_def split: outcome.splits)
qed

section \<open>From the start\<close>

lemma processor_addresses_nonempty [simp]: "processor_addresses s \<noteq> []"
  by (simp add: processor_addresses_def)

lemma retry_loop_attempt: "fst (retry_loop attempt i k lastErr) = Inr db \<Longrightarrow> \<exists>j. attempt j = Inr db"
  by (induction attempt i k lastErr rule: retry_loop.induct) (auto split: sum.splits)

lemma open_store_inv:
  assumes "\<And>i db. attempt i = Inr db \<Longrightarrow> db_inv db" "open_store attempt fault cf = Some (Some db)"
  shows "db_inv db"
proof -
  obtain db' e where "fst (openStoreWithRetry attempt 12) = Inr db'" "Migrate fault db' = (e, db)"
    using assms(2) by (auto simp: open_store_def split: if_splits sum.splits prod.splits option.splits)
  moreover from this obtain j where "attempt j = Inr db'"
    using retry_loop_attempt [of attempt 0 12 None db'] unfolding openStoreWithRetry_def by auto
  ultimately show ?thesis using Migrate_inv [OF assms(1), of j db' fault] by simp
qed

definition start_addresses :: "config \<Rightarrow> string list" where
  "start_addresses cf = processor_addresses (if cf_env_processors cf \<noteq> [] then cf_env_processors cf else cf_processors cf)"

lemma fresh_pool_nonempty:
  assumes "fst (NewProcessorPool dial as) = Inr p" "as \<noteq> []" "length as \<le> 2 ^ 31"
  shows "pool_inv (p, []) \<and> clients p \<noteq> []"
proof -
  have p: "\<exists>f. p = fresh_pool f as"
    using assms(1) unfolding NewProcessorPool_def dial_all_spec
    by (cases "List.find (\<lambda>a. isl (dial a)) as") (auto simp: fresh_pool_def)
  then show ?thesis using fresh_pool_inv [OF assms(3)] assms(2) by (auto simp: fresh_pool_def)
qed

lemma gateway_start_parts:
  assumes "gateway_start dial attempt fault cf = Some s"
  shows "fst (NewProcessorPool dial (start_addresses cf)) = Inr (g_pool (ss_gateway s))"
    and "open_store attempt fault cf = Some (g_store (ss_gateway s))"
    and "NewRateLimiter (cf_rate_limit cf) = Some (ss_limiter s)"
    and "g_tokens (ss_gateway s) = Some (NewTokenManager (cf_auth_secret cf) (24 * 3600 * 10 ^ 9))"
  using assms unfolding gateway_start_def start_addresses_def [symmetric] Let_def
  by (cases "fst (NewProcessorPool dial (start_addresses cf))";
      cases "open_store attempt fault cf"; cases "NewRateLimiter (cf_rate_limit cf)"; auto)+

lemma gateway_start_inv:
  assumes "gateway_start dial attempt fault cf = Some s" "length (start_addresses cf) \<le> 2 ^ 31"
    and "\<And>i db. attempt i = Inr db \<Longrightarrow> db_inv db"
  shows "server_state_inv s"
proof -
  note parts = gateway_start_parts [OF assms(1)]
  have "pool_inv (g_pool (ss_gateway s), []) \<and> clients (g_pool (ss_gateway s)) \<noteq> []"
    using fresh_pool_nonempty [OF parts(1) _ assms(2)] by (simp add: start_addresses_def)
  moreover have "db_inv db" if "g_store (ss_gateway s) = Some db" for db
    using open_store_inv [of attempt fault cf db] assms(3) parts(2) that by simp
  moreover have "tokens (ss_limiter s) \<le> capacity (ss_limiter s)" using period_bounds [OF parts(3)] by simp
  ultimately show ?thesis using parts(4) by (simp add: server_state_inv_def gateway_inv_def)
qed

interpretation sound: run_invariant server_state_inv "\<lambda>out. good_outcome out \<or> out = Done (with_cors rate_limited)"
  by unfold_locales (rule finalHandler_keeps, assumption+, simp add: server_state_inv_def refill_def)

lemma rate_limited_distinct: "good_outcome out \<Longrightarrow> out \<noteq> Done (with_cors rate_limited)"
  by (auto simp: good_response_def typed_def rate_limited_def http_error_def)

text \<open>What the limiter sees of a run: every tick, and every request that is not a preflight.\<close>

fun limiter_events :: "event list \<Rightarrow> limiter_event list" where
  "limiter_events [] = []"
| "limiter_events (Refill # es) = Tick # limiter_events es"
| "limiter_events (Serve me r # es) =
     (if rq_method r = ''OPTIONS'' then limiter_events es else Request (rq_path r) # limiter_events es)"

fun decisions :: "event list \<Rightarrow> outcome list \<Rightarrow> (string \<times> bool) list" where
  "decisions (Refill # es) outs = decisions es outs"
| "decisions (Serve me r # es) (out # outs) =
     (if rq_method r = ''OPTIONS'' then decisions es outs
      else (rq_path r, out \<noteq> Done (with_cors rate_limited)) # decisions es outs)"
| "decisions _ _ = []"

lemma limiter_run_request:
  "limiter_run (Request (rq_path r) # es) rl = (case limiter_run es (charge r rl) of
     (ds, rl') \<Rightarrow> ((rq_path r, admitted r rl) # ds, rl'))"
  by (auto simp: charge_def admitted_def Allow_def split: prod.split)

lemma finalHandler_decides:
  assumes "server_state_inv s" "finalHandler me r s = (out, s')" "rq_method r \<noteq> ''OPTIONS''"
  shows "(out \<noteq> Done (with_cors rate_limited)) = admitted r (ss_limiter s) \<and>
    ss_limiter s' = charge r (ss_limiter s)"
  using assms(2)
proof (cases rule: finalHandler_cases)
  case preflight
  then show ?thesis using assms(3) by simp
next
  case refused
  then show ?thesis by (simp add: admitted_def charge_def Allow_def)
next
  case (routed o' g)
  have "good_outcome o'" using good_mux [OF _ routed(3)] assms(1) by (simp add: server_state_inv_def)
  then have "out \<noteq> Done (with_cors rate_limited)"
    unfolding routed(4) by (intro rate_limited_distinct) (auto split: outcome.splits)
  then show ?thesis using routed(2,5) by simp
qed

lemma gateway_run_limiter:
  "server_state_inv s \<Longrightarrow> gateway_run es s = (outs, s') \<Longrightarrow>
   limiter_run (limiter_events es) (ss_limiter s) = (decisions es outs, ss_limiter s')"
proof (induction es s arbitrary: outs s' rule: gateway_run.induct)
  case (1 s)
  then show ?case by simp
next
  case (2 es s)
  then show ?case by (simp add: server_state_inv_def refill_def split: if_splits)
next
  case (3 me r es s)
  obtain out s1 where one: "finalHandler me r s = (out, s1)" by fastforce
  obtain outs1 where rest: "gateway_run es s1 = (outs1, s')" "outs = out # outs1"
    using "3.prems"(2) one by (auto split: prod.splits)
  have "server_state_inv s1" using finalHandler_keeps [OF "3.prems"(1) one] by simp
  then have ih: "limiter_run (limiter_events es) (ss_limiter s1) = (decisions es outs1, ss_limiter s')"
    using "3.IH" [OF one [symmetric]] rest(1) by simp
  show ?case
  proof (cases "rq_method r = ''OPTIONS''")
    case True
    then have "s1 = s" using one by (auto elim!: finalHandler_cases)
    then show ?thesis using True ih rest(2) by simp
  next
    case False
    from finalHandler_decides [OF "3.prems"(1) one False] show ?thesis
      using False ih rest(2) by (simp add: limiter_run_request del: limiter_run.simps)
  qed
qed

section \<open>The retry loop\<close>

lemma retry_loop_found:
  assumes "\<forall>j < k. isl (attempt (i + j))" "attempt (i + k) = Inr db" "k < n"
  shows "retry_loop attempt i n lastErr = (Inr db, i + k)"
  using assms
proof (induction k arbitrary: i n lastErr)
  case 0
  then show ?case by (cases n) auto
next
  case (Suc k)
  then obtain m where n: "n = Suc m" by (cases n) auto
  have "\<exists>e. attempt i = Inl e" using Suc.prems(1) by (metis add_0_right isl_def zero_less_Suc)
  moreover have "\<forall>j < k. isl (attempt (Suc i + j))" using Suc.prems(1) by auto
  ultimately show ?case using Suc.IH [of "Suc i" m] Suc.prems(2,3) n by auto
qed

lemma retry_loop_exhausted:
  "\<forall>j < n. isl (attempt (i + j)) \<Longrightarrow> retry_loop attempt i n lastErr =
     (Inl (if n = 0 then lastErr else Some (projl (attempt (i + n - 1)))), i + n)"
proof (induction n arbitrary: i lastErr)
  case 0
  then show ?case by simp
next
  case (Suc n)
  obtain e where e: "attempt i = Inl e" using Suc.prems by (metis add_0_right isl_def zero_less_Suc)
  have "\<forall>j < n. isl (attempt (Suc i + j))" using Suc.prems by auto
  from Suc.IH [OF this] show ?case using e by auto
qed

section \<open>Protected paths\<close>

definition protected_paths :: "string set" where
  "protected_paths = {''/api/me'', ''/api/history'', ''/api/process'', ''/process'', ''/api/stream'', ''/ws'', ''/stats'',
     ''/api/admin/routing'', ''/api/admin/processors/stats'', ''/panel'', ''/app''}"

definition same_data :: "gateway \<Rightarrow> gateway \<Rightarrow> bool" where
  "same_data g g' \<longleftrightarrow> g_pool g' = g_pool g \<and> g_store g' = g_store g \<and> g_tokens g' = g_tokens g"

lemma same_data_simps [simp]: "same_data g g" "same_data g (g\<lparr>g_metrics := m\<rparr>)"
  by (simp_all add: same_data_def)

lemma currentUser_metrics [simp]: "currentUser env (g\<lparr>g_metrics := m\<rparr>) r = currentUser env g r"
  by (rule currentUser_tokens) simp

lemma mux_gate:
  assumes "currentUser (me_http me) g r = Inl e" "rq_path r \<in> protected_paths"
  shows "\<exists>resp g'. mux me r g = (Done resp, g') \<and> status resp \<in> {302, 401, 405} \<and> same_data g g'"
proof -
  have e: "status e = 401" using currentUser_Inl [OF assms(1)] .
  obtain t where u: "userFromRequest (me_http me) g r = Inl t"
    using assms(1) by (auto simp: currentUser_def split: sum.splits)
  note handlers = HandleMe_def HandleHistory_def HandleProcessFrame_def HandleProcessStream_def HandleWebSocket_def
    HandleStats_def HandleAdminRouting_def HandleAdminProcessorsStats_def HandlePanelPage_def
  from assms(2) show ?thesis
    unfolding protected_paths_def
    by (auto simp: mux_def Let_def answered_def handlers assms(1) e u method_not_allowed_def http_error_def
        redirect_def)
qed

section \<open>Which configurations start\<close>

lemma openStoreWithRetry_isl:
  "isl (fst (openStoreWithRetry attempt n)) \<longleftrightarrow> (\<forall>i < n. isl (attempt i))"
proof (cases "\<forall>i < n. isl (attempt i)")
  case True
  then show ?thesis using retry_loop_exhausted [of n attempt 0 None] by (simp add: openStoreWithRetry_def)
next
  case False
  then obtain k where k: "k < n" "\<not> isl (attempt k)" "\<forall>j < k. \<not> (j < n \<and> \<not> isl (attempt j))"
    using exists_least_iff [of "\<lambda>k. k < n \<and> \<not> isl (attempt k)"] by blast
  then have "\<forall>j < k. isl (attempt (0 + j))" by auto
  moreover obtain db where "attempt (0 + k) = Inr db" using k(2) by (cases "attempt k") auto
  ultimately have "openStoreWithRetry attempt n = (Inr db, 0 + k)"
    unfolding openStoreWithRetry_def using k(1) by (rule retry_loop_found)
  then show ?thesis using False by auto
qed

lemma open_store_None:
  "open_store attempt fault cf = None \<longleftrightarrow>
     cf_database_url cf \<noteq> [] \<and> ((\<forall>i < 12. isl (attempt i)) \<or> fault \<noteq> None)"
  using openStoreWithRetry_isl [of attempt 12]
  by (cases "fst (openStoreWithRetry attempt 12)")
    (auto simp: open_store_def Migrate_def split: option.splits)

lemma NewRateLimiter_None: "NewRateLimiter rps = None \<longleftrightarrow> rps < 1 \<or> 10 ^ 9 < rps"
proof -
  have "10 ^ 9 sdiv rps = (10 ^ 9 div rps :: int) \<and> (10 ^ 9 div rps \<le> 0 \<longleftrightarrow> 10 ^ 9 < rps)" if "0 < rps"
    using that by (simp add: signed_divide_int_def pos_imp_zdiv_pos_iff linorder_not_less [symmetric])
  then show ?thesis by (auto simp: NewRateLimiter_def Let_def)
qed

section \<open>Sample data\<close>

definition sample_main_env :: main_env where
  "sample_main_env = \<lparr>me_http = sample_http_env, me_parse_float = (\<lambda>_. Fin 5), me_upgrade_ok = True, me_messages = []\<rparr>"

definition sample_config :: config where
  "sample_config = \<lparr>cf_processors = ''processor-go:9090'', cf_env_processors = [], cf_rate_limit = 1000,
     cf_database_url = [], cf_auth_secret = ''secret''\<rparr>"

definition sample_server :: server_state where
  "sample_server = \<lparr>ss_limiter = \<lparr>capacity = 1000, tokens = 1000, period = 1000000\<rparr>,
     ss_gateway = \<lparr>g_pool = fresh_pool (\<lambda>_. 0) [''processor-go:9090''], g_metrics = SetProcessorPoolSize 1 NewMetrics,
       g_store = None, g_tokens = Some (NewTokenManager ''secret'' (24 * 3600 * 10 ^ 9))\<rparr>, ss_log = []\<rparr>"

lemma sample_addresses: "start_addresses sample_config = [''processor-go:9090'']"
  by (simp add: start_addresses_def sample_config_def processor_addresses_def trim_space_def is_space_def)

lemma sample_start: "gateway_start (\<lambda>_. Inr 0) (\<lambda>_. Inl ''down'') None sample_config = Some sample_server"
proof -
  have "fst (NewProcessorPool (\<lambda>_. Inr 0) (start_addresses sample_config)) = Inr (fresh_pool (\<lambda>_. 0) [''processor-go:9090''])"
    unfolding sample_addresses NewProcessorPool_def dial_all_spec by (simp add: fresh_pool_def)
  moreover have "open_store (\<lambda>_. Inl ''down'') None sample_config = Some None"
    by (simp add: open_store_def sample_config_def)
  moreover have "NewRateLimiter (cf_rate_limit sample_config) = Some \<lparr>capacity = 1000, tokens = 1000, period = 1000000\<rparr>"
    by (simp add: sample_config_def NewRateLimiter_def signed_divide_int_def)
  ultimately show ?thesis
    unfolding gateway_start_def start_addresses_def [symmetric] Let_def
    by (simp add: sample_server_def sample_addresses) (simp add: sample_config_def)
qed

lemma sample_server_sound: "server_state_inv sample_server"
  by (rule gateway_start_inv [OF sample_start]) (simp_all add: sample_addresses)

section \<open>Properties\<close>

text \<open>
  The gateway stays sound over every history: from a start that succeeded, after any sequence of
  requests and limiter ticks, the pool, the tables and the limiter are in a good state, and every
  request got one outcome. No handler panics, the pool is never found empty, and every response is the
  refusal of the limiter or has one of the handlers' status codes and the content type of its body.
\<close>

theorem gateway_stays_sound:
  assumes "gateway_start dial attempt fault cf = Some s" and "length (start_addresses cf) \<le> 2 ^ 31"
    and "\<And>i db. attempt i = Inr db \<Longrightarrow> db_inv db"
    and "gateway_run es s = (outs, s')"
  shows "list_all (\<lambda>out. good_outcome out \<or> out = Done (with_cors rate_limited)) outs \<and> server_state_inv s'"
  using gateway_start_inv [OF assms(1-3)] assms(4) by (rule sound.runs)

theorem gateway_stays_sound_witness:
  "list_all (\<lambda>out. good_outcome out \<or> out = Done (with_cors rate_limited))
     (fst (gateway_run [Serve sample_main_env sample_request, Refill, Serve sample_main_env (bearer sample_token sample_request)]
       sample_server))"
proof -
  let ?es = "[Serve sample_main_env sample_request, Refill, Serve sample_main_env (bearer sample_token sample_request)]"
  obtain outs s' where run: "gateway_run ?es sample_server = (outs, s')" by fastforce
  have "length (start_addresses sample_config) \<le> 2 ^ 31" by (simp add: sample_addresses)
  from gateway_stays_sound [OF sample_start this _ run] show ?thesis unfolding run by simp
qed



text \<open>
  C24. The chain of middleware implements the contract of its parts: a preflight is answered at once and
  changes nothing; a request without a token of the limiter is answered 429 and is only logged, and this is
  the only way a 429 comes about; every other request pays one token, unless its path is exempt, and gets
  what the routes answer. Every response carries the CORS header.
\<close>

theorem finalHandler_contract:
  assumes "server_state_inv s" and "finalHandler me r s = (out, s')"
  shows "(if rq_method r = ''OPTIONS'' then s' = s \<and> (\<exists>resp. out = Done resp \<and> status resp = 200)
    else if \<not> admitted r (ss_limiter s)
    then out = Done (with_cors rate_limited) \<and> s' = s\<lparr>ss_log := ss_log s @ [(rq_method r, rq_path r)]\<rparr>
    else out \<noteq> Done (with_cors rate_limited) \<and> ss_limiter s' = charge r (ss_limiter s) \<and>
      ss_gateway s' = snd (mux me r (ss_gateway s)) \<and>
      (case fst (mux me r (ss_gateway s)) of Done resp \<Rightarrow> out = Done (with_cors resp) | o' \<Rightarrow> out = o')) \<and>
    (case out of Done resp \<Rightarrow> ''Access-Control-Allow-Origin'' \<in> fst ` set (headers resp) | _ \<Rightarrow> True)"
proof -
  have cors: "''Access-Control-Allow-Origin'' \<in> fst ` set (headers (with_cors resp))" for resp
    by (force simp: with_cors_def cors_headers_def)
  note decides = finalHandler_decides [OF assms]
  from assms(2) show ?thesis
  proof (cases rule: finalHandler_cases)
    case preflight
    then show ?thesis by (simp add: cors_headers_def)
  next
    case refused
    then show ?thesis by (simp add: cors)
  next
    case (routed o' g)
    then show ?thesis using decides by (cases o') (simp_all add: cors)
  qed
qed

theorem finalHandler_contract_witness:
  "\<exists>resp. fst (finalHandler sample_main_env (sample_request\<lparr>rq_method := ''OPTIONS''\<rparr>) sample_server) = Done resp \<and>
     status resp = 200"
proof -
  obtain out s' where "finalHandler sample_main_env (sample_request\<lparr>rq_method := ''OPTIONS''\<rparr>) sample_server = (out, s')"
    by fastforce
  from finalHandler_contract [OF sample_server_sound this] this show ?thesis by simp
qed

text \<open>
  C25. Over any history the running gateway limits exactly as the limiter on its own: projecting a run to
  the ticks and the requests that are not preflights gives a run of the limiter with the same decisions
  and the same final state, whatever the handlers do in between.
\<close>

theorem gateway_limits_alike:
  assumes "server_state_inv s" and "gateway_run es s = (outs, s')"
  shows "limiter_run (limiter_events es) (ss_limiter s) = (decisions es outs, ss_limiter s')"
  using assms by (rule gateway_run_limiter)

theorem gateway_limits_alike_witness:
  "snd (limiter_run (limiter_events [Serve sample_main_env sample_request, Refill]) (ss_limiter sample_server)) =
     ss_limiter (snd (gateway_run [Serve sample_main_env sample_request, Refill] sample_server))"
proof -
  obtain outs s' where run: "gateway_run [Serve sample_main_env sample_request, Refill] sample_server = (outs, s')" by fastforce
  show ?thesis using gateway_limits_alike [OF sample_server_sound run] run by simp
qed

text \<open>
  Waiting for the database: the loop returns the first success after as many pauses as attempts
  failed, or the last error after all attempts; without any attempt it returns neither a store nor an error.
\<close>

theorem openStoreWithRetry_outcome:
  "(\<forall>k < n. \<forall>db. (\<forall>j < k. isl (attempt j)) \<longrightarrow> attempt k = Inr db \<longrightarrow>
      openStoreWithRetry attempt n = (Inr db, k)) \<and>
   ((\<forall>j < n. isl (attempt j)) \<longrightarrow>
      openStoreWithRetry attempt n = (Inl (if n = 0 then None else Some (projl (attempt (n - 1)))), n))"
  using retry_loop_found [of _ attempt 0 _ n None] retry_loop_exhausted [of n attempt 0 None]
  by (simp add: openStoreWithRetry_def)

theorem openStoreWithRetry_outcome_witness:
  "openStoreWithRetry (\<lambda>i. if i < 2 then Inl ''refused'' else Inr empty_database) 12 = (Inr empty_database, 2)"
  using openStoreWithRetry_outcome [of 12 "\<lambda>i. if i < 2 then Inl ''refused'' else Inr empty_database"]
  by (simp add: less_2_cases_iff)

text \<open>
  C39. Which configurations start: the gateway ends at start-up exactly when a processor cannot be dialled, when
  a database is configured and either all 12 attempts to open it fail or the migration fails, or when the rate
  limit is outside 1 to \<open>10^9\<close>.
\<close>

theorem gateway_start_fails:
  "gateway_start dial attempt fault cf = None \<longleftrightarrow>
     (\<exists>a \<in> set (start_addresses cf). isl (dial a)) \<or>
     (cf_database_url cf \<noteq> [] \<and> ((\<forall>i < 12. isl (attempt i)) \<or> fault \<noteq> None)) \<or>
     cf_rate_limit cf < 1 \<or> 10 ^ 9 < cf_rate_limit cf"
proof -
  have dial: "isl (fst (NewProcessorPool dial as)) \<longleftrightarrow> (\<exists>a \<in> set as. isl (dial a))" for as
  proof (cases "List.find (\<lambda>a. isl (dial a)) as")
    case None
    moreover have "\<not> (\<exists>a \<in> set as. isl (dial a))" using None by (auto simp: find_None_iff)
    ultimately show ?thesis unfolding NewProcessorPool_def dial_all_spec by simp
  next
    case (Some b)
    then have "\<exists>a \<in> set as. isl (dial a)" by (metis find_None_iff option.distinct(1))
    then show ?thesis unfolding NewProcessorPool_def dial_all_spec by (simp add: Some)
  qed
  have "gateway_start dial attempt fault cf = None \<longleftrightarrow>
      isl (fst (NewProcessorPool dial (start_addresses cf))) \<or> open_store attempt fault cf = None \<or>
      NewRateLimiter (cf_rate_limit cf) = None"
    unfolding gateway_start_def start_addresses_def [symmetric] Let_def
    by (cases "fst (NewProcessorPool dial (start_addresses cf))"; cases "open_store attempt fault cf";
        cases "NewRateLimiter (cf_rate_limit cf)") simp_all
  then show ?thesis unfolding dial open_store_None NewRateLimiter_None by blast
qed

theorem gateway_start_fails_witness:
  "gateway_start (\<lambda>_. Inr 0) (\<lambda>_. Inl ''down'') None (sample_config\<lparr>cf_rate_limit := 0\<rparr>) = None"
  using gateway_start_fails [of "\<lambda>_. Inr 0" "\<lambda>_. Inl ''down''" None "sample_config\<lparr>cf_rate_limit := 0\<rparr>"] by simp

end
