(* ===== verification/Gateway_Accounts.thy ===== *)
theory Gateway_Accounts
  imports Gateway_Facts
begin

text \<open>
  Accounts over the life of the gateway: no request removes or changes a user, so that who has registered can
  log in after any history.
\<close>

section \<open>What requests keep of the store\<close>

definition db_grows :: "database \<Rightarrow> database \<Rightarrow> bool" where
  "db_grows db db' \<longleftrightarrow> migrated db' = migrated db \<and> prefix (users db) (users db')"

definition grows :: "gateway \<Rightarrow> gateway \<Rightarrow> bool" where
  "grows g g' \<longleftrightarrow> g_tokens g' = g_tokens g \<and>
     (g_store g = None \<longrightarrow> g_store g' = None) \<and>
     (\<forall>db. g_store g = Some db \<longrightarrow> (\<exists>db'. g_store g' = Some db' \<and> db_grows db db'))"

lemma db_grows_refl [simp]: "db_grows db db"
  by (simp add: db_grows_def)

lemma db_grows_simps [simp]:
  "db_grows db (snd (SaveSession f u h e db))" "db_grows db (snd (SaveProcessingRun f now run db))"
  by (auto simp: db_grows_def SaveSession_def SaveProcessingRun_def Let_def split: option.splits)

lemma CreateUser_grows: "CreateUser f salt n p db = (r, db') \<Longrightarrow> db_grows db db'"
  by (auto simp: db_grows_def CreateUser_def insert_user_def Let_def
      split: if_splits sum.splits option.splits prod.splits)

lemma grows_refl [simp]: "grows g g"
  by (simp add: grows_def)

lemma grows_simps [simp]:
  "grows g (g'\<lparr>g_metrics := m\<rparr>) = grows g g'" "grows g (g'\<lparr>g_pool := p\<rparr>) = grows g g'"
  "grows (g\<lparr>g_metrics := m\<rparr>) g' = grows g g'" "grows (g\<lparr>g_pool := p\<rparr>) g' = grows g g'"
  "grows g (count_error e g') = grows g g'"
  by (simp_all add: grows_def count_error_def)

lemma grows_store: "g_store g = Some db \<Longrightarrow> db_grows db db' \<Longrightarrow> grows g (g\<lparr>g_store := Some db'\<rparr>)"
  by (simp add: grows_def)

lemma grows_trans: "grows g g' \<Longrightarrow> grows g' g'' \<Longrightarrow> grows g g''"
  by (fastforce simp: grows_def db_grows_def intro: prefix_order.trans)

section \<open>Every handler\<close>

lemma grows_writeToken: "writeToken env u g = Some (resp, g') \<Longrightarrow> grows g g'"
  by (auto simp: writeToken_def Let_def split: option.splits prod.splits intro: grows_store)

lemma grows_HandleRegister: "HandleRegister env r g = Some (resp, g') \<Longrightarrow> grows g g'"
  by (auto simp: HandleRegister_def split: if_splits option.splits prod.splits sum.splits
      intro: grows_store CreateUser_grows grows_trans [OF grows_store [OF _ CreateUser_grows] grows_writeToken])

lemma grows_HandleLogin: "HandleLogin env r g = Some (resp, g') \<Longrightarrow> grows g g'"
  by (auto simp: HandleLogin_def split: if_splits option.splits prod.splits sum.splits intro: grows_writeToken)

lemma grows_process_frame: "process_frame env u req data g = (resp, g') \<Longrightarrow> grows g g'"
  by (auto simp: process_frame_def Let_def grows_def count_error_def split: sum.splits option.splits prod.splits)

lemma grows_HandleProcessFrame: "HandleProcessFrame env r g = (resp, g') \<Longrightarrow> grows g g'"
  by (auto simp: HandleProcessFrame_def Let_def split: if_splits option.splits sum.splits
      dest: grows_process_frame)

lemma grows_others:
  "HandleProcessStream env pf r g = (out, g') \<Longrightarrow> grows g g'"
  "HandleWebSocket env ok ins r g = (out', g') \<Longrightarrow> grows g g'"
  "HandleMe env r g = (resp, g') \<Longrightarrow> grows g g'"
  "HandleHistory env r g = (resp, g') \<Longrightarrow> grows g g'"
  "HandleHealth env r g = (resp, g') \<Longrightarrow> grows g g'"
  "HandleAdminProcessorsStats env r g = (resp, g') \<Longrightarrow> grows g g'"
  "HandleAdminRouting env r g = (resp, g') \<Longrightarrow> grows g g'"
  "HandleStats env r g = (resp, g') \<Longrightarrow> grows g g'"
  "HandleRuntime env r g = (resp, g') \<Longrightarrow> grows g g'"
  "HandleRoot env r g = (resp, g') \<Longrightarrow> grows g g'"
  "HandleLoginPage env r g = (resp, g') \<Longrightarrow> grows g g'"
  "HandlePanelPage page env r g = (resp, g') \<Longrightarrow> grows g g'"
  "HandleLogout env r g = (resp, g') \<Longrightarrow> grows g g'"
  by (auto simp: HandleProcessStream_def HandleWebSocket_def HandleMe_def HandleHistory_def HandleHealth_def
      HandleAdminProcessorsStats_def HandleAdminRouting_def HandleStats_def HandleRuntime_def HandleRoot_def
      HandleLoginPage_def HandlePanelPage_def HandleLogout_def Let_def
      split: if_splits sum.splits option.splits prod.splits)

lemma grows_mux: "mux me r g = (out, g') \<Longrightarrow> grows g g'"
  by (auto simp: mux_def Let_def answered_def answered_or_panic_def
      split: if_splits prod.splits option.splits sum.splits
      dest: grows_HandleRegister grows_HandleLogin grows_HandleProcessFrame grows_others)

lemma grows_finalHandler: "finalHandler me r s = (out, s') \<Longrightarrow> grows (ss_gateway s) (ss_gateway s')"
  by (elim finalHandler_cases) (auto dest: grows_mux)

text \<open>A second reading of a run: relative to a gateway \<open>g\<close> that it started from, nothing is lost.\<close>

interpretation kept: run_invariant "\<lambda>s. grows g (ss_gateway s)" "\<lambda>out. True" for g
  by unfold_locales (auto intro: grows_trans grows_finalHandler)

section \<open>Logging in again\<close>

lemma Authenticate_grows:
  "db_grows db db' \<Longrightarrow> Authenticate None n p db = Inr u \<Longrightarrow> Authenticate None n p db' = Inr u"
  by (auto simp: db_grows_def prefix_def Authenticate_def statement_error_def find_append
      split: option.splits if_splits)

lemma login_after_run:
  assumes "g_store g = Some db" "Authenticate None n p db = Inr u" "grows g g'" "g_tokens g = Some m"
    and "rq_method r = ''POST''" "rq_auth_json r = Some (n, p)" "he_user_fault env = None"
  shows "\<exists>token e g''. HandleLogin env r g' = Some ((json_response 200 (AuthBody token e u))\<lparr>auth_cookie := Some (token,
      fl_to_int (duration_seconds (word_of_int (e - he_cookie_now env))))\<rparr>, g'') \<and>
    Issue m (he_now env) u = (token, e)"
proof -
  obtain db' where db': "g_store g' = Some db'" "db_grows db db'" and tok: "g_tokens g' = Some m"
    using assms(1,3,4) by (auto simp: grows_def)
  have "Authenticate None n p db' = Inr u" using Authenticate_grows [OF db'(2) assms(2)] .
  moreover obtain token e where "Issue m (he_now env) u = (token, e)" by fastforce
  ultimately show ?thesis
    using db'(1) tok assms(5-7) by (simp add: HandleLogin_def writeToken_def Let_def)
qed

section \<open>Properties\<close>

text \<open>
  An account lasts: when a registration through the gateway has been accepted, then after any further history
  of requests and ticks, whatever their faults, a login with that name and password is accepted as that user, and
  the token in its answer is one the gateway verifies as that user until its expiry.
\<close>

theorem accounts_last:
  assumes "server_state_inv s" and "g_store (ss_gateway s) = Some db" and "g_tokens (ss_gateway s) = Some m"
    and "HandleRegister env r (ss_gateway s) = Some (resp, g1)" and "status resp = 200"
    and "rq_auth_json r = Some (n, p)" and "he_user_fault env = None"
    and "gateway_run es (s\<lparr>ss_gateway := g1\<rparr>) = (outs, s')"
    and "rq_method r' = ''POST''" and "rq_auth_json r' = Some (n, p)" and "he_user_fault later = None"
    and "CHR '':'' \<notin> set n" and "in_i64 (unix (he_now later + sint (ttl m)))"
    and "unix t \<le> unix (he_now later + sint (ttl m))"
  shows "\<exists>resp' g' token e u. HandleLogin later r' (ss_gateway s') = Some (resp', g') \<and> status resp' = 200 \<and>
    body resp' = AuthBody token e u \<and> Username u = n \<and> Verify m t token = Inr u"
proof -
  let ?g = "ss_gateway s"
  have inv: "db_inv db" using assms(1,2) by (simp add: server_state_inv_def gateway_inv_def)
  obtain u db1 where create: "CreateUser None (he_salt env) n p db = (Inr u, db1)"
    and issued: "writeToken env u (?g\<lparr>g_store := Some db1\<rparr>) = Some (resp, g1)"
    using assms(2,4-7) by (auto simp: HandleRegister_def method_not_allowed_def http_error_def
        split: if_splits option.splits prod.splits sum.splits)
  have mig: "migrated db" using create by (auto simp: CreateUser_def statement_error_def
        split: if_splits sum.splits option.splits prod.splits)
  obtain salt where salt: "he_salt env = Inr salt" using CreateUser_cases [OF inv create] by auto
  have login: "Authenticate None n p db1 = Inr u" "Username u = n"
    using store.create_login [of db salt n p u db1] create inv mig by (simp_all add: salt)
  have "grows (?g\<lparr>g_store := Some db1\<rparr>) (ss_gateway s')"
    using grows_trans [OF grows_writeToken [OF issued]] kept.runs [of g1 "s\<lparr>ss_gateway := g1\<rparr>" es outs s'] assms(8)
    by simp
  from login_after_run [OF _ login(1) this, of m r' later] assms(3,9-11) obtain token e g'
    where ok: "HandleLogin later r' (ss_gateway s') = Some ((json_response 200 (AuthBody token e u))\<lparr>auth_cookie := Some (token,
      fl_to_int (duration_seconds (word_of_int (e - he_cookie_now later))))\<rparr>, g')"
      "Issue m (he_now later) u = (token, e)" by auto
  have "Verify m t token = Inr u"
    using Issue_verifies [of u "he_now later" m t] assms(12-14) login(2) ok(2) by simp
  then show ?thesis using ok(1) login(2) by (auto simp: json_response_def)
qed

theorem accounts_last_witness:
  "\<exists>g1 s' resp' g' token e u.
     gateway_run [Refill, Serve sample_main_env sample_request]
       \<lparr>ss_limiter = \<lparr>capacity = 1, tokens = 1, period = 1000000000\<rparr>, ss_gateway = g1, ss_log = []\<rparr> = s' \<and>
     HandleLogin sample_http_env sample_request (ss_gateway (snd s')) = Some (resp', g') \<and> status resp' = 200 \<and>
     body resp' = AuthBody token e u \<and> Username u = ''ann''"
proof -
  let ?rl = "\<lparr>capacity = 1, tokens = 1, period = 1000000000\<rparr>"
  let ?s = "\<lparr>ss_limiter = ?rl, ss_gateway = sample_gateway, ss_log = []\<rparr>"
  let ?es = "[Refill, Serve sample_main_env sample_request]"
  have inv: "server_state_inv ?s"
    by (simp add: server_state_inv_def gateway_inv_def sample_gateway_def fresh_pool_inv Migrate_inv empty_database_inv)
      (simp add: fresh_pool_def)
  obtain resp g1 where reg: "HandleRegister sample_http_env sample_request (ss_gateway ?s) = Some (resp, g1)"
    "status resp = 200" using sample_register by auto
  obtain outs s' where run: "gateway_run ?es (?s\<lparr>ss_gateway := g1\<rparr>) = (outs, s')" by fastforce
  have "\<exists>resp' g' token e u. HandleLogin sample_http_env sample_request (ss_gateway s') = Some (resp', g') \<and>
      status resp' = 200 \<and> body resp' = AuthBody token e u \<and> Username u = ''ann'' \<and> Verify sample_manager 0 token = Inr u"
    by (rule accounts_last [OF inv _ _ reg _ _ run, where db = "snd (Migrate None empty_database)" and p = "''pw''"])
      (simp_all add: sample_request_def sample_gateway_def sample_manager_def NewTokenManager_def sample_http_env_def
        unix_def in_i64_def)
  then show ?thesis using run by (intro exI [of _ g1] exI [of _ "(outs, s')"]) auto
qed

end
