(* ===== verification/Gateway_Concurrent.thy ===== *)
theory Gateway_Concurrent
  imports Gateway_Accounts
begin

text \<open>
  The gateway with many requests at once. \<open>net/http\<close> serves every connection in a goroutine of its own; what the
  goroutines share are the instruments, the pool of processors, the database and the bucket of the limiter, and
  each method of these takes effect at one moment (a Prometheus update, a call under the pool's lock, a
  statement of the database, a receive from the bucket's channel), but for \<open>SetSticky\<close>, which has two.

  A request is here the tree of the accesses its handler makes, branching on what they return; everything between
  two accesses is local. Requests arrive at any time and their accesses interleave in any way.
\<close>

section \<open>Accesses\<close>

datatype meter =
    CountRequest string
  | CountError string
  | CountFrame
  | CountPayload string int
  | Latency string i64

fun metered :: "meter \<Rightarrow> Metrics \<Rightarrow> Metrics" where
  "metered (CountRequest e) = IncrementRequests e"
| "metered (CountError e) = IncrementErrors e"
| "metered CountFrame = IncrementProcessedFrames"
| "metered (CountPayload e n) = AddRequestPayloadBytes e n"
| "metered (Latency e d) = RecordLatency e d"

text \<open>
  \<open>CheckIndex\<close> and \<open>StoreIndex\<close> are the two halves of \<open>SetSticky\<close>. \<open>ReadPool\<close> stands for the reading methods; the
  list of clients is written only by \<open>Close\<close>, when the server has stopped.
\<close>

datatype thread =
    Return outcome
  | Meter meter thread
  | Route "error + ProcessorClient \<Rightarrow> thread"
  | CheckIndex int "bool \<Rightarrow> thread"
  | StoreIndex int thread
  | ReadPool "ProcessorPool \<Rightarrow> thread"
  | InsertUser "string option" "string + bytes" string string "string + User \<Rightarrow> thread"
  | SelectUser "string option" string string "string + User \<Rightarrow> thread"
  | InsertSession "string option" int string int thread
  | InsertRun "string option" int ProcessingRun thread
  | SelectRuns "string option" int int "string + ProcessingRun list \<Rightarrow> thread"

text \<open>A method of the store; on a nil store it panics.\<close>

definition statement :: "(database \<Rightarrow> 'a \<times> database) \<Rightarrow> ('a \<Rightarrow> thread) \<Rightarrow> gateway \<Rightarrow> thread \<times> gateway" where
  "statement f k g = (case g_store g of
     None \<Rightarrow> (Return Panicked, g)
   | Some db \<Rightarrow> (case f db of (x, db) \<Rightarrow> (k x, g\<lparr>g_store := Some db\<rparr>)))"

fun access :: "thread \<Rightarrow> gateway \<Rightarrow> thread \<times> gateway" where
  "access (Return out) g = (Return out, g)"
| "access (Meter m t) g = (t, g\<lparr>g_metrics := metered m (g_metrics g)\<rparr>)"
| "access (Route k) g = (case Get (g_pool g) of (res, p) \<Rightarrow> (k res, g\<lparr>g_pool := p\<rparr>))"
| "access (CheckIndex i k) g = (k (i < int (length (clients (g_pool g)))), g)"
| "access (StoreIndex i t) g = (t, g\<lparr>g_pool := store_sticky i (g_pool g)\<rparr>)"
| "access (ReadPool k) g = (k (g_pool g), g)"
| "access (InsertUser f salt n p k) g = statement (CreateUser f salt n p) k g"
| "access (SelectUser f n p k) g = statement (\<lambda>db. (Authenticate f n p db, db)) k g"
| "access (InsertSession f u h e t) g = statement (SaveSession f u h e) (\<lambda>_. t) g"
| "access (InsertRun f now run t) g = statement (SaveProcessingRun f now run) (\<lambda>_. t) g"
| "access (SelectRuns f u n k) g = statement (\<lambda>db. (RecentRuns f u n db, db)) k g"

section \<open>The handlers as threads\<close>

text \<open>
  Of the gateway \<open>g\<close> a handler reads, besides its accesses, only the pointers \<open>h.tokens\<close> and \<open>h.store\<close>, which no
  one writes.
\<close>

definition asUser :: "http_env \<Rightarrow> request \<Rightarrow> gateway \<Rightarrow> (User \<Rightarrow> thread) \<Rightarrow> thread" where
  "asUser env r g k = (case currentUser env g r of Inl resp \<Rightarrow> Return (Done resp) | Inr user \<Rightarrow> k user)"

definition writeToken_thread :: "http_env \<Rightarrow> User \<Rightarrow> gateway \<Rightarrow> thread" where
  "writeToken_thread env user g = (case g_tokens g of
     None \<Rightarrow> Return Panicked
   | Some m \<Rightarrow>
       (case Issue m (he_now env) user of (token, expiresAt) \<Rightarrow>
        let age = fl_to_int (duration_seconds (word_of_int (expiresAt - he_cookie_now env)));
            answer = Return (Done ((json_response 200 (AuthBody token expiresAt user))\<lparr>auth_cookie := Some (token, age)\<rparr>))
        in if g_store g = None then answer
           else InsertSession (he_save_fault env) (sint (ID user)) (HashToken token) expiresAt answer))"

definition HandleRegister_thread :: "http_env \<Rightarrow> request \<Rightarrow> gateway \<Rightarrow> thread" where
  "HandleRegister_thread env r g =
     (if rq_method r \<noteq> ''POST'' then Return (Done method_not_allowed)
      else if g_store g = None then Return (Done no_storage)
      else case rq_auth_json r of
        None \<Rightarrow> Return (Done (http_error ''Invalid request body'' 400))
      | Some (username, password) \<Rightarrow> InsertUser (he_user_fault env) (he_salt env) username password (\<lambda>res.
          case res of Inl e \<Rightarrow> Return (Done (http_error e 400)) | Inr user \<Rightarrow> writeToken_thread env user g))"

definition HandleLogin_thread :: "http_env \<Rightarrow> request \<Rightarrow> gateway \<Rightarrow> thread" where
  "HandleLogin_thread env r g =
     (if rq_method r \<noteq> ''POST'' then Return (Done method_not_allowed)
      else if g_store g = None then Return (Done no_storage)
      else case rq_auth_json r of
        None \<Rightarrow> Return (Done (http_error ''Invalid request body'' 400))
      | Some (username, password) \<Rightarrow> SelectUser (he_user_fault env) username password (\<lambda>res.
          case res of Inl e \<Rightarrow> Return (Done (http_error e 401)) | Inr user \<Rightarrow> writeToken_thread env user g))"

definition HandleHistory_thread :: "http_env \<Rightarrow> request \<Rightarrow> gateway \<Rightarrow> thread" where
  "HandleHistory_thread env r g = asUser env r g (\<lambda>user.
     if g_store g = None then Return (Done no_storage)
     else SelectRuns (he_user_fault env) (sint (ID user)) 30 (\<lambda>res. Return (Done (case res of
       Inl e \<Rightarrow> http_error e 500 | Inr runs \<Rightarrow> json_response 200 (RunsBody runs)))))"

definition frame_response :: "string \<Rightarrow> ProcessedChunk \<Rightarrow> ProcessFrameResponse" where
  "frame_response memoryMode result = \<lparr>fp_Data = std_encode (pc_Data result), fp_Success = pc_Success result,
     fp_ProcessingTimeMs = nanoseconds_ms (pc_ProcessingTimeNs result), fp_MemoryMode = memoryMode,
     fp_Error = pc_ErrorMessage result\<rparr>"

definition processed_thread ::
  "http_env \<Rightarrow> User \<Rightarrow> ProcessFrameRequest \<Rightarrow> ProcessedChunk \<Rightarrow> gateway \<Rightarrow> thread" where
  "processed_thread env user req result g = (
     let resp = frame_response (normalizeMemoryMode_http (fr_MemoryMode req)) result;
         answer = Meter (Latency ''process_frame'' (he_latency env)) (Meter CountFrame
           (Return (Done (json_response 200 (FrameBody resp)))))
     in if g_store g = None then answer
        else InsertRun (he_save_fault env) (he_db_now env) (frame_run user req resp) answer)"

definition process_frame_thread ::
  "http_env \<Rightarrow> User \<Rightarrow> ProcessFrameRequest \<Rightarrow> bytes \<Rightarrow> gateway \<Rightarrow> thread" where
  "process_frame_thread env user req data g = Meter (CountPayload ''process_frame'' (int (length data))) (Route (\<lambda>res.
     case res of
       Inl e \<Rightarrow> Meter (CountError ''pool_error'') (Return (Done no_processors))
     | Inr client \<Rightarrow> (case he_call env client (frame_chunk env req data MEDIA_TYPE_IMAGE 1)
           (normalizeMemoryMode_http (fr_MemoryMode req)) of
         Inl e \<Rightarrow> Meter (CountError ''processing_error'') (Return (Done (http_error (''Processing error: '' @ e) 500)))
       | Inr result \<Rightarrow> processed_thread env user req result g)))"

definition HandleProcessFrame_thread :: "http_env \<Rightarrow> request \<Rightarrow> gateway \<Rightarrow> thread" where
  "HandleProcessFrame_thread env r g =
     (if rq_method r \<noteq> ''POST'' then Return (Done method_not_allowed)
      else asUser env r g (\<lambda>user. Meter (CountRequest ''process_frame'') (
        case rq_frame_json r of
          None \<Rightarrow> Meter (CountError ''invalid_request'') (Return (Done (http_error ''Invalid request body'' 400)))
        | Some req \<Rightarrow> (case std_decode (fr_Data req) of
            None \<Rightarrow> Meter (CountError ''decode_error'') (Return (Done (http_error ''Invalid base64 data'' 400)))
          | Some data \<Rightarrow>
              let expectedSize = wrap64 (fr_Width req * fr_Height req * 3) in
              if int (length data) \<noteq> expectedSize
              then Meter (CountError ''size_mismatch'') (Return (Done (http_error (mismatch_error expectedSize (length data)) 400)))
              else process_frame_thread env user req data g))))"

text \<open>The stream handler up to its goroutines, whose own accesses \<open>stream_metrics\<close> sums up.\<close>

definition HandleProcessStream_thread :: "http_env \<Rightarrow> (string \<Rightarrow> fl) \<Rightarrow> request \<Rightarrow> gateway \<Rightarrow> thread" where
  "HandleProcessStream_thread env parse_float r g =
     (if rq_method r \<noteq> ''POST'' then Return (Done method_not_allowed)
      else asUser env r g (\<lambda>user. Meter (CountRequest ''process_stream'') (Route (\<lambda>res. Return (
        case res of
          Inl e \<Rightarrow> Done no_processors
        | Inr client \<Rightarrow> let sp = stream_query parse_float r in
            Streaming client (sp_memoryMode sp) (stream_feed env sp (rq_raw r)))))))"

fun ws_thread :: "http_env \<Rightarrow> ProcessorClient \<Rightarrow> (ws_in \<times> bool) list \<Rightarrow> ws_out list \<Rightarrow> thread" where
  "ws_thread env client [] outs = Return (Socket outs)"
| "ws_thread env client ((WsClosed, lost) # ins) outs = Return (Socket outs)"
| "ws_thread env client ((WsMessage None, lost) # ins) outs = ws_thread env client ins (outs @ [WsError ''Invalid JSON''])"
| "ws_thread env client ((WsMessage (Some req), lost) # ins) outs = (case std_decode (fr_Data req) of
     None \<Rightarrow> ws_thread env client ins (outs @ [WsError ''Invalid base64''])
   | Some data \<Rightarrow> Meter (CountPayload ''websocket'' (int (length data)))
       (case he_call env client (frame_chunk env req data MEDIA_TYPE_VIDEO 0)
            (normalizeMemoryMode_http (fr_MemoryMode req)) of
         Inl e \<Rightarrow> ws_thread env client ins (outs @ [WsError e])
       | Inr result \<Rightarrow> Meter CountFrame
           (if lost then Return (Socket outs)
            else ws_thread env client ins (outs @ [WsFrame ((frame_response
              (normalizeMemoryMode_http (fr_MemoryMode req)) result)\<lparr>fp_Error := []\<rparr>)]))))"

definition HandleWebSocket_thread :: "http_env \<Rightarrow> bool \<Rightarrow> (ws_in \<times> bool) list \<Rightarrow> request \<Rightarrow> gateway \<Rightarrow> thread" where
  "HandleWebSocket_thread env upgrade_ok ins r g = Meter (CountRequest ''websocket'') (asUser env r g (\<lambda>user.
     if \<not> upgrade_ok then Meter (CountError ''websocket_upgrade_error'') (Return (Socket []))
     else Route (\<lambda>res. case res of
       Inl e \<Rightarrow> Return (Socket [WsError ''No available processors''])
     | Inr client \<Rightarrow> ws_thread env client ins [])))"

definition HandleStats_thread :: "http_env \<Rightarrow> request \<Rightarrow> gateway \<Rightarrow> thread" where
  "HandleStats_thread env r g = asUser env r g (\<lambda>user. Route (\<lambda>res. Return (Done (case res of
     Inl e \<Rightarrow> no_processors
   | Inr client \<Rightarrow> (case he_get_stats env client of
       Inl e \<Rightarrow> stats_failed e | Inr st \<Rightarrow> json_response 200 (StatsBody st))))))"

definition HandleRuntime_thread :: "http_env \<Rightarrow> thread" where
  "HandleRuntime_thread env = Route (\<lambda>res. Return (Done (case res of
     Inl e \<Rightarrow> no_processors
   | Inr client \<Rightarrow> (case he_get_stats env client of
       Inl e \<Rightarrow> stats_failed e
     | Inr st \<Rightarrow> (json_response 200 (RuntimeBody (runtime_of st)))\<lparr>headers :=
         [(''Content-Type'', ''application/json''), (''Access-Control-Allow-Origin'', ''*'')]\<rparr>))))"

definition HandleHealth_thread :: "http_env \<Rightarrow> thread" where
  "HandleHealth_thread env = ReadPool (\<lambda>p. let health = HealthCheck (he_get_stats env) p in
     Return (Done (if all_healthy health then json_response 200 (HealthBody ''healthy'' health)
       else json_response 503 (HealthBody ''degraded'' health))))"

definition HandleAdminRouting_thread :: "http_env \<Rightarrow> request \<Rightarrow> gateway \<Rightarrow> thread" where
  "HandleAdminRouting_thread env r g = asUser env r g (\<lambda>user.
     if rq_method r = ''GET'' then
       ReadPool (\<lambda>p. ReadPool (\<lambda>p'. ReadPool (\<lambda>p''. Return (Done (json_response 200 (RoutingBody
         (if 0 \<le> GetSticky p'' then ''fixed'' else ''round_robin'') (GetSticky p'') (Addrs p')
         (HealthCheck (he_get_stats env) p)))))))
     else if rq_method r = ''POST'' then (case rq_routing_json r of
       None \<Rightarrow> Return (Done (http_error ''Invalid JSON'' 400))
     | Some (mode, sticky_index) \<Rightarrow> (case routing_index mode sticky_index of
         Inl e \<Rightarrow> Return (Done (http_error e 400))
       | Inr i \<Rightarrow> CheckIndex i (\<lambda>ok.
           if ok then StoreIndex i (Return (Done (json_response 200 (StatusBody ''ok''))))
           else Return (Done (http_error out_of_range 400)))))
     else Return (Done method_not_allowed))"

definition HandleAdminProcessorsStats_thread :: "http_env \<Rightarrow> request \<Rightarrow> gateway \<Rightarrow> thread" where
  "HandleAdminProcessorsStats_thread env r g =
     (if rq_method r \<noteq> ''GET'' then Return (Done method_not_allowed)
      else asUser env r g (\<lambda>user. ReadPool (\<lambda>p. Return (Done (json_response 200 (ProcStatsBody
        (concat (map (\<lambda>i. case ClientAt p i of Inl e \<Rightarrow> [] | Inr c \<Rightarrow> [proc_stats_row env i c])
          [0..Count p - 1]))))))))"

text \<open>The other handlers touch nothing that is shared.\<close>

definition mux_thread :: "main_env \<Rightarrow> request \<Rightarrow> gateway \<Rightarrow> thread" where
  "mux_thread me r g = (let env = me_http me; path = rq_path r in
     if path = ''/api/register'' then HandleRegister_thread env r g
     else if path = ''/api/login'' then HandleLogin_thread env r g
     else if path = ''/api/history'' then HandleHistory_thread env r g
     else if path = ''/api/process'' \<or> path = ''/process'' then HandleProcessFrame_thread env r g
     else if path = ''/api/stream'' then HandleProcessStream_thread env (me_parse_float me) r g
     else if path = ''/ws'' then HandleWebSocket_thread env (me_upgrade_ok me) (me_messages me) r g
     else if path = ''/health'' then HandleHealth_thread env
     else if path = ''/stats'' then HandleStats_thread env r g
     else if path = ''/runtime'' then HandleRuntime_thread env
     else if path = ''/api/admin/routing'' then HandleAdminRouting_thread env r g
     else if path = ''/api/admin/processors/stats'' then HandleAdminProcessorsStats_thread env r g
     else Return (fst (mux me r g)))"

section \<open>A thread alone\<close>

text \<open>All accesses of a thread in a row, with no other in between.\<close>

primrec alone :: "thread \<Rightarrow> gateway \<Rightarrow> outcome \<times> gateway" where
  "alone (Return out) g = (out, g)"
| "alone (Meter m t) g = alone t (g\<lparr>g_metrics := metered m (g_metrics g)\<rparr>)"
| "alone (Route k) g = alone (k (fst (Get (g_pool g)))) (g\<lparr>g_pool := snd (Get (g_pool g))\<rparr>)"
| "alone (CheckIndex i k) g = alone (k (i < int (length (clients (g_pool g))))) g"
| "alone (StoreIndex i t) g = alone t (g\<lparr>g_pool := store_sticky i (g_pool g)\<rparr>)"
| "alone (ReadPool k) g = alone (k (g_pool g)) g"
| "alone (InsertUser f salt n p k) g = (case g_store g of None \<Rightarrow> (Panicked, g)
     | Some db \<Rightarrow> alone (k (fst (CreateUser f salt n p db))) (g\<lparr>g_store := Some (snd (CreateUser f salt n p db))\<rparr>))"
| "alone (SelectUser f n p k) g = (case g_store g of None \<Rightarrow> (Panicked, g)
     | Some db \<Rightarrow> alone (k (Authenticate f n p db)) g)"
| "alone (InsertSession f u h e t) g = (case g_store g of None \<Rightarrow> (Panicked, g)
     | Some db \<Rightarrow> alone t (g\<lparr>g_store := Some (snd (SaveSession f u h e db))\<rparr>))"
| "alone (InsertRun f now run t) g = (case g_store g of None \<Rightarrow> (Panicked, g)
     | Some db \<Rightarrow> alone t (g\<lparr>g_store := Some (snd (SaveProcessingRun f now run db))\<rparr>))"
| "alone (SelectRuns f u n k) g = (case g_store g of None \<Rightarrow> (Panicked, g)
     | Some db \<Rightarrow> alone (k (RecentRuns f u n db)) g)"

lemma store_same [simp]: "g_store g = Some db \<Longrightarrow> g\<lparr>g_store := Some db\<rparr> = g"
  by simp

lemma access_alone: "access t g = (t', g') \<Longrightarrow> alone t' g' = alone t g"
  by (cases t) (auto simp: statement_def split: prod.splits option.splits)

lemma access_induct [case_names return access]:
  assumes "\<And>out. P (Return out)"
    and "\<And>t. (\<And>out. t \<noteq> Return out) \<Longrightarrow> (\<And>g. P (fst (access t g))) \<Longrightarrow> P t"
  shows "P t"
proof (induction t)
  case (Return out)
  then show ?case by (rule assms(1))
qed (rule assms(2), auto simp: statement_def assms(1) split: option.splits prod.splits)+

section \<open>The front of the server\<close>

text \<open>A request that has arrived is a running thread or an answer; requests are known by their position.\<close>

datatype conversation = Running request thread | Answered outcome

record busy_gateway =
  server :: server_state
  conversations :: "conversation list"

datatype front_event = Arrives main_env request | Acts nat | Ticks

definition preflight :: outcome where
  "preflight = Done \<lparr>status = 200, headers = cors_headers, auth_cookie = None, body = NoBody\<rparr>"

text \<open>CORS, logging and the limiter up to the handler; the only shared access is the receive from the bucket.\<close>

definition arrives :: "main_env \<Rightarrow> request \<Rightarrow> busy_gateway \<Rightarrow> busy_gateway" where
  "arrives me r s =
     (if rq_method r = ''OPTIONS'' then s\<lparr>conversations := conversations s @ [Answered preflight]\<rparr>
      else case limit_middleware rq_path (Return (Done rate_limited)) (\<lambda>r g. (mux_thread me r g, g)) r
          (ss_limiter (server s), ss_gateway (server s)) of
        (t, rl, g) \<Rightarrow> s\<lparr>server := (server s)\<lparr>ss_limiter := rl\<rparr>, conversations := conversations s @ [Running r t]\<rparr>)"

text \<open>The way back: the chain behind a handler that has ended with \<open>out\<close>.\<close>

definition leaves :: "request \<Rightarrow> outcome \<Rightarrow> server_state \<Rightarrow> outcome \<times> server_state" where
  "leaves r out = corsMiddleware (loggingMiddleware (\<lambda>r s. (out, s))) r"

definition acts :: "nat \<Rightarrow> busy_gateway \<Rightarrow> busy_gateway" where
  "acts i s =
     (if i < length (conversations s) then (case conversations s ! i of
        Answered out \<Rightarrow> s
      | Running r (Return out) \<Rightarrow> (case leaves r out (server s) of
          (out, sv) \<Rightarrow> \<lparr>server = sv, conversations = (conversations s)[i := Answered out]\<rparr>)
      | Running r t \<Rightarrow> (case access t (ss_gateway (server s)) of
          (t, g) \<Rightarrow> \<lparr>server = (server s)\<lparr>ss_gateway := g\<rparr>, conversations = (conversations s)[i := Running r t]\<rparr>))
      else s)"

definition ticks_front :: "busy_gateway \<Rightarrow> busy_gateway" where
  "ticks_front s = s\<lparr>server := (server s)\<lparr>ss_limiter := refill (ss_limiter (server s))\<rparr>\<rparr>"

fun front_step :: "front_event \<Rightarrow> busy_gateway \<Rightarrow> busy_gateway" where
  "front_step (Arrives me r) s = arrives me r s"
| "front_step (Acts i) s = acts i s"
| "front_step Ticks s = ticks_front s"

definition front_run :: "front_event list \<Rightarrow> busy_gateway \<Rightarrow> busy_gateway" where
  "front_run es s = fold front_step es s"

lemma front_run_simps [simp]:
  "front_run [] s = s" "front_run (e # es) s = front_run es (front_step e s)"
  "front_run (es @ es') s = front_run es' (front_run es s)"
  by (simp_all add: front_run_def)

lemma acts_cases:
  obtains (idle) "acts i s = s" "\<And>r t. i < length (conversations s) \<Longrightarrow> conversations s ! i \<noteq> Running r t"
  | (left) r out where "i < length (conversations s)" "conversations s ! i = Running r (Return out)"
      "acts i s = \<lparr>server = snd (leaves r out (server s)),
         conversations = (conversations s)[i := Answered (fst (leaves r out (server s)))]\<rparr>"
  | (accessed) r t t' g' where "i < length (conversations s)" "conversations s ! i = Running r t"
      "\<And>out. t \<noteq> Return out" "access t (ss_gateway (server s)) = (t', g')"
      "acts i s = \<lparr>server = (server s)\<lparr>ss_gateway := g'\<rparr>, conversations = (conversations s)[i := Running r t']\<rparr>"
proof (cases "i < length (conversations s)")
  case True
  show thesis
  proof (cases "conversations s ! i")
    case (Running r t)
    show thesis
    proof (cases "\<exists>out. t = Return out")
      case True
      then show thesis using left \<open>i < length _\<close> Running by (auto simp: acts_def split: prod.splits)
    next
      case no: False
      obtain t' g' where acc: "access t (ss_gateway (server s)) = (t', g')" by fastforce
      have "acts i s = \<lparr>server = (server s)\<lparr>ss_gateway := g'\<rparr>, conversations = (conversations s)[i := Running r t']\<rparr>"
        using True Running no acc by (cases t) (auto simp: acts_def)
      then show thesis using accessed True Running no acc by blast
    qed
  next
    case (Answered out)
    then show thesis using idle True by (simp add: acts_def)
  qed
qed (simp add: acts_def idle)

section \<open>A request served at once\<close>

lemma leaves_simps:
  "rq_method r \<noteq> ''OPTIONS'' \<Longrightarrow> leaves r out s =
     (case out of Done resp \<Rightarrow> Done (with_cors resp) | _ \<Rightarrow> out,
      if out = Panicked then s else s\<lparr>ss_log := ss_log s @ [(rq_method r, rq_path r)]\<rparr>)"
  by (simp add: leaves_def corsMiddleware_def loggingMiddleware_def split: outcome.splits)

text \<open>Scheduled on its own, a thread gets to its outcome.\<close>

lemma acts_until_return:
  assumes "conversations s = cs @ [Running r t]" "alone t (ss_gateway (server s)) = (out, g)"
  shows "\<exists>n. front_run (replicate n (Acts (length cs))) s =
    \<lparr>server = (server s)\<lparr>ss_gateway := g\<rparr>, conversations = cs @ [Running r (Return out)]\<rparr>"
  using assms
proof (induction t arbitrary: s rule: access_induct)
  case (return o')
  then show ?case by (intro exI [of _ 0]) simp
next
  case (access t)
  obtain t' g' where acc: "access t (ss_gateway (server s)) = (t', g')" by fastforce
  let ?s = "\<lparr>server = (server s)\<lparr>ss_gateway := g'\<rparr>, conversations = cs @ [Running r t']\<rparr>"
  have "front_step (Acts (length cs)) s = ?s"
    using access.hyps access.prems(1) acc by (cases t) (auto simp: acts_def)
  moreover have "\<exists>n. front_run (replicate n (Acts (length cs))) ?s =
      \<lparr>server = (server s)\<lparr>ss_gateway := g\<rparr>, conversations = cs @ [Running r (Return out)]\<rparr>"
    using access.IH [where g = "ss_gateway (server s)" and s = ?s] access.prems acc access_alone [OF acc] by simp
  ultimately show ?case by (metis front_run_simps(2) replicate_Suc)
qed

section \<open>Every handler alone is the handler\<close>

lemma alone_asUser: "alone (asUser env r g k) g' =
    (case currentUser env g r of Inl resp \<Rightarrow> (Done resp, g') | Inr user \<Rightarrow> alone (k user) g')"
  by (simp add: asUser_def split: sum.split)

lemma alone_writeToken:
  "g_tokens g \<noteq> None \<Longrightarrow> g_store g' = None \<longleftrightarrow> g_store g = None \<Longrightarrow> g_tokens g' = g_tokens g \<Longrightarrow>
    alone (writeToken_thread env user g) g' = answered_or_panic g'' (writeToken env user g')"
  by (auto simp: writeToken_thread_def writeToken_def answered_or_panic_def Let_def split: option.splits prod.splits)

lemma alone_register:
  "g_tokens g \<noteq> None \<Longrightarrow> alone (HandleRegister_thread env r g) g = answered_or_panic g (HandleRegister env r g)"
  by (auto simp: HandleRegister_thread_def HandleRegister_def answered_or_panic_def alone_writeToken [where g'' = g]
      split: option.split prod.split sum.split)

lemma alone_login:
  "g_tokens g \<noteq> None \<Longrightarrow> alone (HandleLogin_thread env r g) g = answered_or_panic g (HandleLogin env r g)"
  using alone_writeToken [of g g env _ g]
  by (auto simp: HandleLogin_thread_def HandleLogin_def answered_or_panic_def split: option.splits sum.splits)

lemma alone_history: "alone (HandleHistory_thread env r g) g = answered (HandleHistory env r g)"
  by (auto simp: HandleHistory_thread_def HandleHistory_def answered_def alone_asUser split: option.splits sum.splits)

lemma alone_process_frame:
  "alone (process_frame_thread env user req data g0) g = answered (process_frame env user req data g)"
  if "g_store g = None \<longleftrightarrow> g_store g0 = None"
  using that
  by (auto simp: process_frame_thread_def process_frame_def processed_thread_def frame_response_def answered_def
      count_error_def Let_def split: option.splits sum.splits prod.splits)

lemma alone_frame: "alone (HandleProcessFrame_thread env r g) g = answered (HandleProcessFrame env r g)"
  using alone_process_frame [of _ g env]
  by (auto simp: HandleProcessFrame_thread_def HandleProcessFrame_def answered_def count_error_def alone_asUser Let_def
      split: option.splits sum.splits)

lemma alone_stream: "alone (HandleProcessStream_thread env pf r g) g =
    (case HandleProcessStream env pf r g of (Inl resp, g) \<Rightarrow> (Done resp, g)
     | (Inr (client, mode, fd), g) \<Rightarrow> (Streaming client mode fd, g))"
  by (auto simp: HandleProcessStream_thread_def HandleProcessStream_def alone_asUser Let_def
      split: sum.splits prod.splits)

lemma alone_ws: "alone (ws_thread env client ins outs) g =
    (Socket (outs @ fst (ws_loop env client ins (g_metrics g))), g\<lparr>g_metrics := snd (ws_loop env client ins (g_metrics g))\<rparr>)"
  by (induction env client ins outs arbitrary: g rule: ws_thread.induct)
    (auto simp: frame_response_def Let_def split: option.splits sum.splits prod.splits)

lemma alone_websocket: "alone (HandleWebSocket_thread env ok ins r g) g =
    (case HandleWebSocket env ok ins r g of (Inl resp, g) \<Rightarrow> (Done resp, g) | (Inr outs, g) \<Rightarrow> (Socket outs, g))"
  by (auto simp: HandleWebSocket_thread_def HandleWebSocket_def alone_asUser alone_ws count_error_def Let_def
      split: sum.splits prod.splits)

lemma alone_stats: "alone (HandleStats_thread env r g) g = answered (HandleStats env r g)"
  by (auto simp: HandleStats_thread_def HandleStats_def answered_def alone_asUser split: sum.splits prod.splits)

lemma alone_runtime: "alone (HandleRuntime_thread env) g = answered (HandleRuntime env r g)"
  by (auto simp: HandleRuntime_thread_def HandleRuntime_def answered_def split: sum.splits prod.splits)

lemma alone_health: "alone (HandleHealth_thread env) g = answered (HandleHealth env r g)"
  by (simp add: HandleHealth_thread_def HandleHealth_def answered_def Let_def)

lemma alone_routing: "alone (HandleAdminRouting_thread env r g) g = answered (HandleAdminRouting env r g)"
  by (auto simp: HandleAdminRouting_thread_def HandleAdminRouting_def answered_def alone_asUser SetSticky_def
      store_sticky_def split: option.splits sum.splits)

lemma alone_processors: "alone (HandleAdminProcessorsStats_thread env r g) g = answered (HandleAdminProcessorsStats env r g)"
  by (auto simp: HandleAdminProcessorsStats_thread_def HandleAdminProcessorsStats_def answered_def alone_asUser
      split: sum.splits)

lemmas alone_handlers = alone_register alone_login alone_history alone_frame alone_stream alone_websocket
  alone_stats alone_routing alone_processors

text \<open>The handlers that touch nothing shared leave the gateway alone.\<close>

lemma mux_local:
  "rq_path r \<notin> {''/api/register'', ''/api/login'', ''/api/history'', ''/api/process'', ''/process'', ''/api/stream'', ''/ws'',
     ''/health'', ''/stats'', ''/runtime'', ''/api/admin/routing'', ''/api/admin/processors/stats''} \<Longrightarrow>
   snd (mux me r g) = g"
  by (auto simp: mux_def Let_def answered_def HandleMe_def HandleLoginPage_def HandleLogout_def HandlePanelPage_def
      HandleRoot_def split: sum.splits prod.splits)

lemma alone_local: "snd (mux me r g) = g \<Longrightarrow> alone (Return (fst (mux me r g))) g = mux me r g"
  by (simp add: prod_eq_iff)

lemma alone_mux:
  assumes "g_tokens g \<noteq> None"
  shows "alone (mux_thread me r g) g = mux me r g"
proof (cases "rq_path r \<in> {''/api/register'', ''/api/login'', ''/api/history'', ''/api/process'', ''/process'', ''/api/stream'', ''/ws'',
     ''/health'', ''/stats'', ''/runtime'', ''/api/admin/routing'', ''/api/admin/processors/stats''}")
  case False
  then have "mux_thread me r g = Return (fst (mux me r g))" by (simp add: mux_thread_def Let_def)
  then show ?thesis using mux_local [OF False] alone_local by simp
next
  case True
  then show ?thesis
    using assms by (elim insertE emptyE)
      (simp_all add: mux_thread_def mux_def Let_def alone_handlers alone_runtime [of _ g r] alone_health [of _ g r])
qed

section \<open>Sequential histories\<close>

lemma served_at_once:
  assumes "g_tokens (ss_gateway s) \<noteq> None" "finalHandler me r s = (out, s')"
  shows "\<exists>n. front_run (Arrives me r # replicate n (Acts (length cs))) \<lparr>server = s, conversations = cs\<rparr> =
    \<lparr>server = s', conversations = cs @ [Answered out]\<rparr>"
  using assms(2)
proof (cases rule: finalHandler_cases)
  case preflight
  then show ?thesis by (intro exI [of _ 0]) (simp add: arrives_def preflight_def)
next
  case refused
  then show ?thesis
    by (intro exI [of _ 1])
      (simp add: arrives_def limit_middleware_def admitted_def Allow_def acts_def leaves_simps)
next
  case (routed o' g)
  let ?s = "s\<lparr>ss_limiter := charge r (ss_limiter s)\<rparr>" and ?t = "mux_thread me r (ss_gateway s)"
  let ?i = "length cs"
  have "front_step (Arrives me r) \<lparr>server = s, conversations = cs\<rparr> = \<lparr>server = ?s, conversations = cs @ [Running r ?t]\<rparr>"
    using routed(1,2) by (auto simp: arrives_def limit_middleware_def admitted_def charge_def Allow_def split: prod.split)
  moreover obtain n where "front_run (replicate n (Acts ?i)) \<lparr>server = ?s, conversations = cs @ [Running r ?t]\<rparr> =
      \<lparr>server = ?s\<lparr>ss_gateway := g\<rparr>, conversations = cs @ [Running r (Return o')]\<rparr>"
    using acts_until_return [of "\<lparr>server = ?s, conversations = cs @ [Running r ?t]\<rparr>" cs r ?t o' g]
      alone_mux [OF assms(1), of me r] routed(3) by auto
  moreover have "front_step (Acts ?i) \<lparr>server = ?s\<lparr>ss_gateway := g\<rparr>, conversations = cs @ [Running r (Return o')]\<rparr> =
      \<lparr>server = s', conversations = cs @ [Answered out]\<rparr>"
    using routed by (simp add: acts_def leaves_simps)
  ultimately show ?thesis
    by (intro exI [of _ "Suc n"]) (simp only: replicate_Suc replicate_append_same [symmetric] front_run_simps)
qed

lemma sequential_run:
  assumes "server_state_inv s" "gateway_run es s = (outs, s')"
  shows "\<exists>evs. front_run evs \<lparr>server = s, conversations = cs\<rparr> =
    \<lparr>server = s', conversations = cs @ map Answered outs\<rparr>"
  using assms
proof (induction es s arbitrary: outs s' cs rule: gateway_run.induct)
  case (1 s)
  then show ?case by (intro exI [of _ "[]"]) simp
next
  case (2 es s)
  let ?s = "s\<lparr>ss_limiter := refill (ss_limiter s)\<rparr>"
  have inv: "server_state_inv ?s" using "2.prems"(1) by (simp add: sound.tick)
  obtain evs where "front_run evs \<lparr>server = ?s, conversations = cs\<rparr> =
      \<lparr>server = s', conversations = cs @ map Answered outs\<rparr>"
    using "2.IH" [OF inv] "2.prems"(2) by (metis gateway_run.simps(2))
  then show ?case by (intro exI [of _ "Ticks # evs"]) (simp add: ticks_front_def)
next
  case (3 me r es s)
  obtain out s1 where one: "finalHandler me r s = (out, s1)" by fastforce
  obtain outs1 s2 where rest: "gateway_run es s1 = (outs1, s2)" by fastforce
  have eqs: "outs = out # outs1" "s' = s2" using "3.prems"(2) one rest by auto
  have inv: "server_state_inv s1" using finalHandler_keeps [OF "3.prems"(1) one] by simp
  have tok: "g_tokens (ss_gateway s) \<noteq> None"
    using "3.prems"(1) by (simp add: server_state_inv_def gateway_inv_def)
  obtain evs where "front_run evs \<lparr>server = s, conversations = cs\<rparr> = \<lparr>server = s1, conversations = cs @ [Answered out]\<rparr>"
    using served_at_once [OF tok one] by blast
  moreover obtain evs' where "front_run evs' \<lparr>server = s1, conversations = cs @ [Answered out]\<rparr> =
      \<lparr>server = s2, conversations = (cs @ [Answered out]) @ map Answered outs1\<rparr>"
    using "3.IH" [OF one [symmetric] inv rest] by blast
  ultimately show ?case by (intro exI [of _ "evs @ evs'"]) (simp add: eqs)
qed

end
