(* ===== verification/Gateway_Interleaved.thy ===== *)
theory Gateway_Interleaved
  imports Gateway_Concurrent
begin

text \<open>
  What holds of the gateway of \<open>Gateway_Concurrent\<close> however the accesses of its requests interleave: the invariant
  of the state and of every thread, what is never lost, and the equivalence with an order of whole requests.
\<close>

section \<open>Invariants of interleaved runs\<close>

text \<open>The answer of the chain around a handler with the outcome \<open>out\<close>.\<close>

definition behind_cors :: "outcome \<Rightarrow> outcome" where
  "behind_cors out = (case out of Done resp \<Rightarrow> Done (with_cors resp) | _ \<Rightarrow> out)"

text \<open>
  What one access has to keep so that every run keeps it: \<open>Q\<close> holds of the server, \<open>ok\<close> of every thread, \<open>P\<close> of
  every outcome.
\<close>

locale front_invariant =
  fixes Q :: "server_state \<Rightarrow> bool" and ok :: "thread \<Rightarrow> bool" and P :: "outcome \<Rightarrow> bool"
  assumes born: "Q s \<Longrightarrow> ok (mux_thread me r (ss_gateway s))"
    and turned_away: "ok (Return (Done rate_limited))"
    and accessed: "Q s \<Longrightarrow> ok t \<Longrightarrow> access t (ss_gateway s) = (t', g') \<Longrightarrow> ok t' \<and> Q (s\<lparr>ss_gateway := g'\<rparr>)"
    and returned: "ok (Return out) \<Longrightarrow> P out"
    and limiter: "Q s \<Longrightarrow> Q (s\<lparr>ss_limiter := snd (Allow (ss_limiter s))\<rparr>)"
      "Q s \<Longrightarrow> Q (s\<lparr>ss_limiter := refill (ss_limiter s)\<rparr>)"
    and logged: "Q s \<Longrightarrow> Q (s\<lparr>ss_log := l\<rparr>)"
begin

definition conversation_ok :: "conversation \<Rightarrow> bool" where
  "conversation_ok c \<longleftrightarrow> (case c of
     Running r t \<Rightarrow> rq_method r \<noteq> ''OPTIONS'' \<and> ok t
   | Answered out \<Rightarrow> out = preflight \<or> (\<exists>out'. P out' \<and> out = behind_cors out'))"

definition holds :: "busy_gateway \<Rightarrow> bool" where
  "holds s \<longleftrightarrow> Q (server s) \<and> list_all conversation_ok (conversations s)"

lemma list_all_update: "list_all p xs \<Longrightarrow> p x \<Longrightarrow> list_all p (xs[i := x])"
  by (auto simp: list_all_iff dest!: set_update_subset_insert [THEN subsetD])

lemma arrives_holds: "holds s \<Longrightarrow> holds (arrives me r s)"
  using born [of "server s" me r] turned_away limiter(1) [of "server s"]
  by (auto simp: holds_def arrives_def conversation_ok_def limit_middleware_def Allow_def split: if_splits)

lemma acts_holds:
  assumes "holds s"
  shows "holds (acts i s)"
proof (cases s i rule: acts_cases)
  case idle
  then show ?thesis using assms by simp
next
  case (left r out)
  then have "conversation_ok (Running r (Return out))"
    using assms by (metis holds_def list_all_length)
  then have r: "rq_method r \<noteq> ''OPTIONS''" and P: "P out" using returned by (simp_all add: conversation_ok_def)
  have "conversation_ok (Answered (behind_cors out))" using P by (auto simp: conversation_ok_def)
  then show ?thesis
    using assms left(3) logged
    by (simp add: holds_def leaves_simps [OF r] behind_cors_def [symmetric] list_all_update)
next
  case (accessed r t t' g')
  then have c: "conversation_ok (Running r t)" using assms by (metis holds_def list_all_length)
  then have "ok t' \<and> Q ((server s)\<lparr>ss_gateway := g'\<rparr>)"
    using front_invariant.accessed [OF front_invariant_axioms _ _ accessed(4)] assms
    by (simp add: conversation_ok_def holds_def)
  then show ?thesis using assms accessed(5) c by (simp add: holds_def conversation_ok_def list_all_update)
qed

lemma run_holds: "holds s \<Longrightarrow> holds (front_run es s)"
proof (induction es arbitrary: s)
  case (Cons e es)
  have "holds (front_step e s)"
    using Cons.prems arrives_holds acts_holds limiter(2) by (cases e) (auto simp: ticks_front_def holds_def)
  then show ?case using Cons.IH by simp
qed simp

lemma runs:
  assumes "Q s" "b = front_run es \<lparr>server = s, conversations = []\<rparr>" "Answered out \<in> set (conversations b)"
  shows "out = preflight \<or> (\<exists>out'. P out' \<and> out = behind_cors out')"
  using assms run_holds [of "\<lparr>server = s, conversations = []\<rparr>" es]
  by (fastforce simp: holds_def list_all_iff conversation_ok_def)

lemma run_state: "Q s \<Longrightarrow> Q (server (front_run es \<lparr>server = s, conversations = []\<rparr>))"
  using run_holds [of "\<lparr>server = s, conversations = []\<rparr>" es] by (simp add: holds_def)

end

section \<open>Soundness\<close>

text \<open>
  What is true of every thread of a gateway with \<open>n\<close> addresses, \<open>stored\<close> telling whether it has a database: it only
  ends with an outcome that satisfies \<open>P\<close>, only stores an index that passed the comparison, and only uses a database that is there.
\<close>

primrec thread_ends :: "(outcome \<Rightarrow> bool) \<Rightarrow> nat \<Rightarrow> bool \<Rightarrow> thread \<Rightarrow> bool" where
  "thread_ends P n stored (Return out) \<longleftrightarrow> P out"
| "thread_ends P n stored (Meter m t) \<longleftrightarrow> thread_ends P n stored t"
| "thread_ends P n stored (Route k) \<longleftrightarrow> (\<forall>c. thread_ends P n stored (k (Inr c)))"
| "thread_ends P n stored (CheckIndex i k) \<longleftrightarrow>
     (i < int n \<longrightarrow> thread_ends P n stored (k True)) \<and> (\<not> i < int n \<longrightarrow> thread_ends P n stored (k False))"
| "thread_ends P n stored (StoreIndex i t) \<longleftrightarrow> i < int n \<and> thread_ends P n stored t"
| "thread_ends P n stored (ReadPool k) \<longleftrightarrow> (\<forall>p. thread_ends P n stored (k p))"
| "thread_ends P n stored (InsertUser f salt name pw k) \<longleftrightarrow> stored \<and> (\<forall>x. thread_ends P n stored (k x))"
| "thread_ends P n stored (SelectUser f name pw k) \<longleftrightarrow> stored \<and> (\<forall>x. thread_ends P n stored (k x))"
| "thread_ends P n stored (InsertSession f u h e t) \<longleftrightarrow> stored \<and> thread_ends P n stored t"
| "thread_ends P n stored (InsertRun f now run t) \<longleftrightarrow> stored \<and> thread_ends P n stored t"
| "thread_ends P n stored (SelectRuns f u l k) \<longleftrightarrow> stored \<and> (\<forall>x. thread_ends P n stored (k x))"

abbreviation thread_ok :: "nat \<Rightarrow> bool \<Rightarrow> thread \<Rightarrow> bool" where
  "thread_ok \<equiv> thread_ends (\<lambda>out. good_outcome out \<or> out = Done rate_limited)"

lemma ok_asUser: "(\<And>u. thread_ok n st (k u)) \<Longrightarrow> thread_ok n st (asUser env r g k)"
  by (auto simp: asUser_def dest: currentUser_good split: sum.split)

lemma ok_writeToken: "g_tokens g \<noteq> None \<Longrightarrow> thread_ok n (g_store g \<noteq> None) (writeToken_thread env user g)"
  by (auto simp: writeToken_thread_def Let_def split: option.splits prod.splits)

lemma ok_accounts:
  "g_tokens g \<noteq> None \<Longrightarrow> thread_ok n (g_store g \<noteq> None) (HandleRegister_thread env r g)"
  "g_tokens g \<noteq> None \<Longrightarrow> thread_ok n (g_store g \<noteq> None) (HandleLogin_thread env r g)"
  using ok_writeToken [of g]
  by (auto simp: HandleRegister_thread_def HandleLogin_thread_def split: option.split sum.split)

lemma ok_history: "thread_ok n (g_store g \<noteq> None) (HandleHistory_thread env r g)"
  unfolding HandleHistory_thread_def by (rule ok_asUser) (auto split: sum.split)

lemma ok_frame: "thread_ok n (g_store g \<noteq> None) (HandleProcessFrame_thread env r g)"
  by (auto simp: HandleProcessFrame_thread_def process_frame_thread_def processed_thread_def Let_def
      intro!: ok_asUser split: option.split sum.split)

lemma ok_ws: "thread_ok n st (ws_thread env client ins outs)"
  by (induction env client ins outs rule: ws_thread.induct) (auto split: option.splits sum.splits)

lemma ok_streams:
  "thread_ok n st (HandleProcessStream_thread env pf r g)"
  "thread_ok n st (HandleWebSocket_thread env ok ins r g)"
  by (auto simp: HandleProcessStream_thread_def HandleWebSocket_thread_def Let_def ok_ws intro!: ok_asUser)

lemma ok_readers:
  "thread_ok n st (HandleHealth_thread env)" "thread_ok n st (HandleRuntime_thread env)"
  "thread_ok n st (HandleStats_thread env r g)" "thread_ok n st (HandleAdminProcessorsStats_thread env r g)"
  by (auto simp: HandleHealth_thread_def HandleRuntime_thread_def HandleStats_thread_def stats_failed_def
      HandleAdminProcessorsStats_thread_def Let_def intro!: ok_asUser split: sum.split)

lemma ok_routing: "thread_ok n st (HandleAdminRouting_thread env r g)"
  by (auto simp: HandleAdminRouting_thread_def intro!: ok_asUser split: option.split sum.split)

lemma ok_mux:
  assumes "gateway_inv g"
  shows "thread_ok n (g_store g \<noteq> None) (mux_thread me r g)"
proof -
  have "g_tokens g \<noteq> None" using assms by (simp add: gateway_inv_def)
  moreover have "good_outcome (fst (mux me r g))" using good_mux [OF assms] by (cases "mux me r g") simp
  ultimately show ?thesis
    by (simp add: mux_thread_def Let_def ok_accounts ok_history ok_frame ok_streams ok_readers ok_routing
        del: not_None_eq)
qed

text \<open>One access keeps the gateway in a good state, and its thread as well.\<close>

lemma Get_shape:
  assumes "gateway_inv g"
  shows "\<exists>c p. Get (g_pool g) = (Inr c, p) \<and> gateway_inv (g\<lparr>g_pool := p\<rparr>) \<and> addrs p = addrs (g_pool g)"
  using pool_serves [OF assms] inv_get [OF assms] Get_keeps(2) [of "g_pool g"] by (metis snd_conv)

lemma store_sticky_keeps [simp]: "addrs (store_sticky i p) = addrs p" "clients (store_sticky i p) = clients p"
  by (simp_all add: store_sticky_def)

lemma inv_store_index:
  assumes "gateway_inv g" "i < int (length (addrs (g_pool g)))"
  shows "gateway_inv (g\<lparr>g_pool := store_sticky i (g_pool g)\<rparr>)"
  using assms store_sticky_ok [OF assms(2)] by (auto simp: gateway_inv_def pool_inv_def store_sticky_def)

lemma inv_addresses: "gateway_inv g \<Longrightarrow> length (clients (g_pool g)) = length (addrs (g_pool g))"
  by (auto simp: gateway_inv_def pool_inv_def dest: arg_cong [where f = length])

definition sized_pool :: "nat \<Rightarrow> bool \<Rightarrow> gateway \<Rightarrow> bool" where
  "sized_pool n st g \<longleftrightarrow> gateway_inv g \<and> length (addrs (g_pool g)) = n \<and> (g_store g \<noteq> None) = st"

lemma access_statement:
  assumes "sized_pool n st g" "st" "statement f k g = (t', g')"
    and "\<And>db x db'. db_inv db \<Longrightarrow> f db = (x, db') \<Longrightarrow> db_inv db'" and "\<And>x. thread_ends P n st (k x)"
  shows "thread_ends P n st t' \<and> sized_pool n st g'"
proof -
  obtain db where db: "g_store g = Some db" using assms(1,2) by (auto simp: sized_pool_def)
  obtain x db' where f: "f db = (x, db')" by fastforce
  have "db_inv db" using assms(1) db by (simp add: sized_pool_def gateway_inv_def)
  then have "gateway_inv (g\<lparr>g_store := Some db'\<rparr>)"
    using assms(1) inv_store assms(4) [OF _ f] by (simp add: sized_pool_def)
  then show ?thesis using assms(1,3,5) db f by (auto simp: statement_def sized_pool_def)
qed

lemma access_ok:
  assumes "sized_pool n st g" "thread_ends P n st t" "access t g = (t', g')"
  shows "thread_ends P n st t' \<and> sized_pool n st g'"
proof (cases t)
  case (Route k)
  then show ?thesis using assms Get_shape [of g] by (auto simp: sized_pool_def)
next
  case (CheckIndex i k)
  then show ?thesis using assms
    by (cases "i < int n") (auto simp: sized_pool_def inv_addresses)
next
  case (StoreIndex i u)
  then show ?thesis
    using assms inv_store_index [of g i] by (auto simp: sized_pool_def)
next
  case (InsertUser f salt name pw k)
  then show ?thesis
    using access_statement [where P = P, of n st g "CreateUser f salt name pw" k t' g'] assms CreateUser_inv [of _ f salt name pw]
    by (metis access.simps(7) snd_conv thread_ends.simps(7))
next
  case (SelectUser f name pw k)
  then show ?thesis
    using access_statement [where P = P, of n st g "\<lambda>db. (Authenticate f name pw db, db)" k t' g'] assms by auto
next
  case (InsertSession f u h e t0)
  then show ?thesis
    using access_statement [where P = P, of n st g "SaveSession f u h e" "\<lambda>_. t0" t' g'] assms SaveSession_inv [of _ f u h e]
    by (metis access.simps(9) snd_conv thread_ends.simps(9))
next
  case (InsertRun f now run t0)
  then show ?thesis
    using access_statement [where P = P, of n st g "SaveProcessingRun f now run" "\<lambda>_. t0" t' g'] assms SaveProcessingRun_inv [of _ f now run]
    by (metis access.simps(10) snd_conv thread_ends.simps(10))
next
  case (SelectRuns f u l k)
  then show ?thesis
    using access_statement [where P = P, of n st g "\<lambda>db. (RecentRuns f u l db, db)" k t' g'] assms by auto
qed (use assms in \<open>auto simp: sized_pool_def\<close>)

definition front_inv :: "nat \<Rightarrow> bool \<Rightarrow> server_state \<Rightarrow> bool" where
  "front_inv n st s \<longleftrightarrow> server_state_inv s \<and> length (addrs (g_pool (ss_gateway s))) = n \<and>
     (g_store (ss_gateway s) \<noteq> None) = st"

interpretation sound_front: front_invariant "front_inv n st" "thread_ok n st" "\<lambda>out. good_outcome out \<or> out = Done rate_limited"
  for n st
proof
  fix s t t' g' assume "front_inv n st s" "thread_ok n st t" "access t (ss_gateway s) = (t', g')"
  then show "thread_ok n st t' \<and> front_inv n st (s\<lparr>ss_gateway := g'\<rparr>)"
    using access_ok [of n st "ss_gateway s" _ t t' g'] by (auto simp: front_inv_def sized_pool_def server_state_inv_def)
next
  fix s me r assume "front_inv n st s"
  then show "thread_ok n st (mux_thread me r (ss_gateway s))"
    using ok_mux [of "ss_gateway s" n me r] by (simp add: front_inv_def server_state_inv_def del: not_None_eq)
qed (auto simp: front_inv_def server_state_inv_def Allow_def refill_def)

lemma behind_cors_good: "good_outcome out \<Longrightarrow> good_outcome (behind_cors out)"
  by (cases out) (simp_all add: behind_cors_def)

lemma preflight_good: "good_outcome preflight"
  by (simp add: preflight_def good_response_def typed_def starved_def content_type_def no_processors_def http_error_def)

lemma answers_good:
  assumes "server_state_inv s" "Answered out \<in> set (conversations (front_run es \<lparr>server = s, conversations = []\<rparr>))"
  shows "good_outcome out \<or> out = Done (with_cors rate_limited)"
proof -
  let ?n = "length (addrs (g_pool (ss_gateway s)))" and ?st = "g_store (ss_gateway s) \<noteq> None"
  have "front_inv ?n ?st s" using assms(1) by (simp add: front_inv_def)
  from sound_front.runs [OF this refl assms(2)] show ?thesis
    by (auto simp: preflight_good behind_cors_good) (simp add: behind_cors_def)
qed

lemma front_run_inv:
  assumes "server_state_inv s"
  shows "server_state_inv (server (front_run es \<lparr>server = s, conversations = []\<rparr>))"
  using sound_front.run_state [of "length (addrs (g_pool (ss_gateway s)))" "g_store (ss_gateway s) \<noteq> None" s es] assms
  by (simp add: front_inv_def del: not_None_eq)

section \<open>Nothing is lost\<close>

lemma grows_statement:
  "statement f k g = (t', g') \<Longrightarrow> (\<And>db x db'. f db = (x, db') \<Longrightarrow> db_grows db db') \<Longrightarrow> grows g g'"
  by (auto simp: statement_def intro: grows_store split: option.splits prod.splits)

lemma grows_inserts:
  "SaveSession f u h e db = (x, db') \<Longrightarrow> db_grows db db'"
  "SaveProcessingRun f now run db = (y, db') \<Longrightarrow> db_grows db db'"
  using db_grows_simps by (metis snd_conv)+

lemma grows_access: "access t g = (t', g') \<Longrightarrow> grows g g'"
  by (cases t) (auto split: prod.splits elim!: grows_statement intro: CreateUser_grows grows_inserts)

interpretation kept_front: front_invariant "\<lambda>s. grows g (ss_gateway s)" "\<lambda>_. True" "\<lambda>_. True" for g
  by unfold_locales (auto intro: grows_trans grows_access)

lemma front_run_grows: "grows (ss_gateway s) (ss_gateway (server (front_run es \<lparr>server = s, conversations = []\<rparr>)))"
  by (rule kept_front.run_state) simp

section \<open>Every request is answered\<close>

text \<open>A thread that ends after at most \<open>n\<close> accesses, whatever they return.\<close>

inductive ends_in :: "thread \<Rightarrow> nat \<Rightarrow> bool" where
  return: "ends_in (Return out) n"
| step: "(\<And>out. t \<noteq> Return out) \<Longrightarrow> (\<And>g. ends_in (fst (access t g)) n) \<Longrightarrow> ends_in t (Suc n)"

inductive_cases ends_inE: "ends_in t n"

lemma ends_in_access: "ends_in t (Suc n) \<Longrightarrow> access t g = (t', g') \<Longrightarrow> ends_in t' n"
  by (erule ends_inE) (auto intro: return, metis fst_conv)

lemma ends_in_0: "ends_in t 0 \<Longrightarrow> \<exists>out. t = Return out"
  by (auto elim: ends_inE)

lemma ends_in_steps [intro!]:
  "ends_in t n \<Longrightarrow> ends_in (Meter m t) (Suc n)"
  "(\<And>x. ends_in (k1 x) n) \<Longrightarrow> ends_in (Route k1) (Suc n)"
  "(\<And>x. ends_in (k2 x) n) \<Longrightarrow> ends_in (CheckIndex i k2) (Suc n)"
  "ends_in t n \<Longrightarrow> ends_in (StoreIndex i t) (Suc n)"
  "(\<And>x. ends_in (k3 x) n) \<Longrightarrow> ends_in (ReadPool k3) (Suc n)"
  "(\<And>x. ends_in (k4 x) n) \<Longrightarrow> ends_in (InsertUser f salt name pw k4) (Suc n)"
  "(\<And>x. ends_in (k4 x) n) \<Longrightarrow> ends_in (SelectUser f name pw k4) (Suc n)"
  "ends_in t n \<Longrightarrow> ends_in (InsertSession f u h e t) (Suc n)"
  "ends_in t n \<Longrightarrow> ends_in (InsertRun f now run t) (Suc n)"
  "(\<And>x. ends_in (k5 x) n) \<Longrightarrow> ends_in (SelectRuns f u l k5) (Suc n)"
  by (rule ends_in.step, simp, auto simp: statement_def return split: prod.split option.split)+

lemma ends_in_Return [simp, intro]: "ends_in (Return out) n"
  by (rule return)

lemma ends_asUser: "(\<And>u. ends_in (k u) n) \<Longrightarrow> ends_in (asUser env r g k) n"
  by (auto simp: asUser_def split: sum.split)

lemma ends_writeToken: "ends_in (writeToken_thread env user g) (Suc n)"
  by (auto simp: writeToken_thread_def Let_def split: option.split prod.split)

lemma ends_ws: "2 * length ins \<le> n \<Longrightarrow> ends_in (ws_thread env client ins outs) n"
proof (induction env client ins outs arbitrary: n rule: ws_thread.induct)
  case (4 env client req lost ins outs)
  have ins: "2 * length ins \<le> n" using 4 by simp
  obtain m where n: "n = Suc (Suc m)" and m: "2 * length ins \<le> m" using "4.prems"
    by (cases n; cases "n - 1") auto
  show ?case
  proof (cases "std_decode (fr_Data req)")
    case None
    then show ?thesis using 4 ins by simp
  next
    case (Some data)
    have "2 * length ins \<le> Suc m" using m by simp
    then show ?thesis using 4 Some m by (auto simp: n split: sum.split)
  qed
qed auto

lemma ends_handlers:
  "ends_in (HandleRegister_thread env r g) (Suc (Suc n))" "ends_in (HandleLogin_thread env r g) (Suc (Suc n))"
  "ends_in (HandleHistory_thread env r g) (Suc n)"
  "ends_in (HandleProcessFrame_thread env r g) (Suc (Suc (Suc (Suc (Suc (Suc n))))))"
  "ends_in (HandleProcessStream_thread env pf r g) (Suc (Suc n))"
  "2 * length ins \<le> n \<Longrightarrow> ends_in (HandleWebSocket_thread env ok ins r g) (Suc (Suc n))"
  "ends_in (HandleStats_thread env r g) (Suc n)" "ends_in (HandleRuntime_thread env) (Suc n)"
  "ends_in (HandleHealth_thread env) (Suc n)" "ends_in (HandleAdminRouting_thread env r g) (Suc (Suc (Suc n)))"
  "ends_in (HandleAdminProcessorsStats_thread env r g) (Suc n)"
  by (auto simp: HandleRegister_thread_def HandleLogin_thread_def HandleHistory_thread_def HandleProcessFrame_thread_def
      process_frame_thread_def processed_thread_def HandleProcessStream_thread_def HandleWebSocket_thread_def
      HandleStats_thread_def HandleRuntime_thread_def HandleHealth_thread_def HandleAdminRouting_thread_def
      HandleAdminProcessorsStats_thread_def Let_def
      intro!: ends_asUser ends_writeToken ends_ws split: option.split sum.split)

lemma ends_mux: "ends_in (mux_thread me r g) (6 + 2 * length (me_messages me))"
proof -
  let ?n = "2 * length (me_messages me)"
  have six: "6 + ?n = Suc (Suc (Suc (Suc (Suc (Suc ?n)))))" by simp
  show ?thesis unfolding mux_thread_def Let_def six by (simp add: ends_handlers)
qed

text \<open>Where a conversation is, whatever happens to the others.\<close>

lemma acts_length [simp]: "length (conversations (acts i s)) = length (conversations s)"
  by (cases s i rule: acts_cases) auto

lemma acts_other: "i \<noteq> j \<Longrightarrow> conversations (acts j s) ! i = conversations s ! i"
  by (cases s j rule: acts_cases) auto

lemma arrives_conversations:
  "\<exists>c. conversations (arrives me r s) = conversations s @ [c]"
  by (auto simp: arrives_def split: prod.splits)

lemma step_length: "length (conversations s) \<le> length (conversations (front_step e s))"
  using arrives_conversations by (cases e) (auto simp: ticks_front_def, metis length_append le_add1)

lemma step_other:
  "i < length (conversations s) \<Longrightarrow> e \<noteq> Acts i \<Longrightarrow> conversations (front_step e s) ! i = conversations s ! i"
proof (cases e)
  case (Arrives me r)
  moreover assume "i < length (conversations s)"
  ultimately show ?thesis using arrives_conversations [of me r s] by (auto simp: nth_append)
qed (auto simp: acts_other ticks_front_def)

lemma answered_stays:
  assumes "i < length (conversations s)" "conversations s ! i = Answered out"
  shows "conversations (front_run es s) ! i = Answered out"
  using assms
proof (induction es arbitrary: s)
  case (Cons e es)
  have "conversations (front_step e s) ! i = Answered out"
    using Cons.prems step_other [of i s e] by (cases "e = Acts i") (simp_all add: acts_def)
  then show ?case using Cons.IH [of "front_step e s"] Cons.prems(1) step_length [of s e] by simp
qed simp

lemma answered_after:
  assumes "i < length (conversations s)" "conversations s ! i = Running r t" "ends_in t n" "n < count_list es (Acts i)"
  shows "\<exists>out. conversations (front_run es s) ! i = Answered out"
  using assms
proof (induction es arbitrary: s t n)
  case (Cons e es)
  have len: "i < length (conversations (front_step e s))" using Cons.prems(1) step_length [of s e] by simp
  show ?case
  proof (cases "e = Acts i")
    case False
    then show ?thesis using Cons.IH [OF len _ Cons.prems(3)] Cons.prems step_other [of i s e] by simp
  next
    case True
    show ?thesis
    proof (cases s i rule: acts_cases)
      case idle
      then show ?thesis using Cons.prems(1,2) by blast
    next
      case (left r' out)
      then have "conversations (front_step e s) ! i = Answered (fst (leaves r' out (server s)))" using True by simp
      then show ?thesis using answered_stays [OF len] True by auto
    next
      case (accessed r' t1 t' g')
      then have "t1 = t" using Cons.prems(2) by simp
      then obtain m where m: "n = Suc m" using accessed(3) Cons.prems(3) ends_in_0 by (cases n) auto
      have "ends_in t' m" using ends_in_access Cons.prems(3) accessed(4) m \<open>t1 = t\<close> by simp
      moreover have "conversations (front_step e s) ! i = Running r' t'" using accessed True by simp
      moreover have "m < count_list es (Acts i)" using Cons.prems(4) m True by simp
      moreover have "r' = r" using accessed(2) Cons.prems(2) by simp
      ultimately show ?thesis using Cons.IH [OF len, of t' m] True by simp
    qed
  qed
qed simp

lemma arrives_running:
  assumes "rq_method r \<noteq> ''OPTIONS''"
  obtains t where "conversations (arrives me r b) = conversations b @ [Running r t]"
    "t = mux_thread me r (ss_gateway (server b)) \<or> t = Return (Done rate_limited)"
    "ss_gateway (server (arrives me r b)) = ss_gateway (server b)"
  using assms
  by (cases "exempt_path (rq_path r)"; cases "Allow (ss_limiter (server b))"; cases "fst (Allow (ss_limiter (server b)))")
    (auto simp: arrives_def limit_middleware_def)

lemma arrival_answered:
  assumes "6 + 2 * length (me_messages me) < count_list es (Acts (length (conversations b)))"
  shows "\<exists>out. conversations (front_run es (arrives me r b)) ! length (conversations b) = Answered out"
proof (cases "rq_method r = ''OPTIONS''")
  case True
  then have "conversations (arrives me r b) = conversations b @ [Answered preflight]" by (simp add: arrives_def)
  then have "conversations (front_run es (arrives me r b)) ! length (conversations b) = Answered preflight"
    by (intro answered_stays) (simp_all add: nth_append)
  then show ?thesis by blast
next
  case False
  then obtain t where conv: "conversations (arrives me r b) = conversations b @ [Running r t]"
      and t: "t = mux_thread me r (ss_gateway (server b)) \<or> t = Return (Done rate_limited)"
    by (rule arrives_running)
  have "ends_in t (6 + 2 * length (me_messages me))" using t ends_mux by auto
  from answered_after [where s = "arrives me r b" and r = r, OF _ _ this assms] show ?thesis by (simp add: conv nth_append)
qed

section \<open>Following one request\<close>

lemma leaves_cors: "rq_method r \<noteq> ''OPTIONS'' \<Longrightarrow> fst (leaves r out s) = behind_cors out"
  by (simp add: leaves_simps behind_cors_def)

lemma behind_cors_Done: "Done resp = behind_cors out \<Longrightarrow> \<exists>resp'. out = Done resp' \<and> status resp = status resp' \<and> body resp = body resp'"
  by (cases out) (auto simp: behind_cors_def)

text \<open>A thread that can only end in one way does, whatever the others do.\<close>

lemma thread_ends_so:
  assumes "sound_front.holds n st b" "i < length (conversations b)" "conversations b ! i = Running r t"
    and "thread_ends P n st t" "rq_method r \<noteq> ''OPTIONS''" "conversations (front_run es b) ! i = Answered out"
  shows "\<exists>out'. P out' \<and> out = behind_cors out'"
  using assms
proof (induction es arbitrary: b t)
  case (Cons e es)
  let ?b = "front_step e b"
  have holds: "sound_front.holds n st ?b" using sound_front.run_holds [OF Cons.prems(1), of "[e]"] by simp
  have len: "i < length (conversations ?b)" using Cons.prems(2) step_length [of b e] by simp
  have run: "conversations (front_run es ?b) ! i = Answered out" using Cons.prems(6) by simp
  show ?case
  proof (cases "e = Acts i")
    case False
    then have "conversations ?b ! i = Running r t" using step_other [OF Cons.prems(2)] Cons.prems(3) by simp
    from Cons.IH [OF holds len this Cons.prems(4,5) run] show ?thesis .
  next
    case True
    show ?thesis
    proof (cases b i rule: acts_cases)
      case idle
      then show ?thesis using Cons.prems(2,3) by blast
    next
      case (left r' out')
      then have t: "r' = r" "t = Return out'" using Cons.prems(3) by simp_all
      have "conversations ?b ! i = Answered (behind_cors out')" using left True t Cons.prems(5) by (simp add: leaves_cors)
      then have "out = behind_cors out'" using answered_stays [OF len] run by fastforce
      then show ?thesis using Cons.prems(4) t by auto
    next
      case (accessed r' t1 t' g')
      then have t: "r' = r" "t1 = t" using Cons.prems(3) by simp_all
      have "front_inv n st (server b)" using Cons.prems(1) by (simp only: sound_front.holds_def)
      then have "sized_pool n st (ss_gateway (server b))"
        by (simp add: front_inv_def sized_pool_def server_state_inv_def)
      from access_ok [OF this Cons.prems(4)] have ends: "thread_ends P n st t'" using accessed(4) t by simp
      have "conversations ?b ! i = Running r t'" using accessed True t by simp
      from Cons.IH [OF holds len this ends Cons.prems(5) run] show ?thesis .
    qed
  qed
qed simp

text \<open>The only way a frame can end when every processor answers: with the answer of one of them.\<close>

lemma frame_thread_ends:
  assumes "currentUser env g r = Inr u" "frame_request r req data"
    and "\<And>client. \<exists>reply. he_call env client (frame_chunk env req data MEDIA_TYPE_IMAGE 1)
           (normalizeMemoryMode_http (fr_MemoryMode req)) = Inr reply \<and> Q reply"
  defines "P \<equiv> \<lambda>out. \<exists>reply. Q reply \<and>
      out = Done (json_response 200 (FrameBody (frame_response (normalizeMemoryMode_http (fr_MemoryMode req)) reply)))"
  shows "thread_ends P n (g_store g \<noteq> None) (HandleProcessFrame_thread env r g)"
proof -
  let ?c = "frame_chunk env req data MEDIA_TYPE_IMAGE 1" and ?m = "normalizeMemoryMode_http (fr_MemoryMode req)"
  have wrap: "wrap64 (fr_Width req * fr_Height req * 3) = int (length data)"
    using assms(2) by (auto simp: frame_request_def in_i64_def intro!: wrap64_id)
  have answered: "thread_ends P n (g_store g \<noteq> None) (processed_thread env u req reply g)" if "Q reply" for reply
    using that by (auto simp: processed_thread_def Let_def P_def)
  have "thread_ends P n (g_store g \<noteq> None) (case he_call env client ?c ?m of
      Inl e \<Rightarrow> Meter (CountError ''processing_error'') (Return (Done (http_error (''Processing error: '' @ e) 500)))
    | Inr result \<Rightarrow> processed_thread env u req result g)" for client
  proof -
    obtain reply where "he_call env client ?c ?m = Inr reply" "Q reply" using assms(3) by blast
    then show ?thesis using answered by simp
  qed
  then have "thread_ends P n (g_store g \<noteq> None) (process_frame_thread env u req data g)"
    by (simp add: process_frame_thread_def)
  then show ?thesis
    using assms(1,2) wrap by (simp add: HandleProcessFrame_thread_def asUser_def frame_request_def)
qed

text \<open>What a request has achieved so far: kept by its own accesses and by those of any other.\<close>

locale thread_invariant =
  fixes T :: "gateway \<Rightarrow> thread \<Rightarrow> bool"
  assumes own: "T g t \<Longrightarrow> access t g = (t', g') \<Longrightarrow> T g' t'"
    and others: "T g t \<Longrightarrow> access u g = (u', g') \<Longrightarrow> T g' t"
begin

definition reached :: "gateway \<Rightarrow> request \<Rightarrow> conversation \<Rightarrow> bool" where
  "reached g r c \<longleftrightarrow> (case c of
     Running r' t \<Rightarrow> r' = r \<and> T g t
   | Answered out \<Rightarrow> (\<exists>out'. out = behind_cors out' \<and> T g (Return out')))"

lemma reached_step:
  assumes "i < length (conversations s)" "reached (ss_gateway (server s)) r (conversations s ! i)"
    and "rq_method r \<noteq> ''OPTIONS''"
  shows "reached (ss_gateway (server (front_step e s))) r (conversations (front_step e s) ! i)"
proof (cases e)
  case (Arrives me r')
  moreover have "ss_gateway (server (arrives me r' s)) = ss_gateway (server s)"
    by (simp add: arrives_def split: prod.splits)
  ultimately show ?thesis using assms(1,2) step_other [of i s e] by simp
next
  case Ticks
  then show ?thesis using assms(2) by (simp add: ticks_front_def)
next
  case (Acts j)
  show ?thesis
  proof (cases s j rule: acts_cases)
    case idle
    then show ?thesis using assms(2) Acts by simp
  next
    case (left r' out)
    have "rq_method r' \<noteq> ''OPTIONS'' \<or> j \<noteq> i" using left(2) assms(2,3) by (auto simp: reached_def)
    moreover have "ss_gateway (snd (leaves r' out sv)) = ss_gateway sv" for sv
      by (simp add: leaves_def corsMiddleware_def loggingMiddleware_def split: outcome.splits)
    moreover have "reached (ss_gateway (server s)) r (Answered (fst (leaves r' out (server s))))" if "j = i"
    proof -
      have "r' = r" "T (ss_gateway (server s)) (Return out)" using that left(2) assms(2) by (simp_all add: reached_def)
      then show ?thesis using assms(3) by (auto simp: reached_def leaves_cors)
    qed
    ultimately show ?thesis using left assms(1,2) Acts by (cases "j = i") simp_all
  next
    case (accessed r' t t' g')
    show ?thesis
    proof (cases "j = i")
      case True
      then show ?thesis using accessed assms(2) Acts own [of "ss_gateway (server s)" t t' g'] by (simp add: reached_def)
    next
      case False
      then show ?thesis
        using accessed assms(1,2) Acts others [OF _ accessed(4)]
        by (auto simp: reached_def split: conversation.splits)
    qed
  qed
qed

lemma reached_run:
  assumes "i < length (conversations s)" "reached (ss_gateway (server s)) r (conversations s ! i)"
    and "rq_method r \<noteq> ''OPTIONS''"
  shows "reached (ss_gateway (server (front_run es s))) r (conversations (front_run es s) ! i)"
  using assms
proof (induction es arbitrary: s)
  case (Cons e es)
  have "i < length (conversations (front_step e s))" using Cons.prems(1) step_length [of s e] by simp
  then show ?case using Cons.IH [of "front_step e s"] reached_step [OF Cons.prems] Cons.prems(3) by simp
qed simp

text \<open>An answer that is not the limiter's is the handler's: what the thread keeps holds of it, and of the gateway now.\<close>

lemma answer_reached:
  assumes "rq_method r \<noteq> ''OPTIONS''" "T (ss_gateway (server b)) (mux_thread me r (ss_gateway (server b)))"
    and "conversations (front_run (Arrives me r # es) b) ! length (conversations b) = Answered (Done resp)"
    and "status resp \<noteq> 429"
  shows "\<exists>resp'. T (ss_gateway (server (front_run (Arrives me r # es) b))) (Return (Done resp')) \<and>
    status resp = status resp' \<and> body resp = body resp'"
proof -
  let ?b = "arrives me r b" and ?i = "length (conversations b)"
  obtain t where conv: "conversations ?b = conversations b @ [Running r t]"
    and t: "t = mux_thread me r (ss_gateway (server b)) \<or> t = Return (Done rate_limited)"
    and g: "ss_gateway (server ?b) = ss_gateway (server b)"
    using arrives_running [OF assms(1)] by blast
  have len: "?i < length (conversations ?b)" and at: "conversations ?b ! ?i = Running r t" by (simp_all add: conv)
  have ended: "thread_invariant (\<lambda>g t. t = Return (Done rate_limited))" by unfold_locales auto
  have "t \<noteq> Return (Done rate_limited)"
  proof
    assume "t = Return (Done rate_limited)"
    then have "thread_invariant.reached (\<lambda>g t. t = Return (Done rate_limited)) (ss_gateway (server ?b)) r (conversations ?b ! ?i)"
      by (simp add: at thread_invariant.reached_def [OF ended])
    from thread_invariant.reached_run [OF ended len this assms(1), of es]
    have "Done resp = behind_cors (Done rate_limited)" using assms(3) by (simp add: thread_invariant.reached_def [OF ended])
    then show False using assms(4) by (simp add: behind_cors_def rate_limited_def http_error_def)
  qed
  then have "reached (ss_gateway (server ?b)) r (conversations ?b ! ?i)"
    using t assms(2) by (simp add: at g reached_def)
  from reached_run [OF len this assms(1), of es] show ?thesis
    using assms(3) by (auto simp: reached_def dest!: behind_cors_Done)
qed

end

lemma inv_inserts:
  "db_inv db \<Longrightarrow> CreateUser f salt n p db = (x, db') \<Longrightarrow> db_inv db'"
  "db_inv db \<Longrightarrow> SaveSession f u h e db = (y, db') \<Longrightarrow> db_inv db'"
  "db_inv db \<Longrightarrow> SaveProcessingRun f now run db = (z, db') \<Longrightarrow> db_inv db'"
  using CreateUser_inv SaveSession_inv SaveProcessingRun_inv by (metis snd_conv)+

lemma access_db_inv:
  assumes "access t g = (t', g')" "\<forall>db. g_store g = Some db \<longrightarrow> db_inv db"
  shows "\<forall>db. g_store g' = Some db \<longrightarrow> db_inv db"
  using assms by (cases t) (auto simp: statement_def dest: inv_inserts split: option.splits prod.splits)

text \<open>Someone can log in with the name and the password, as the user \<open>u\<close>.\<close>

definition account :: "string \<Rightarrow> string \<Rightarrow> User \<Rightarrow> gateway \<Rightarrow> bool" where
  "account n p u g \<longleftrightarrow> (\<exists>db. g_store g = Some db \<and> db_inv db \<and> Authenticate None n p db = Inr u)"

lemma account_kept:
  assumes "account n p u g" "access t g = (t', g')"
  shows "account n p u g'"
proof -
  obtain db where db: "g_store g = Some db" "db_inv db" "Authenticate None n p db = Inr u"
    using assms(1) by (auto simp: account_def)
  obtain db' where "g_store g' = Some db'" "db_grows db db'"
    using grows_access [OF assms(2)] db(1) by (auto simp: grows_def)
  then show ?thesis
    using access_db_inv [OF assms(2)] db Authenticate_grows [of db db' n p u] by (auto simp: account_def)
qed

text \<open>A registration on its way: not inserted yet, refused, or the account is there.\<close>

definition unregistered :: "http_env \<Rightarrow> string \<Rightarrow> string \<Rightarrow> thread \<Rightarrow> bool" where
  "unregistered env n p t \<longleftrightarrow>
     (\<exists>k. t = InsertUser None (he_salt env) n p k \<and> (\<forall>e. k (Inl e) = Return (Done (http_error e 400)))) \<or>
     (\<exists>e. t = Return (Done (http_error e 400)))"

definition ready :: "gateway \<Rightarrow> bool" where
  "ready g \<longleftrightarrow> (\<exists>db. g_store g = Some db \<and> db_inv db \<and> migrated db)"

definition registering :: "http_env \<Rightarrow> string \<Rightarrow> string \<Rightarrow> gateway \<Rightarrow> thread \<Rightarrow> bool" where
  "registering env n p g t \<longleftrightarrow> ready g \<and> (unregistered env n p t \<or> (\<exists>u. Username u = n \<and> account n p u g))"

lemma ready_kept:
  assumes "ready g" "access t g = (t', g')"
  shows "ready g'"
proof -
  obtain db where db: "g_store g = Some db" "db_inv db" "migrated db" using assms(1) by (auto simp: ready_def)
  obtain db' where "g_store g' = Some db'" "db_grows db db'" using grows_access [OF assms(2)] db(1) by (auto simp: grows_def)
  moreover have "\<forall>db. g_store g' = Some db \<longrightarrow> db_inv db"
    using db by (intro access_db_inv [OF assms(2)]) simp
  ultimately show ?thesis using db(3) by (simp add: ready_def db_grows_def)
qed

interpretation registration: thread_invariant "registering env n p" for env n p
proof
  fix g t u u' g' assume "registering env n p g t" "access u g = (u', g')"
  then show "registering env n p g' t" using ready_kept account_kept unfolding registering_def by blast
next
  fix g t t' g' assume reg: "registering env n p g t" and acc: "access t g = (t', g')"
  then have "ready g" by (simp add: registering_def)
  then obtain db where db: "g_store g = Some db" "db_inv db" "migrated db" by (auto simp: ready_def)
  have ready: "ready g'" using \<open>ready g\<close> acc by (rule ready_kept)
  consider (waiting) k where "t = InsertUser None (he_salt env) n p k" "\<forall>e. k (Inl e) = Return (Done (http_error e 400))"
    | (refused) e where "t = Return (Done (http_error e 400))" | (there) u where "Username u = n" "account n p u g"
    using reg unfolding registering_def unregistered_def by blast
  then show "registering env n p g' t'"
  proof cases
    case waiting
    obtain res db' where create: "CreateUser None (he_salt env) n p db = (res, db')" by fastforce
    have t': "t' = k res" "g_store g' = Some db'" using acc waiting(1) create db(1) by (auto simp: statement_def)
    note cases = CreateUser_cases [OF db(2) create]
    show ?thesis
    proof (cases res)
      case (Inl e)
      then show ?thesis using t' waiting(2) ready by (auto simp: registering_def unregistered_def)
    next
      case (Inr u)
      then obtain salt where "he_salt env = Inr salt" using cases by auto
      then have "Authenticate None n p db' = Inr u \<and> Username u = n"
        using store.create_login [of db salt n p u db'] create db(2,3) Inr by simp
      then have "account n p u g'" "Username u = n" using t' cases by (auto simp: account_def)
      then show ?thesis using ready unfolding registering_def by blast
    qed
  next
    case refused
    then show ?thesis using acc reg by simp
  next
    case there
    then show ?thesis using ready account_kept [OF there(2) acc] unfolding registering_def by blast
  qed
qed

text \<open>A login on its way: before the query, or about to give out the token.\<close>

definition login_answer :: "http_env \<Rightarrow> TokenManager \<Rightarrow> User \<Rightarrow> response" where
  "login_answer env m u = (case Issue m (he_now env) u of (token, e) \<Rightarrow>
     (json_response 200 (AuthBody token e u))\<lparr>auth_cookie := Some (token,
       fl_to_int (duration_seconds (word_of_int (e - he_cookie_now env))))\<rparr>)"

definition logging_in :: "http_env \<Rightarrow> TokenManager \<Rightarrow> string \<Rightarrow> string \<Rightarrow> User \<Rightarrow> gateway \<Rightarrow> thread \<Rightarrow> bool" where
  "logging_in env m n p u g t \<longleftrightarrow> account n p u g \<and>
     (\<exists>f uid h e. t = Return (Done (login_answer env m u)) \<or>
        t = InsertSession f uid h e (Return (Done (login_answer env m u))) \<or>
        (\<exists>k. t = SelectUser None n p k \<and> k (Inr u) = InsertSession f uid h e (Return (Done (login_answer env m u)))))"

interpretation login: thread_invariant "logging_in env m n p u" for env m n p u
proof
  fix g t v v' g' assume "logging_in env m n p u g t" "access v g = (v', g')"
  then show "logging_in env m n p u g' t" using account_kept unfolding logging_in_def by blast
next
  fix g t t' g' assume at: "logging_in env m n p u g t" and acc: "access t g = (t', g')"
  have acct: "account n p u g" using at by (simp add: logging_in_def)
  then obtain db where db: "g_store g = Some db" "Authenticate None n p db = Inr u" by (auto simp: account_def)
  have "account n p u g'" using acct acc by (rule account_kept)
  moreover have "\<exists>f uid h e. t' = Return (Done (login_answer env m u)) \<or>
        t' = InsertSession f uid h e (Return (Done (login_answer env m u)))"
    using at acc db unfolding logging_in_def
    by (elim conjE exE disjE) (simp_all add: statement_def split: prod.splits, metis)
  ultimately show "logging_in env m n p u g' t'" unfolding logging_in_def by blast
qed

lemma login_thread_starts:
  assumes "account n p u g" "g_tokens g = Some m" "rq_method r = ''POST''" "rq_auth_json r = Some (n, p)"
    and "he_user_fault env = None"
  shows "logging_in env m n p u g (HandleLogin_thread env r g)"
  using assms
  by (auto simp: logging_in_def HandleLogin_thread_def writeToken_thread_def login_answer_def account_def Let_def
      split: prod.split)

lemma registration_starts:
  assumes "ready g" "rq_method r = ''POST''" "rq_auth_json r = Some (n, p)" "he_user_fault env = None"
  shows "registering env n p g (HandleRegister_thread env r g)"
  using assms by (auto simp: registering_def unregistered_def ready_def HandleRegister_thread_def)

section \<open>Properties\<close>









end
