(* ===== verification/Gateway_Serial.thy ===== *)
theory Gateway_Serial
  imports Gateway_Interleaved
begin

text \<open>
  Interleaved requests against whole requests in some order. The accesses of most handlers either add to something
  (an instrument, the log of runs), which no other access notices, or ask the pool for a processor; a handler asks at
  most once. Hence the order in which requests ask the pool is an order in which they could have been served whole.
\<close>

section \<open>What can be told apart\<close>

text \<open>
  A gateway up to the order in which latencies were observed and runs were inserted, which also decides the keys of
  the runs.
\<close>

definition unkeyed :: "ProcessingRun \<Rightarrow> ProcessingRun" where
  "unkeyed r = r\<lparr>pr_ID := 0\<rparr>"

definition metrics_view where
  "metrics_view (m :: Metrics) = (requestsTotal m, errorsTotal m, framesProcessedTotal m, requestPayloadBytes m,
     activeConnections m, processorPoolSize m, mset (requestLatency m))"

definition store_view where
  "store_view (db :: database) = (users db, auth_sessions db, users_seq db, runs_seq db, migrated db,
     mset (map unkeyed (processing_runs db)))"

definition view where
  "view (g :: gateway) = (g_pool g, g_tokens g, metrics_view (g_metrics g), map_option store_view (g_store g))"

text \<open>The sequence of keys is not exhausted.\<close>

definition room :: "gateway \<Rightarrow> bool" where
  "room g \<longleftrightarrow> (\<forall>db. g_store g = Some db \<longrightarrow> runs_seq db < 2 ^ 63)"

lemma view_room: "view g = view g' \<Longrightarrow> room g = room g'"
  by (cases "g_store g"; cases "g_store g'") (simp_all add: view_def room_def store_view_def)

lemma view_roomD: "room g \<Longrightarrow> view g = view g' \<Longrightarrow> room g'"
  using view_room by blast

lemma metered_view: "metrics_view m = metrics_view m' \<Longrightarrow> metrics_view (metered x m) = metrics_view (metered x m')"
  by (cases x) (simp_all add: metrics_view_def metrics_defs)

lemma metered_commute: "metrics_view (metered x (metered y m)) = metrics_view (metered y (metered x m))"
  by (cases x; cases y) (auto simp: metrics_view_def metrics_defs fun_eq_iff)

lemma SaveProcessingRun_view:
  "store_view db = store_view db' \<Longrightarrow>
    store_view (snd (SaveProcessingRun f now run db)) = store_view (snd (SaveProcessingRun f now run db'))"
  by (simp add: store_view_def SaveProcessingRun_def statement_error_def user_exists_def unkeyed_def Let_def split: option.split)

lemma SaveProcessingRun_keys: "runs_seq db \<le> runs_seq (snd (SaveProcessingRun f now run db))"
  by (auto simp: SaveProcessingRun_def Let_def split: option.split)

text \<open>What an insertion does, as long as there are keys: nothing, a key lost, or a key and a row.\<close>

definition refused_run :: "string option \<Rightarrow> ProcessingRun \<Rightarrow> database \<Rightarrow> bool" where
  "refused_run f r db \<longleftrightarrow> statement_error f db \<noteq> None \<or>
     \<not> (in_i32 (pr_Width r) \<and> in_i32 (pr_Height r) \<and> in_i32 (pr_FramesCount r))"

lemma SaveProcessingRun_room:
  "runs_seq db < 2 ^ 63 \<Longrightarrow> snd (SaveProcessingRun f now r db) =
     (if refused_run f r db then db
      else db\<lparr>runs_seq := runs_seq db + 1, processing_runs := processing_runs db @
        (if user_exists (pr_UserID r) db
         then [r\<lparr>pr_ID := runs_seq db, pr_MemoryMode := normalizeMemoryMode_db (pr_MemoryMode r), pr_CreatedAt := now\<rparr>]
         else [])\<rparr>)"
  by (auto simp: SaveProcessingRun_def refused_run_def Let_def split: option.split)

lemma SaveProcessingRun_refused:
  "refused_run f r db \<Longrightarrow> snd (SaveProcessingRun f now r db) = db"
  "refused_run e x (snd (SaveProcessingRun f now r db)) = refused_run e x db"
  by (auto simp: SaveProcessingRun_def refused_run_def statement_error_def Let_def split: option.split)

lemma SaveProcessingRun_swap:
  assumes "runs_seq (snd (SaveProcessingRun f n r (snd (SaveProcessingRun f' n' r' db)))) < 2 ^ 63"
  shows "store_view (snd (SaveProcessingRun f n r (snd (SaveProcessingRun f' n' r' db)))) =
    store_view (snd (SaveProcessingRun f' n' r' (snd (SaveProcessingRun f n r db))))"
proof -
  let ?db' = "snd (SaveProcessingRun f' n' r' db)"
  have room: "runs_seq ?db' < 2 ^ 63" "runs_seq db < 2 ^ 63"
    using assms SaveProcessingRun_keys [of ?db' f n r] SaveProcessingRun_keys [of db f' n' r'] by linarith+
  have frame: "refused_run e x (db\<lparr>runs_seq := k, processing_runs := rs\<rparr>) = refused_run e x db"
    "user_exists u (db\<lparr>runs_seq := k, processing_runs := rs\<rparr>) = user_exists u db" for e x k rs u
    by (simp_all add: refused_run_def statement_error_def user_exists_def)
  consider (r') "refused_run f' r' db" | (r) "refused_run f r db" "\<not> refused_run f' r' db"
    | (both) "\<not> refused_run f' r' db" "\<not> refused_run f r db" by blast
  then show ?thesis
  proof cases
    case both
    have "runs_seq ?db' = runs_seq db + 1" using both room(2) by (simp add: SaveProcessingRun_room)
    then have "runs_seq db + 1 < 2 ^ 63" using room(1) by simp
    then show ?thesis
      using both room(2) by (simp add: SaveProcessingRun_room frame store_view_def unkeyed_def)
  qed (simp_all add: SaveProcessingRun_refused)
qed

lemma SaveProcessingRun_commute:
  assumes "runs_seq (snd (SaveProcessingRun f n r (snd (SaveProcessingRun f' n' r' db)))) < 2 ^ 63 \<or>
    runs_seq (snd (SaveProcessingRun f' n' r' (snd (SaveProcessingRun f n r db)))) < 2 ^ 63"
  shows "store_view (snd (SaveProcessingRun f n r (snd (SaveProcessingRun f' n' r' db)))) =
    store_view (snd (SaveProcessingRun f' n' r' (snd (SaveProcessingRun f n r db))))"
  using assms SaveProcessingRun_swap by metis

section \<open>Threads that only add, and ask at most once\<close>

primrec adding :: "thread \<Rightarrow> bool" where
  "adding (Return out) \<longleftrightarrow> True"
| "adding (Meter m t) \<longleftrightarrow> adding t"
| "adding (Route k) \<longleftrightarrow> False"
| "adding (CheckIndex i k) \<longleftrightarrow> False"
| "adding (StoreIndex i t) \<longleftrightarrow> False"
| "adding (ReadPool k) \<longleftrightarrow> False"
| "adding (InsertUser f salt name pw k) \<longleftrightarrow> False"
| "adding (SelectUser f name pw k) \<longleftrightarrow> False"
| "adding (InsertSession f u h e t) \<longleftrightarrow> False"
| "adding (InsertRun f now run t) \<longleftrightarrow> adding t"
| "adding (SelectRuns f u l k) \<longleftrightarrow> False"

primrec asks_once :: "thread \<Rightarrow> bool" where
  "asks_once (Return out) \<longleftrightarrow> True"
| "asks_once (Meter m t) \<longleftrightarrow> asks_once t"
| "asks_once (Route k) \<longleftrightarrow> (\<forall>x. adding (k x))"
| "asks_once (CheckIndex i k) \<longleftrightarrow> False"
| "asks_once (StoreIndex i t) \<longleftrightarrow> False"
| "asks_once (ReadPool k) \<longleftrightarrow> False"
| "asks_once (InsertUser f salt name pw k) \<longleftrightarrow> False"
| "asks_once (SelectUser f name pw k) \<longleftrightarrow> False"
| "asks_once (InsertSession f u h e t) \<longleftrightarrow> False"
| "asks_once (InsertRun f now run t) \<longleftrightarrow> asks_once t"
| "asks_once (SelectRuns f u l k) \<longleftrightarrow> False"

lemma adding_asks: "adding t \<Longrightarrow> asks_once t"
  by (induction t) auto

text \<open>The next access adds.\<close>

definition adds :: "thread \<Rightarrow> bool" where
  "adds t \<longleftrightarrow> (\<exists>m u. t = Meter m u) \<or> (\<exists>f now run u. t = InsertRun f now run u)"

lemma asks_once_cases:
  assumes "asks_once t"
  obtains (return) out where "t = Return out" | (add) "adds t" | (route) k where "t = Route k" "\<forall>x. adding (k x)"
  using assms by (cases t) (auto simp: adds_def)

lemma access_asks: "asks_once t \<Longrightarrow> asks_once (fst (access t g))"
  by (cases t) (auto simp: adding_asks statement_def split: prod.split option.split)

lemma access_adds: "adds t \<Longrightarrow> adding t \<Longrightarrow> adding (fst (access t g))"
  by (cases t) (auto simp: adds_def statement_def split: prod.split option.split)

text \<open>The view decides what an access returns and what the view is after it.\<close>

lemma view_parts:
  "view g = view g' \<longleftrightarrow> g_pool g = g_pool g' \<and> g_tokens g = g_tokens g' \<and>
     metrics_view (g_metrics g) = metrics_view (g_metrics g') \<and>
     map_option store_view (g_store g) = map_option store_view (g_store g')"
  by (simp add: view_def)

definition put_store :: "database \<Rightarrow> gateway \<Rightarrow> gateway" where
  "put_store db g = g\<lparr>g_store := Some db\<rparr>"

lemma access_InsertRun:
  "access (InsertRun f now run t) g = (case g_store g of None \<Rightarrow> (Return Panicked, g)
     | Some db \<Rightarrow> (t, put_store (snd (SaveProcessingRun f now run db)) g))"
  by (simp add: statement_def put_store_def split: option.split prod.split)

lemma put_store_simps [simp]:
  "g_pool (put_store db g) = g_pool g" "g_tokens (put_store db g) = g_tokens g" "g_metrics (put_store db g) = g_metrics g"
  "g_store (put_store db g) = Some db" "put_store db' (put_store db g) = put_store db' g"
  "(put_store db g)\<lparr>g_metrics := m\<rparr> = put_store db (g\<lparr>g_metrics := m\<rparr>)"
  "(put_store db g)\<lparr>g_pool := p\<rparr> = put_store db (g\<lparr>g_pool := p\<rparr>)"
  by (simp_all add: put_store_def)

lemma view_put_store [simp]:
  "view (put_store db g) = (g_pool g, g_tokens g, metrics_view (g_metrics g), Some (store_view db))"
  by (simp add: view_def)

declare access.simps(10) [simp del] access_InsertRun [simp]

lemma access_view:
  assumes "asks_once t" "view g = view g'"
  shows "view (snd (access t g)) = view (snd (access t g')) \<and> fst (access t g) = fst (access t g')"
proof (cases t)
  case (Meter m u)
  have "metrics_view (metered m (g_metrics g)) = metrics_view (metered m (g_metrics g'))"
    using assms(2) by (intro metered_view) (simp add: view_parts)
  then show ?thesis using assms(2) Meter by (simp add: view_parts)
next
  case (Route k)
  then show ?thesis using assms(2) by (simp add: view_parts split: prod.split)
next
  case (InsertRun f now run u)
  show ?thesis
  proof (cases "g_store g")
    case None
    then show ?thesis using InsertRun assms(2) by (simp add: view_parts)
  next
    case (Some db)
    then obtain db' where db': "g_store g' = Some db'" "store_view db = store_view db'"
      using assms(2) by (cases "g_store g'") (auto simp: view_parts)
    then show ?thesis
      using InsertRun Some assms(2) SaveProcessingRun_view [OF db'(2), of f now run] by (simp add: view_parts)
  qed
qed (use assms in auto)

lemma access_room: "room (snd (access t g)) \<Longrightarrow> asks_once t \<Longrightarrow> room g"
proof (cases t)
  case (InsertRun f now run u)
  moreover assume "room (snd (access t g))"
  ultimately show ?thesis
    using SaveProcessingRun_keys [of "the (g_store g)" f now run]
    by (cases "g_store g") (simp_all add: room_def)
qed (auto simp: room_def split: prod.splits)

text \<open>An addition and an access of another thread do not notice each other.\<close>

lemma adds_commutes:
  assumes "adds t" "asks_once u" "room (snd (access u (snd (access t g)))) \<or> room (snd (access t (snd (access u g))))"
  shows "fst (access u (snd (access t g))) = fst (access u g) \<and> fst (access t (snd (access u g))) = fst (access t g) \<and>
    view (snd (access u (snd (access t g)))) = view (snd (access t (snd (access u g))))"
proof (cases "\<exists>m v. t = Meter m v")
  case True
  then obtain m v where t: "t = Meter m v" by blast
  from assms(2) show ?thesis
  proof (cases u)
    case (Meter m' v')
    then show ?thesis using t metered_commute [of m' m "g_metrics g"] by (simp add: view_parts)
  next
    case (InsertRun f now run v')
    then show ?thesis using t by (simp add: view_parts split: option.split)
  qed (simp_all add: t view_def split: prod.split)
next
  case False
  then obtain f now run v where t: "t = InsertRun f now run v" using assms(1) by (auto simp: adds_def)
  show ?thesis
  proof (cases "g_store g")
    case None
    then show ?thesis using t assms(2) by (cases u) (simp_all add: split: prod.split)
  next
    case (Some db)
    from assms(2) show ?thesis
    proof (cases u)
      case (InsertRun f' now' run' v')
      have "runs_seq (snd (SaveProcessingRun f' now' run' (snd (SaveProcessingRun f now run db)))) < 2 ^ 63 \<or>
          runs_seq (snd (SaveProcessingRun f now run (snd (SaveProcessingRun f' now' run' db)))) < 2 ^ 63"
        using assms(3) Some t InsertRun by (simp add: room_def)
      from SaveProcessingRun_commute [OF this] show ?thesis using Some t InsertRun by (simp)
    qed (simp_all add: t Some view_parts split: prod.split)
  qed
qed

section \<open>Whole threads\<close>

lemma alone_step: "alone t g = alone (fst (access t g)) (snd (access t g))"
  by (cases "access t g") (simp add: access_alone)

lemma alone_view:
  "asks_once u \<Longrightarrow> view g = view g' \<Longrightarrow> fst (alone u g) = fst (alone u g') \<and> view (snd (alone u g)) = view (snd (alone u g'))"
proof (induction u arbitrary: g g' rule: access_induct)
  case (return out)
  then show ?case by simp
next
  case (access u)
  note same = access_view [OF access.prems]
  have "asks_once (fst (access u g))" using access.prems(1) by (rule access_asks)
  from access.IH [OF this, of "snd (access u g)" "snd (access u g')"] same
  show ?case unfolding alone_step [of u g] alone_step [of u g'] by simp
qed

lemma alone_room: "asks_once u \<Longrightarrow> room (snd (alone u g)) \<Longrightarrow> room g"
proof (induction u arbitrary: g rule: access_induct)
  case (return out)
  then show ?case by simp
next
  case (access u)
  have "room (snd (access u g))"
    using access.IH [OF access_asks, of g "snd (access u g)"] access.prems alone_step [of u g] by simp
  then show ?case using access.prems(1) by (rule access_room)
qed

lemma alone_adds:
  assumes "adds t"
  shows "asks_once u \<Longrightarrow> room (snd (alone u (snd (access t g)))) \<or> room (snd (access t (snd (alone u g)))) \<Longrightarrow>
    fst (alone u (snd (access t g))) = fst (alone u g) \<and> fst (access t (snd (alone u g))) = fst (access t g) \<and>
    view (snd (alone u (snd (access t g)))) = view (snd (access t (snd (alone u g))))"
proof (induction u arbitrary: g rule: access_induct)
  case (return out)
  then show ?case by simp
next
  case (access u)
  let ?g' = "snd (access t g)" and ?g1 = "snd (access u g)" and ?u1 = "fst (access u g)"
  have u1: "asks_once ?u1" using access.prems(1) by (rule access_asks)
  note swap = adds_commutes [OF assms access.prems(1)] and same = alone_view [OF u1, of "snd (access u ?g')" "snd (access t ?g1)"]
  note IH = access.IH [OF u1]
  have "room (snd (access u ?g')) \<or> room (snd (access t ?g1))"
    using access.prems(2)
  proof
    assume "room (snd (alone u ?g'))"
    then show ?thesis
      using alone_room [OF access_asks [OF access.prems(1)]] unfolding alone_step [of u ?g'] by blast
  next
    assume "room (snd (access t (snd (alone u g))))"
    then have "room (snd (access t (snd (alone ?u1 ?g1))))" unfolding alone_step [of u g] .
    then have "room (snd (alone ?u1 (snd (access t ?g1))))" using IH by (metis view_roomD)
    then show ?thesis using alone_room [OF u1] by blast
  qed
  note swap = swap [OF this]
  have "room (snd (alone ?u1 (snd (access t ?g1)))) \<or> room (snd (access t (snd (alone ?u1 ?g1))))"
    using access.prems(2) view_roomD swap same unfolding alone_step [of u ?g'] alone_step [of u g] by metis
  from IH [OF this] show ?case
    using swap same unfolding alone_step [of u ?g'] alone_step [of u g] by simp
qed

text \<open>Threads one after the other.\<close>

fun serially :: "thread list \<Rightarrow> gateway \<Rightarrow> outcome list \<times> gateway" where
  "serially [] g = ([], g)"
| "serially (t # ts) g = (fst (alone t g) # fst (serially ts (snd (alone t g))), snd (serially ts (snd (alone t g))))"

lemma serially_append [simp]:
  "serially (ts @ us) g = (fst (serially ts g) @ fst (serially us (snd (serially ts g))), snd (serially us (snd (serially ts g))))"
  by (induction ts arbitrary: g) simp_all

lemma serially_length [simp]: "length (fst (serially us g)) = length us"
  by (induction us arbitrary: g) simp_all

lemma serially_view:
  "list_all asks_once us \<Longrightarrow> view g = view g' \<Longrightarrow>
    fst (serially us g) = fst (serially us g') \<and> view (snd (serially us g)) = view (snd (serially us g'))"
proof (induction us arbitrary: g g')
  case (Cons u us)
  show ?case using Cons.prems alone_view [of u g g'] Cons.IH [of "snd (alone u g)" "snd (alone u g')"] by simp
qed simp

lemma serially_room: "list_all asks_once us \<Longrightarrow> room (snd (serially us g)) \<Longrightarrow> room g"
proof (induction us arbitrary: g)
  case (Cons u us)
  have "room (snd (alone u g))" by (rule Cons.IH) (use Cons.prems in simp_all)
  then show ?case using alone_room [of u g] Cons.prems(1) by simp
qed simp

lemma serially_adds:
  assumes "adds t"
  shows "list_all asks_once us \<Longrightarrow>
    room (snd (serially us (snd (access t g)))) \<or> room (snd (access t (snd (serially us g)))) \<Longrightarrow>
    fst (serially us (snd (access t g))) = fst (serially us g) \<and> fst (access t (snd (serially us g))) = fst (access t g) \<and>
    view (snd (serially us (snd (access t g)))) = view (snd (access t (snd (serially us g))))"
proof (induction us arbitrary: g)
  case (Cons u us)
  let ?g' = "snd (access t g)" and ?g1 = "snd (alone u g)"
  have us: "asks_once u" "list_all asks_once us" using Cons.prems(1) by simp_all
  note swap = alone_adds [OF assms us(1)] and same = serially_view [OF us(2), of "snd (alone u ?g')" "snd (access t ?g1)"]
  note IH = Cons.IH [OF us(2)]
  have "room (snd (alone u ?g')) \<or> room (snd (access t ?g1))"
    using Cons.prems(2)
  proof
    assume "room (snd (serially (u # us) ?g'))"
    then show ?thesis using serially_room [OF us(2)] by simp
  next
    assume "room (snd (access t (snd (serially (u # us) g))))"
    then have "room (snd (serially us (snd (access t ?g1))))" using IH [of ?g1] view_roomD by (metis serially.simps(2) snd_conv)
    then show ?thesis using serially_room [OF us(2)] by blast
  qed
  note swap = swap [OF this]
  have "room (snd (serially us (snd (access t ?g1)))) \<or> room (snd (access t (snd (serially us ?g1))))"
    using Cons.prems(2) view_roomD swap same by (metis serially.simps(2) snd_conv)
  from IH [OF this] show ?case using swap same by simp
qed simp

lemma serially_adding:
  "adding q \<Longrightarrow> list_all asks_once us \<Longrightarrow> room (snd (alone q (snd (serially us g)))) \<Longrightarrow>
    fst (serially us (snd (alone q g))) = fst (serially us g) \<and> fst (alone q (snd (serially us g))) = fst (alone q g) \<and>
    view (snd (serially us (snd (alone q g)))) = view (snd (alone q (snd (serially us g))))"
proof (induction q arbitrary: g rule: access_induct)
  case (return out)
  then show ?case by simp
next
  case (access q)
  let ?g1 = "snd (access q g)" and ?q1 = "fst (access q g)" and ?h = "snd (serially us g)"
  have q: "adds q" using access.prems(1) access.hyps by (cases q) (auto simp: adds_def)
  have q1: "adding ?q1" using q access.prems(1) by (rule access_adds)
  have "room (snd (access q ?h))"
    using access.prems(3) alone_room [OF adding_asks [OF access_adds [OF q access.prems(1)]]] unfolding alone_step [of q ?h] by blast
  then have swap: "fst (serially us ?g1) = fst (serially us g)" "fst (access q ?h) = ?q1"
    "view (snd (serially us ?g1)) = view (snd (access q ?h))"
    using serially_adds [OF q access.prems(2), of g] by simp_all
  note same = alone_view [OF adding_asks [OF q1] swap(3)]
  have "room (snd (alone ?q1 (snd (serially us ?g1))))"
    using access.prems(3) same view_roomD unfolding alone_step [of q ?h] swap(2) by metis
  from access.IH [OF q1 access.prems(2) this] show ?case
    using swap same unfolding alone_step [of q g] alone_step [of q ?h] by simp
qed

section \<open>Any schedule is an order\<close>

text \<open>Threads by number, one access of the scheduled thread after the other.\<close>

fun act_run :: "nat list \<Rightarrow> (nat \<Rightarrow> thread) \<times> gateway \<Rightarrow> (nat \<Rightarrow> thread) \<times> gateway" where
  "act_run [] s = s"
| "act_run (i # is) (ts, g) = act_run is (ts(i := fst (access (ts i) g)), snd (access (ts i) g))"

lemma serially_returns: "(\<And>t. t \<in> set us \<Longrightarrow> \<exists>out. t = Return out) \<Longrightarrow> map Return (fst (serially us g)) = us \<and> snd (serially us g) = g"
  by (induction us) fastforce+

lemma act_run_serial:
  assumes "act_run sched (ts, g) = (ts', g')" "\<And>i. i < n \<Longrightarrow> asks_once (ts i)" "set sched \<subseteq> {..<n}"
    and "\<And>i. i < n \<Longrightarrow> \<exists>out. ts' i = Return out" "room g'"
  shows "\<exists>order. distinct order \<and> set order = {..<n} \<and> map Return (fst (serially (map ts order) g)) = map ts' order \<and>
    view (snd (serially (map ts order) g)) = view g'"
  using assms(1-3)
proof (induction sched arbitrary: ts g)
  case Nil
  then have "ts = ts'" "g = g'" by simp_all
  then have "map Return (fst (serially (map ts [0..<n]) g)) = map ts [0..<n] \<and> snd (serially (map ts [0..<n]) g) = g"
    using assms(4) by (intro serially_returns) auto
  then show ?case using \<open>ts = ts'\<close> \<open>g = g'\<close> by (intro exI [of _ "[0..<n]"]) (auto simp: lessThan_atLeast0)
next
  case (Cons i sched)
  let ?t = "fst (access (ts i) g)" and ?g1 = "snd (access (ts i) g)"
  let ?ts1 = "ts(i := ?t)"
  have i: "i < n" "set sched \<subseteq> {..<n}" using Cons.prems(3) by simp_all
  have asks: "asks_once (?ts1 j)" if "j < n" for j using Cons.prems(2) [OF that] access_asks [of "ts i" g] by (cases "j = i") simp_all
  have run: "act_run sched (?ts1, ?g1) = (ts', g')" using Cons.prems(1) by simp
  from Cons.IH [OF run asks i(2)] obtain order where order: "distinct order" "set order = {..<n}"
    "map Return (fst (serially (map ?ts1 order) ?g1)) = map ts' order"
    "view (snd (serially (map ?ts1 order) ?g1)) = view g'" by blast
  obtain xs ys where split: "order = xs @ i # ys" using order(2) i(1) by (metis lessThan_iff split_list)
  have off: "i \<notin> set xs" "i \<notin> set ys" using order(1) split by auto
  let ?us = "map ts xs" and ?ws = "map ts ys"
  have maps: "map ?ts1 xs = ?us" "map ?ts1 ys = ?ws" "?ts1 i = ?t" using off by auto
  have all: "list_all asks_once ?us" "list_all asks_once ?ws"
    using Cons.prems(2) order(2) by (auto simp: list_all_iff split)
  have t: "asks_once ?t" using asks [OF i(1)] by simp
  let ?h1 = "snd (serially ?us ?g1)"
  have done1: "map Return (fst (serially (?us @ ?t # ?ws) ?g1)) = map ts' order" "view (snd (serially (?us @ ?t # ?ws) ?g1)) = view g'"
    using order(3,4) unfolding split map_append list.map maps by simp_all
  have "room (snd (serially (?us @ ?t # ?ws) ?g1))" by (rule view_roomD [OF assms(5) done1(2) [symmetric]])
  then have "room (snd (alone ?t ?h1))" using serially_room [OF all(2)] by simp
  show ?case
  proof (cases rule: asks_once_cases [OF Cons.prems(2) [OF i(1)]])
    case (1 out)
    then show ?thesis using order by (intro exI [of _ order]) (simp add: fun_upd_idem)
  next
    case 2
    let ?h = "snd (serially ?us g)"
    have swap: "fst (serially ?us ?g1) = fst (serially ?us g)" "fst (access (ts i) ?h) = ?t" "view ?h1 = view (snd (access (ts i) ?h))"
      using serially_adds [OF 2 all(1), of g] alone_room [OF t \<open>room (snd (alone ?t ?h1))\<close>] by simp_all
    have same: "fst (alone ?t ?h1) = fst (alone (ts i) ?h)" "view (snd (alone ?t ?h1)) = view (snd (alone (ts i) ?h))"
      using alone_view [OF t swap(3)] unfolding alone_step [of "ts i" ?h] swap(2) by simp_all
    note rest = serially_view [OF all(2) same(2)]
    have "fst (serially (?us @ ts i # ?ws) g) = fst (serially (?us @ ?t # ?ws) ?g1)"
      "view (snd (serially (?us @ ts i # ?ws) g)) = view (snd (serially (?us @ ?t # ?ws) ?g1))"
      using swap(1) same(1) rest by simp_all
    then show ?thesis using order(1,2) done1 by (intro exI [of _ order]) (simp only: split map_append list.map)
  next
    case (3 k)
    have q: "adding ?t" using 3 by (simp split: prod.split)
    from serially_adding [OF q all(1) \<open>room (snd (alone ?t ?h1))\<close>]
    have swap: "fst (serially ?us (snd (alone ?t ?g1))) = fst (serially ?us ?g1)" "fst (alone ?t ?h1) = fst (alone ?t ?g1)"
      "view (snd (serially ?us (snd (alone ?t ?g1)))) = view (snd (alone ?t ?h1))" by simp_all
    note rest = serially_view [OF all(2) swap(3)]
    have first: "alone (ts i) g = alone ?t ?g1" by (rule alone_step)
    let ?os = "fst (serially ?us ?g1)" and ?o = "fst (alone ?t ?h1)" and ?ps = "fst (serially ?ws (snd (alone ?t ?h1)))"
    have "fst (serially (ts i # ?us @ ?ws) g) = ?o # ?os @ ?ps" "view (snd (serially (ts i # ?us @ ?ws) g)) = view g'"
      using swap(1,2) rest done1(2) by (simp_all add: first)
    moreover have "map Return (?os @ ?o # ?ps) = map ts' (xs @ i # ys)" using done1(1) by (simp add: split)
    then have "map Return (?o # ?os @ ?ps) = map ts' (i # xs @ ys)"
      using append_eq_append_conv [of "map Return ?os" "map ts' xs"] by simp
    ultimately show ?thesis
      using order(1,2) unfolding split by (intro exI [of _ "i # xs @ ys"]) auto
  qed
qed

section \<open>Which requests these are\<close>

text \<open>
  All but those that decide something by what they read of the accounts, of the log of runs or of the pool: registration
  and login, the history, the health page and the two pages of administration.
\<close>

definition commuting_path :: "string \<Rightarrow> bool" where
  "commuting_path path \<longleftrightarrow> path \<notin> {''/api/register'', ''/api/login'', ''/api/history'', ''/health'',
     ''/api/admin/routing'', ''/api/admin/processors/stats''}"

lemma adding_ws: "adding (ws_thread env client ins outs)"
  by (induction env client ins outs rule: ws_thread.induct) (auto split: option.splits sum.splits)

lemma asks_asUser: "(\<And>u. asks_once (k u)) \<Longrightarrow> asks_once (asUser env r g k)"
  by (auto simp: asUser_def split: sum.split)

lemma asks_handlers:
  "asks_once (HandleProcessFrame_thread env r g)" "asks_once (HandleProcessStream_thread env pf r g)"
  "asks_once (HandleWebSocket_thread env ok ins r g)" "asks_once (HandleStats_thread env r g)"
  "asks_once (HandleRuntime_thread env)"
  by (auto simp: HandleProcessFrame_thread_def process_frame_thread_def processed_thread_def HandleProcessStream_thread_def
      HandleWebSocket_thread_def HandleStats_thread_def HandleRuntime_thread_def Let_def adding_ws
      intro!: asks_asUser split: option.split sum.split)

lemma asks_mux: "commuting_path (rq_path r) \<Longrightarrow> asks_once (mux_thread me r g)"
  by (auto simp: commuting_path_def mux_thread_def Let_def asks_handlers)

text \<open>When a request arrived does not matter for its thread.\<close>

definition same_pointers :: "gateway \<Rightarrow> gateway \<Rightarrow> bool" where
  "same_pointers g g' \<longleftrightarrow> g_tokens g' = g_tokens g \<and> (g_store g' = None) = (g_store g = None)"

lemma grows_pointers: "grows g g' \<Longrightarrow> same_pointers g g'"
  by (cases "g_store g") (auto simp: grows_def same_pointers_def)

lemma userFromRequest_tokens: "g_tokens g' = g_tokens g \<Longrightarrow> userFromRequest env g' r = userFromRequest env g r"
  by (simp add: userFromRequest_def)

lemma mux_thread_pointers:
  assumes "same_pointers g g'" "commuting_path (rq_path r)"
  shows "mux_thread me r g' = mux_thread me r g"
proof -
  have user: "currentUser env g' r = currentUser env g r" "userFromRequest env g' r = userFromRequest env g r" for env
    using assms(1) by (simp_all add: same_pointers_def currentUser_def userFromRequest_def)
  have store: "g_store g' = None \<longleftrightarrow> g_store g = None" using assms(1) by (simp add: same_pointers_def)
  have frame: "HandleProcessFrame_thread env r g' = HandleProcessFrame_thread env r g" for env
    unfolding HandleProcessFrame_thread_def process_frame_thread_def processed_thread_def asUser_def user store ..
  have others: "HandleProcessStream_thread env pf r g' = HandleProcessStream_thread env pf r g"
    "HandleWebSocket_thread env ok ins r g' = HandleWebSocket_thread env ok ins r g"
    "HandleStats_thread env r g' = HandleStats_thread env r g" for env pf ok ins
    unfolding HandleProcessStream_thread_def HandleWebSocket_thread_def HandleStats_thread_def asUser_def user by rule+
  have local: "fst (mux me r g') = fst (mux me r g)"
    if "rq_path r \<notin> {''/api/process'', ''/process'', ''/api/stream'', ''/ws'', ''/stats'', ''/runtime''}"
    using assms(2) that
    by (simp add: commuting_path_def mux_def Let_def answered_def HandleMe_def HandleLoginPage_def HandlePanelPage_def
        HandleRoot_def HandleLogout_def user split: sum.split)
  show ?thesis
    using assms(2) local by (simp add: commuting_path_def mux_thread_def Let_def frame others)
qed

section \<open>From the server to schedules\<close>

fun arrived :: "front_event list \<Rightarrow> (main_env \<times> request) list" where
  "arrived [] = []"
| "arrived (Arrives me r # es) = (me, r) # arrived es"
| "arrived (Acts i # es) = arrived es"
| "arrived (Ticks # es) = arrived es"

lemma arrived_append [simp]: "arrived (es @ es') = arrived es @ arrived es'"
  by (induction es rule: arrived.induct) simp_all

lemma act_run_append: "act_run (is @ js) s = act_run js (act_run is s)"
  by (induction "is" s rule: act_run.induct) simp_all

lemma act_run_other:
  "i \<notin> set sched \<Longrightarrow> act_run sched (ts(i := t), g) = ((fst (act_run sched (ts, g)))(i := t), snd (act_run sched (ts, g)))"
proof (induction sched arbitrary: ts g)
  case (Cons j sched)
  let ?u = "fst (access (ts j) g)" and ?g1 = "snd (access (ts j) g)"
  have ij: "i \<noteq> j" "i \<notin> set sched" using Cons.prems by simp_all
  have "(ts(i := t)) j = ts j" using ij(1) by simp
  moreover have "(ts(i := t))(j := ?u) = (ts(j := ?u))(i := t)" using ij(1) by (rule fun_upd_twist)
  ultimately show ?case using Cons.IH [OF ij(2), of "ts(j := ?u)" ?g1] by (simp only: act_run.simps(2))
qed simp

lemma act_run_return: "ts i = Return out \<Longrightarrow> act_run sched (ts, g) = (ts', g') \<Longrightarrow> ts' i = Return out"
proof (induction sched arbitrary: ts g)
  case (Cons j sched)
  let ?ts = "ts(j := fst (access (ts j) g))"
  have "?ts i = Return out" using Cons.prems(1) by (cases "j = i") simp_all
  then show ?case using Cons.prems(2) unfolding act_run.simps(2) by (rule Cons.IH [of ?ts])
qed simp

definition started :: "gateway \<Rightarrow> main_env \<times> request \<Rightarrow> thread \<Rightarrow> bool" where
  "started g q t \<longleftrightarrow> (if rq_method (snd q) = ''OPTIONS'' then t = Return preflight
     else t = mux_thread (fst q) (snd q) g \<or> t = Return (Done rate_limited))"

definition matches :: "main_env \<times> request \<Rightarrow> thread \<Rightarrow> conversation \<Rightarrow> bool" where
  "matches q t c \<longleftrightarrow> (case c of
     Running r t' \<Rightarrow> r = snd q \<and> t' = t \<and> rq_method r \<noteq> ''OPTIONS''
   | Answered out \<Rightarrow> (\<exists>out'. t = Return out' \<and> out = (if rq_method (snd q) = ''OPTIONS'' then out' else behind_cors out')))"

lemma front_schedule:
  assumes "\<forall>q \<in> set (arrived es). commuting_path (rq_path (snd q))"
    and "b = front_run es \<lparr>server = s, conversations = []\<rparr>"
  shows "\<exists>ts0 ts sched. act_run sched (ts0, ss_gateway s) = (ts, ss_gateway (server b)) \<and>
    set sched \<subseteq> {..<length (arrived es)} \<and> length (conversations b) = length (arrived es) \<and>
    (\<forall>i < length (arrived es). started (ss_gateway s) (arrived es ! i) (ts0 i) \<and>
       matches (arrived es ! i) (ts i) (conversations b ! i))"
  using assms
proof (induction es arbitrary: b rule: rev_induct)
  case Nil
  then show ?case by (intro exI [of _ undefined] exI [of _ "[]"]) auto
next
  case (snoc e es)
  let ?b = "front_run es \<lparr>server = s, conversations = []\<rparr>" and ?rs = "arrived es"
  have b: "b = front_step e ?b" using snoc.prems(2) by simp
  obtain ts0 ts sched where IH: "act_run sched (ts0, ss_gateway s) = (ts, ss_gateway (server ?b))"
    "set sched \<subseteq> {..<length ?rs}" "length (conversations ?b) = length ?rs"
    "\<And>i. i < length ?rs \<Longrightarrow> started (ss_gateway s) (?rs ! i) (ts0 i) \<and> matches (?rs ! i) (ts i) (conversations ?b ! i)"
    using snoc.IH [OF _ refl] snoc.prems(1) by auto
  show ?case
  proof (cases e)
    case Ticks
    then show ?thesis using IH b
      by - (rule exI [of _ ts0], rule exI [of _ ts], rule exI [of _ sched], simp add: ticks_front_def)
  next
    case (Arrives me r)
    let ?n = "length ?rs" and ?g = "ss_gateway (server ?b)"
    have path: "commuting_path (rq_path r)" using snoc.prems(1) Arrives by simp
    have same: "mux_thread me r ?g = mux_thread me r (ss_gateway s)"
      by (rule mux_thread_pointers [OF grows_pointers [OF front_run_grows] path])
    obtain c t where c: "conversations b = conversations ?b @ [c]" "ss_gateway (server b) = ?g"
      "started (ss_gateway s) (me, r) t" "matches (me, r) t c"
    proof (cases "rq_method r = ''OPTIONS''")
      case True
      then show thesis using b Arrives
        by (intro that [of "Answered preflight" "Return preflight"]) (simp_all add: arrives_def started_def matches_def)
    next
      case False
      obtain t where "conversations b = conversations ?b @ [Running r t]"
        "t = mux_thread me r ?g \<or> t = Return (Done rate_limited)" "ss_gateway (server b) = ?g"
        using arrives_running [OF False, of me ?b] b Arrives by auto
      then show thesis using False same
        by (intro that [of "Running r t" t]) (auto simp: started_def matches_def)
    qed
    have "?n \<notin> set sched" using IH(2) by auto
    from act_run_other [OF this, of ts0 t "ss_gateway s"]
    have "act_run sched (ts0(?n := t), ss_gateway s) = (ts(?n := t), ss_gateway (server b))" using IH(1) c(2) by simp
    then show ?thesis
      using IH(2-4) c Arrives
      by - (rule exI [of _ "ts0(?n := t)"], rule exI [of _ "ts(?n := t)"], rule exI [of _ sched], rule conjI, assumption, auto simp: nth_append less_Suc_eq)
  next
    case (Acts i)
    show ?thesis
    proof (cases ?b i rule: acts_cases)
      case idle
      then show ?thesis using IH b Acts by - (rule exI [of _ ts0], rule exI [of _ ts], rule exI [of _ sched], simp)
    next
      case (left r out)
      have i: "i < length ?rs" using left(1) IH(3) by simp
      then have m: "snd (?rs ! i) = r" "ts i = Return out" "rq_method r \<noteq> ''OPTIONS''"
        using IH(4) [OF i] left(2) by (auto simp: matches_def)
      have "ss_gateway (server b) = ss_gateway (server ?b)" using left(3) b Acts m(3) by (simp add: leaves_simps)
      moreover have "matches (?rs ! i) (ts i) (Answered (behind_cors out))" using m by (simp add: matches_def)
      ultimately show ?thesis
        using IH left(3) b Acts m(3) i
        by - (rule exI [of _ ts0], rule exI [of _ ts], rule exI [of _ sched], auto simp: leaves_cors nth_list_update)
    next
      case (accessed r t t' g')
      have i: "i < length ?rs" using accessed(1) IH(3) by simp
      then have m: "snd (?rs ! i) = r" "ts i = t" "rq_method r \<noteq> ''OPTIONS''"
        using IH(4) [OF i] accessed(2) by (auto simp: matches_def)
      have "act_run (sched @ [i]) (ts0, ss_gateway s) = (ts(i := t'), ss_gateway (server b))"
        using IH(1) accessed(4,5) b Acts m(2) by (simp add: act_run_append)
      moreover have "matches (?rs ! i) t' (Running r t')" using m by (simp add: matches_def)
      ultimately show ?thesis
        using IH(2-4) accessed(5) b Acts i
        by - (rule exI [of _ ts0], rule exI [of _ "ts(i := t')"], rule exI [of _ "sched @ [i]"], auto simp: nth_list_update)
    qed
  qed
qed

section \<open>The order as a history of whole requests\<close>

fun serve_all :: "(main_env \<times> request) list \<Rightarrow> gateway \<Rightarrow> outcome list \<times> gateway" where
  "serve_all [] g = ([], g)"
| "serve_all ((me, r) # qs) g = (case mux me r g of
     (out, g) \<Rightarrow> (case serve_all qs g of (outs, g) \<Rightarrow> (out # outs, g)))"

lemma serve_all_threads:
  assumes "same_pointers g0 g" "g_tokens g0 \<noteq> None" "list_all (\<lambda>(me, r). commuting_path (rq_path r)) qs"
  shows "serially (map (\<lambda>(me, r). mux_thread me r g0) qs) g = serve_all qs g"
  using assms(1,3)
proof (induction qs arbitrary: g)
  case (Cons q qs)
  obtain me r where q: "q = (me, r)" by fastforce
  have path: "commuting_path (rq_path r)" using Cons.prems(2) q by simp
  have tok: "g_tokens g \<noteq> None" using Cons.prems(1) assms(2) by (simp add: same_pointers_def)
  have mux: "alone (mux_thread me r g0) g = mux me r g"
    using alone_mux [OF tok, of me r] mux_thread_pointers [OF Cons.prems(1) path] by simp
  obtain out g' where out: "mux me r g = (out, g')" by fastforce
  have "same_pointers g g'" using grows_mux [OF out] by (rule grows_pointers)
  then have "same_pointers g0 g'" using Cons.prems(1) by (simp add: same_pointers_def)
  from Cons.IH [OF this] Cons.prems(2) show ?case by (simp add: q mux out split: prod.split)
qed simp

lemma serially_filter:
  assumes "\<And>i. i \<in> set order \<Longrightarrow> \<not> P i \<Longrightarrow> \<exists>out. ts i = Return out"
    and "fst (serially (map ts order) g) = map f order"
  shows "serially (map ts (filter P order)) g = (map f (filter P order), snd (serially (map ts order) g))"
  using assms
proof (induction order arbitrary: g)
  case (Cons i order)
  show ?case
  proof (cases "P i")
    case True
    then show ?thesis using Cons.IH [of "snd (alone (ts i) g)"] Cons.prems by (simp add: prod_eq_iff)
  next
    case False
    then obtain out where "ts i = Return out" using Cons.prems(1) by auto
    then show ?thesis using Cons.IH [of g] Cons.prems False by simp
  qed
qed simp

text \<open>The order of all requests, refused ones included, with the thread each began with and the outcome it had.\<close>

lemma answered_order:
  assumes "server_state_inv s" and "b = front_run es \<lparr>server = s, conversations = []\<rparr>"
    and "\<forall>q \<in> set (arrived es). commuting_path (rq_path (snd q))"
    and "\<forall>c \<in> set (conversations b). \<exists>out. c = Answered out"
    and "room (ss_gateway (server b))"
  obtains order ts0 f where "distinct order" "set order = {..<length (arrived es)}"
    "serially (map ts0 order) (ss_gateway s) = (map f order, snd (serially (map ts0 order) (ss_gateway s)))"
    "view (snd (serially (map ts0 order) (ss_gateway s))) = view (ss_gateway (server b))"
    "\<And>i. i < length (arrived es) \<Longrightarrow> started (ss_gateway s) (arrived es ! i) (ts0 i)"
    "\<And>i. i < length (arrived es) \<Longrightarrow> matches (arrived es ! i) (Return (f i)) (conversations b ! i)"
    "\<And>i. i < length (arrived es) \<Longrightarrow> \<exists>out. conversations b ! i = Answered out"
    "\<And>i out. i < length (arrived es) \<Longrightarrow> ts0 i = Return out \<Longrightarrow> f i = out"
proof -
  let ?rs = "arrived es" and ?n = "length (arrived es)" and ?g = "ss_gateway s"
  obtain ts0 ts sched where run: "act_run sched (ts0, ?g) = (ts, ss_gateway (server b))" "set sched \<subseteq> {..<?n}"
    and len: "length (conversations b) = ?n"
    and each: "\<And>i. i < ?n \<Longrightarrow> started ?g (?rs ! i) (ts0 i) \<and> matches (?rs ! i) (ts i) (conversations b ! i)"
    using front_schedule [OF assms(3,2)] by blast
  have path: "commuting_path (rq_path (snd (?rs ! i)))" if "i < ?n" for i
    using that assms(3) by simp
  have asks: "asks_once (ts0 i)" if "i < ?n" for i
    using each [OF that] asks_mux [OF path [OF that]] by (auto simp: started_def preflight_def split: if_splits)
  have answer: "\<exists>out. conversations b ! i = Answered out" if "i < ?n" for i
    using that len by (intro assms(4) [rule_format] nth_mem) simp
  have ended: "\<exists>out. ts i = Return out" if i: "i < ?n" for i
    using answer [OF i] each [OF i] by (auto simp: matches_def)
  obtain order where order: "distinct order" "set order = {..<?n}"
    "map Return (fst (serially (map ts0 order) ?g)) = map ts order"
    "view (snd (serially (map ts0 order) ?g)) = view (ss_gateway (server b))"
    using act_run_serial [OF run(1) asks run(2) ended assms(5)] by blast
  define f where "f i = (case ts i of Return out \<Rightarrow> out)" for i
  have f: "ts i = Return (f i)" if "i < ?n" for i using ended [OF that] by (auto simp: f_def)
  have "map Return (fst (serially (map ts0 order) ?g)) = map Return (map f order)"
    using order(2,3) f by simp
  then have outs: "fst (serially (map ts0 order) ?g) = map f order"
    by (metis inj_map_eq_map injI thread.inject(1))
  have "f i = out" if "i < ?n" "ts0 i = Return out" for i out
    using act_run_return [OF that(2) run(1)] by (simp add: f_def)
  with order outs each f answer show thesis by (intro that [of order ts0 f]) (simp_all add: prod_eq_iff)
qed

text \<open>The requests that were let in, as whole ones in that order.\<close>

definition let_in :: "main_env \<times> request \<Rightarrow> thread \<Rightarrow> bool" where
  "let_in q t \<longleftrightarrow> rq_method (snd q) \<noteq> ''OPTIONS'' \<and> t \<noteq> Return (Done rate_limited)"

lemma not_let_in: "started g q t \<Longrightarrow> \<not> let_in q t \<Longrightarrow> t = Return preflight \<or> t = Return (Done rate_limited)"
  by (auto simp: let_in_def started_def split: if_splits)

lemma let_in_whole:
  assumes "\<And>i. i \<in> set order \<Longrightarrow> started g (rs ! i) (ts0 i)" and "g_tokens g \<noteq> None"
    and "\<And>i. i \<in> set order \<Longrightarrow> commuting_path (rq_path (snd (rs ! i)))"
    and "fst (serially (map ts0 order) g) = map f order"
  shows "serve_all (map ((!) rs) (filter (\<lambda>i. let_in (rs ! i) (ts0 i)) order)) g =
    (map f (filter (\<lambda>i. let_in (rs ! i) (ts0 i)) order), snd (serially (map ts0 order) g))"
proof -
  let ?os = "filter (\<lambda>i. let_in (rs ! i) (ts0 i)) order"
  have "ts0 i = mux_thread (fst (rs ! i)) (snd (rs ! i)) g" if "i \<in> set order" "let_in (rs ! i) (ts0 i)" for i
    using assms(1) [OF that(1)] that(2) by (simp add: let_in_def started_def)
  then have "map ts0 ?os = map (\<lambda>(me, r). mux_thread me r g) (map ((!) rs) ?os)" by (simp add: split_beta)
  moreover have "list_all (\<lambda>(me, r). commuting_path (rq_path r)) (map ((!) rs) ?os)"
    using assms(3) by (auto simp: list_all_iff split_beta)
  ultimately have "serially (map ts0 ?os) g = serve_all (map ((!) rs) ?os) g"
    using serve_all_threads [of g g "map ((!) rs) ?os"] assms(2) by (simp only: same_pointers_def simp_thms)
  moreover have "\<exists>out. ts0 i = Return out" if "i \<in> set order" "\<not> let_in (rs ! i) (ts0 i)" for i
    using not_let_in [OF assms(1) [OF that(1)] that(2)] by blast
  ultimately show ?thesis using serially_filter [of order _ ts0, OF _ assms(4)] by (metis (no_types, lifting))
qed

section \<open>Properties\<close>

text \<open>
  C8. Interleaved requests are as good as whole ones. Whatever requests arrive, on all paths but those that
  read accounts, the log of runs or the pool, however their accesses interleave, once all are answered there is an
  order of the requests that were let in such that serving them whole, one after the other, gives every one the same
  answer, every instrument the same value, the same pool and the same tables, up to the order of the latencies and of
  the inserted runs. The others were preflights or were refused by the limiter.
\<close>

theorem requests_serialisable:
  assumes "server_state_inv s" and "b = front_run es \<lparr>server = s, conversations = []\<rparr>"
    and "\<forall>q \<in> set (arrived es). commuting_path (rq_path (snd q))"
    and "\<forall>c \<in> set (conversations b). \<exists>out. c = Answered out"
    and "room (ss_gateway (server b))"
  shows "\<exists>order outs g. distinct order \<and> set order \<subseteq> {..<length (arrived es)} \<and>
    serve_all (map ((!) (arrived es)) order) (ss_gateway s) = (outs, g) \<and> view g = view (ss_gateway (server b)) \<and>
    map ((!) (conversations b)) order = map (\<lambda>out. Answered (behind_cors out)) outs \<and>
    (\<forall>i < length (arrived es). i \<notin> set order \<longrightarrow>
       conversations b ! i \<in> {Answered preflight, Answered (Done (with_cors rate_limited))})"
proof -
  let ?rs = "arrived es" and ?n = "length (arrived es)" and ?g = "ss_gateway s"
  obtain order ts0 f where order: "distinct order" "set order = {..<?n}"
      "serially (map ts0 order) ?g = (map f order, snd (serially (map ts0 order) ?g))"
      "view (snd (serially (map ts0 order) ?g)) = view (ss_gateway (server b))"
    and each: "\<And>i. i < ?n \<Longrightarrow> started ?g (?rs ! i) (ts0 i)" "\<And>i. i < ?n \<Longrightarrow> matches (?rs ! i) (Return (f i)) (conversations b ! i)"
      "\<And>i. i < ?n \<Longrightarrow> \<exists>out. conversations b ! i = Answered out" "\<And>i out. i < ?n \<Longrightarrow> ts0 i = Return out \<Longrightarrow> f i = out"
    using answered_order [OF assms] by blast
  let ?os = "filter (\<lambda>i. let_in (?rs ! i) (ts0 i)) order"
  have "g_tokens ?g \<noteq> None" using assms(1) by (simp add: server_state_inv_def gateway_inv_def)
  then have whole: "serve_all (map ((!) ?rs) ?os) ?g = (map f ?os, snd (serially (map ts0 order) ?g))"
    using order(2,3) each(1) assms(3) by (intro let_in_whole) (simp_all add: prod_eq_iff)
  have "conversations b ! i = Answered (behind_cors (f i))" if "i < ?n" "let_in (?rs ! i) (ts0 i)" for i
    using each(2,3) [OF that(1)] that(2) by (auto simp: matches_def let_in_def)
  then have answers: "map ((!) (conversations b)) ?os = map (\<lambda>out. Answered (behind_cors out)) (map f ?os)"
    using order(2) by auto
  have "conversations b ! i \<in> {Answered preflight, Answered (Done (with_cors rate_limited))}"
    if i: "i < ?n" "i \<notin> set ?os" for i
  proof -
    have "\<not> let_in (?rs ! i) (ts0 i)" using i order(2) by auto
    then have "f i = preflight \<or> f i = Done rate_limited" using not_let_in [OF each(1) [OF i(1)]] each(4) [OF i(1)] by blast
    then show ?thesis
      using each(1-3) [OF i(1)] \<open>\<not> let_in _ _\<close> each(4) [OF i(1)]
      by (auto simp: matches_def let_in_def started_def behind_cors_def preflight_def split: if_splits)
  qed
  then show ?thesis using order(1,2,4) whole answers by (intro exI [of _ ?os]) auto
qed

text \<open>Two frames at once, one access each in turn.\<close>

definition sample_frame_pair :: "front_event list" where
  "sample_frame_pair = (let q = Arrives sample_main_env (bearer sample_token (sample_request\<lparr>rq_frame_json := Some sample_frame\<rparr>))
     in q # q # concat (replicate 7 [Acts 0, Acts 1]))"

theorem requests_serialisable_witness:
  "\<exists>order outs g. distinct order \<and> set order \<subseteq> {0, 1} \<and>
     serve_all (map ((!) (arrived sample_frame_pair)) order) (ss_gateway sample_server) = (outs, g) \<and>
     view g = view (ss_gateway (server (front_run sample_frame_pair \<lparr>server = sample_server, conversations = []\<rparr>)))"
proof -
  let ?r = "bearer sample_token (sample_request\<lparr>rq_frame_json := Some sample_frame\<rparr>)"
  let ?q = "Arrives sample_main_env ?r" and ?acts = "concat (replicate 7 [Acts 0, Acts 1])"
  let ?start = "\<lparr>server = sample_server, conversations = []\<rparr>"
  let ?first = "arrives sample_main_env ?r ?start" and ?final = "front_run sample_frame_pair ?start"
  have pair: "sample_frame_pair = ?q # ?q # ?acts" by (simp only: sample_frame_pair_def Let_def)
  have arrived: "arrived sample_frame_pair = [(sample_main_env, ?r), (sample_main_env, ?r)]"
    by (simp add: pair numeral_eq_Suc)
  have one: "length (conversations ?first) = 1" using arrives_conversations [of sample_main_env ?r ?start] by auto
  have paths: "\<forall>q \<in> set (arrived sample_frame_pair). commuting_path (rq_path (snd q))"
    by (simp add: arrived commuting_path_def bearer_def sample_request_def)
  obtain ts0 ts sched where len: "length (conversations ?final) = 2"
    using front_schedule [OF paths refl, of sample_server] by (auto simp: arrived)
  have "6 + 2 * length (me_messages sample_main_env) < count_list (?q # ?acts) (Acts 0)"
    "6 + 2 * length (me_messages sample_main_env) < count_list ?acts (Acts 1)"
    by (simp_all add: sample_main_env_def numeral_eq_Suc)
  then obtain o0 o1 where "conversations ?final ! 0 = Answered o0" "conversations ?final ! 1 = Answered o1"
    using arrival_answered [of sample_main_env "?q # ?acts" ?start ?r] arrival_answered [of sample_main_env ?acts ?first ?r]
    by (auto simp: pair one)
  then have answered: "\<forall>c \<in> set (conversations ?final). \<exists>out. c = Answered out"
    using len by (auto simp: in_set_conv_nth less_2_cases_iff)
  have "g_store (ss_gateway (server ?final)) = None"
    using front_run_grows [of sample_server sample_frame_pair] by (simp add: grows_def sample_server_def)
  then have "room (ss_gateway (server ?final))" by (simp add: room_def)
  from requests_serialisable [OF sample_server_sound refl paths answered this]
  show ?thesis by (fastforce simp: arrived)
qed

end
