(* ===== verification/Go_Scan.thy ===== *)
theory Go_Scan
  imports Go_Text
begin

text \<open>
  How both programs read their port (\<open>main\<close> of \<open>gateway/cmd/server/main.go\<close> and of
  \<open>processor-go/cmd/server/main.go\<close>): a flag, overridden by an environment variable that
  \<open>fmt.Sscanf\<close> scans.
\<close>

section \<open>The port\<close>

text \<open>
  \<open>fmt.Sscanf(s, "%d", &port)\<close>: blanks, an optional sign, digits; what follows is ignored, and a
  failure, whose error the code drops, leaves the variable as it is.
\<close>

definition is_blank :: "char \<Rightarrow> bool" where
  "is_blank c \<longleftrightarrow> (of_char c :: nat) \<in> {9, 11, 12, 13, 32}"

definition Sscanf_d :: "string \<Rightarrow> int option" where
  "Sscanf_d s = (
     let s = dropWhile is_blank s;
         (sign, s) = (case s of c # cs \<Rightarrow> if c = CHR ''+'' \<or> c = CHR ''-'' then ([c], cs) else ([], s) | [] \<Rightarrow> ([], []));
         digits = takeWhile (\<lambda>c. digit_val c \<noteq> None) s
     in if digits = [] then None else parse_int_ok (sign @ digits))"

definition port_from :: "int \<Rightarrow> string \<Rightarrow> int" where
  "port_from flag env_port =
     (if env_port \<noteq> [] then (case Sscanf_d env_port of Some n \<Rightarrow> n | None \<Rightarrow> flag) else flag)"

text \<open>A port written as a number is that number, whatever follows it; anything else is ignored.\<close>

lemma show_nat_digits: "c \<in> set (show_nat n) \<Longrightarrow> digit_val c \<noteq> None"
  using show_nat_chars [of c n] by (simp add: digit_val_def Let_def)

lemma scan_digits:
  assumes "rest = [] \<or> digit_val (hd rest) = None"
  shows "takeWhile (\<lambda>c. digit_val c \<noteq> None) (show_nat n @ rest) = show_nat n"
  using assms show_nat_digits [of _ n] by (cases rest) (auto simp: takeWhile_append2)

lemma blank_no_digit: "digit_val c \<noteq> None \<Longrightarrow> \<not> is_blank c \<and> c \<noteq> CHR ''+'' \<and> c \<noteq> CHR ''-''"
  by (auto simp: digit_val_def is_blank_def Let_def split: if_splits)

lemma Sscanf_show_int:
  assumes "in_i64 n" and "rest = [] \<or> digit_val (hd rest) = None"
  shows "Sscanf_d (show_int n @ rest) = Some n"
proof -
  have parse: "parse_int_ok (show_int n) = Some n"
    using ParseInt_show_int [OF assms(1)] by (simp add: parse_int_ok_def)
  obtain c cs where nat: "show_nat (nat n) = c # cs" by (cases "show_nat (nat n)") simp_all
  note c = blank_no_digit [OF show_nat_digits [of c "nat n"]]
  show ?thesis
  proof (cases "n < 0")
    case True
    then show ?thesis
      using parse scan_digits [OF assms(2), of "nat (- n)"]
      by (simp add: Sscanf_d_def show_int_def is_blank_def)
  next
    case False
    then show ?thesis
      using parse scan_digits [OF assms(2), of "nat n"] c by (simp add: Sscanf_d_def show_int_def nat)
  qed
qed

lemma port_from_number:
  "in_i64 n \<Longrightarrow> rest = [] \<or> digit_val (hd rest) = None \<Longrightarrow> port_from flag (show_int n @ rest) = n"
  using Sscanf_show_int [of n rest] by (auto simp: port_from_def show_int_def)

text \<open>
  The error of \<open>Sscanf\<close> is dropped: a variable without a number in front leaves the port of the flag, and
  what follows the number is ignored.
\<close>

lemma port_from_garbage:
  "port_from 8080 ''http'' = 8080" "port_from 8080 ''80a'' = 80" "port_from 8080 '' +90 '' = 90"
  by (simp_all add: port_from_def Sscanf_d_def is_blank_def digit_val_def Let_def parse_int_ok_def ParseInt_def
      signed_range_def)

end
