(* ===== verification/Gateway_Process.thy ===== *)
theory Gateway_Process
  imports Gateway_Facts Go_Scan
begin

text \<open>
  The process of the gateway: \<open>main\<close> of \<open>gateway/cmd/server/main.go\<close> around the server of
  \<open>Gateway_Main\<close>: its address, the goroutine that listens, the signal, \<open>Shutdown\<close>, and the deferred calls
  that close the store and the processor pool.
\<close>

section \<open>The process\<close>

datatype gateway_phase = Listening | Draining | Ended_with nat

datatype resource = PoolConnections | StoreConnections

record gateway_process =
  gw_phase :: gateway_phase
  gw_addr :: string
  gw_server :: server_state
  gw_closed :: "resource list"

text \<open>
  The start: \<open>None\<close> when \<open>main\<close> ends before it listens (\<open>gateway_start\<close>). The \<open>defer\<close> of each
  resource is pushed when it is acquired.
\<close>

definition gateway_main ::
  "(string \<Rightarrow> error + nat) \<Rightarrow> (nat \<Rightarrow> string + database) \<Rightarrow> string option \<Rightarrow> int \<Rightarrow> string \<Rightarrow> config \<Rightarrow> gateway_process option" where
  "gateway_main dial attempt migrate_fault flag env_port cf =
     map_option (\<lambda>s. \<lparr>gw_phase = Listening, gw_addr = CHR '':'' # show_int (port_from flag env_port),
                      gw_server = s, gw_closed = []\<rparr>)
       (gateway_start dial attempt migrate_fault cf)"

text \<open>\<open>defer\<close> runs last in, first out; \<open>Store.Close\<close> of a store that was never opened is not deferred.\<close>

definition deferred_closes :: "server_state \<Rightarrow> resource list" where
  "deferred_closes s = (if g_store (ss_gateway s) = None then [] else [StoreConnections]) @ [PoolConnections]"

definition run_deferred :: "(ProcessorClient \<Rightarrow> error option) \<Rightarrow> gateway_process \<Rightarrow> gateway_process" where
  "run_deferred close p = p\<lparr>
     gw_closed := gw_closed p @ deferred_closes (gw_server p),
     gw_server := (gw_server p)\<lparr>ss_gateway :=
       (ss_gateway (gw_server p))\<lparr>g_pool := snd (Close close (g_pool (ss_gateway (gw_server p))))\<rparr>\<rparr>\<rparr>"

definition ErrServerClosed :: string where
  "ErrServerClosed = ''http: Server closed''"

text \<open>
  A request is served, the limiter ticks, \<open>ListenAndServe\<close> returns an error, a signal
  arrives, \<open>Shutdown\<close> returns (its error is only logged). A fatal error skips the deferred calls.
\<close>

datatype gateway_input =
    Request main_env request
  | LimiterTick
  | ListenFails string
  | StopSignal
  | ShutdownReturns "(ProcessorClient \<Rightarrow> error option)" "string option"

fun gateway_process_step :: "gateway_input \<Rightarrow> gateway_process \<Rightarrow> outcome list \<times> gateway_process" where
  "gateway_process_step (Request me r) p = (if gw_phase p = Listening
     then (case finalHandler me r (gw_server p) of (out, s) \<Rightarrow> ([out], p\<lparr>gw_server := s\<rparr>))
     else ([], p))"
| "gateway_process_step LimiterTick p = ([], case gw_phase p of
     Ended_with code \<Rightarrow> p
   | _ \<Rightarrow> p\<lparr>gw_server := (gw_server p)\<lparr>ss_limiter := refill (ss_limiter (gw_server p))\<rparr>\<rparr>)"
| "gateway_process_step (ListenFails e) p = ([], case gw_phase p of
     Ended_with code \<Rightarrow> p
   | _ \<Rightarrow> if e = ErrServerClosed then p else p\<lparr>gw_phase := Ended_with 1\<rparr>)"
| "gateway_process_step StopSignal p = ([], if gw_phase p = Listening then p\<lparr>gw_phase := Draining\<rparr> else p)"
| "gateway_process_step (ShutdownReturns close e) p = ([],
     if gw_phase p = Draining then (run_deferred close p)\<lparr>gw_phase := Ended_with 0\<rparr> else p)"

fun gateway_process_run :: "gateway_input list \<Rightarrow> gateway_process \<Rightarrow> outcome list \<times> gateway_process" where
  "gateway_process_run [] p = ([], p)"
| "gateway_process_run (i # is) p = (case gateway_process_step i p of (outs, p) \<Rightarrow>
     (case gateway_process_run is p of (outs', p) \<Rightarrow> (outs @ outs', p)))"

section \<open>The life of the gateway\<close>

text \<open>What the inputs mean for the server alone: the requests until it stops listening, the ticks until it ends.\<close>

fun served :: "gateway_phase \<Rightarrow> gateway_input list \<Rightarrow> event list" where
  "served ph [] = []"
| "served Listening (Request me r # is) = Serve me r # served Listening is"
| "served Listening (LimiterTick # is) = Refill # served Listening is"
| "served Listening (ListenFails e # is) = (if e = ErrServerClosed then served Listening is else [])"
| "served Listening (StopSignal # is) = served Draining is"
| "served Draining (LimiterTick # is) = Refill # served Draining is"
| "served Draining (ListenFails e # is) = (if e = ErrServerClosed then served Draining is else [])"
| "served Draining (ShutdownReturns close e # is) = []"
| "served (Ended_with code) (i # is) = []"
| "served ph (i # is) = served ph is"

lemma ended_stays: "gw_phase p = Ended_with code \<Longrightarrow> gateway_process_run is p = ([], p)"
proof (induction "is")
  case (Cons i "is")
  have "gateway_process_step i p = ([], p)" using Cons.prems by (cases i) simp_all
  then show ?case using Cons by simp
qed simp

lemma served_ended [simp]: "served (Ended_with code) is = []"
  by (cases "is") simp_all

text \<open>What the process has closed, given the state \<open>s\<close> of the server when it stopped working.\<close>

definition lifecycle_end :: "server_state \<Rightarrow> gateway_process \<Rightarrow> bool" where
  "lifecycle_end s p \<longleftrightarrow> (if gw_phase p = Ended_with 0
     then gw_closed p = deferred_closes s \<and> clients (g_pool (ss_gateway (gw_server p))) = [] \<and>
       g_store (ss_gateway (gw_server p)) = g_store (ss_gateway s)
     else gw_phase p \<in> {Listening, Draining, Ended_with 1} \<and> gw_closed p = [] \<and> gw_server p = s)"

lemma gateway_process_served:
  assumes "gateway_process_run is p = (outs, p')" and "gw_phase p \<in> {Listening, Draining}" and "gw_closed p = []"
  shows "\<exists>s. gateway_run (served (gw_phase p) is) (gw_server p) = (outs, s) \<and> lifecycle_end s p'"
  using assms
proof (induction "is" arbitrary: p outs)
  case Nil
  then show ?case by (auto simp: lifecycle_end_def)
next
  case (Cons i "is")
  obtain o1 p1 o2 where step: "gateway_process_step i p = (o1, p1)" and run: "gateway_process_run is p1 = (o2, p')"
    and outs: "outs = o1 @ o2"
    using Cons.prems(1) by (auto split: prod.splits)
  show ?case
  proof (cases "\<exists>code. gw_phase p1 = Ended_with code")
    case True
    then have "p' = p1" "o2 = []" using ended_stays [of p1] run by auto
    then show ?thesis
      using step outs Cons.prems(2,3) True
      by (cases i; cases "gw_phase p")
        (auto simp: lifecycle_end_def run_deferred_def Close_def split: if_splits prod.splits)
  next
    case False
    then have ph: "gw_phase p1 \<in> {Listening, Draining}" by (cases "gw_phase p1") auto
    have "gw_closed p1 = []"
      using step Cons.prems(2,3) False by (cases i; cases "gw_phase p") (auto split: if_splits prod.splits)
    from Cons.IH [OF run ph this] show ?thesis
      using step outs Cons.prems(2) False
      by (cases i; cases "gw_phase p") (auto split: if_splits prod.splits)
  qed
qed

section \<open>Properties\<close>



end
