(* ===== verification/Processor_Concurrent.thy ===== *)
theory Processor_Concurrent
  imports Processor_Server "HOL-Library.Multiset"
begin

text \<open>
  The Go processor with many streams at once. gRPC runs \<open>ProcessMediaStream\<close> and \<open>GetStats\<close> of
  \<open>processor-go/cmd/server/main.go\<close> in one goroutine per call; they share the counters
  \<open>globalStats\<close>, the Prometheus instruments and, through \<open>kernelPool\<close>, the buffers the blur
  computes its weights in. \<open>sync.Pool\<close> keeps pointers: here the buffers live on a heap
  (\<open>sh_heap\<close>, indexed by address) and the pool holds addresses.

  A goroutine advances by one atomic action at a time: one \<open>atomic.AddInt64\<close>, one call of the
  pool, one iteration of a loop that reads or writes the pooled buffer. What touches only the
  goroutine's own slices (the validation, the other three filters) is part of the action
  before it. A run is any list of events: which stream or statistics call moves next, or a
  buffer the garbage collector drops from the pool.

  The lemmas show that no action panics, that a held buffer is never shared (through the locale
  \<open>buffer_pool\<close>, interpreted by the model of \<open>sync.Pool\<close>), and that what remains of a blur is
  the sequential blur. What follows for whole runs is in \<open>Concurrent_Facts\<close>.
\<close>

section \<open>Shared state\<close>

record shared =
  sh_stats :: globalStats
  sh_heap :: "fl list list"
  sh_pool :: "nat list"
  sh_framesProcessed :: nat
  sh_processingTime :: "fl list"

definition initial_shared :: "int \<Rightarrow> shared" where
  "initial_shared now =
     \<lparr>sh_stats = stats (initial_processor now), sh_heap = [], sh_pool = [],
      sh_framesProcessed = 0, sh_processingTime = []\<rparr>"

text \<open>
  \<open>kernelPool.Get()\<close>: some pooled address, or a fresh buffer from \<open>New\<close>; \<open>kernelPool.Put\<close>; and
  the collector, which may empty the pool at any time.
\<close>

definition take_buffer :: "nat option \<Rightarrow> shared \<Rightarrow> nat \<times> shared" where
  "take_buffer pick g =
     (let fresh = (length (sh_heap g), g\<lparr>sh_heap := sh_heap g @ [kernel_New]\<rparr>)
      in case pick of
           Some i \<Rightarrow> if i < length (sh_pool g)
             then (sh_pool g ! i, g\<lparr>sh_pool := take i (sh_pool g) @ drop (Suc i) (sh_pool g)\<rparr>) else fresh
         | None \<Rightarrow> fresh)"

definition give_buffer :: "nat \<Rightarrow> shared \<Rightarrow> shared" where
  "give_buffer a g = g\<lparr>sh_pool := a # sh_pool g\<rparr>"

definition collect_buffer :: "nat \<Rightarrow> shared \<Rightarrow> shared" where
  "collect_buffer i g = g\<lparr>sh_pool := take i (sh_pool g) @ drop (Suc i) (sh_pool g)\<rparr>"

section \<open>One chunk, action by action\<close>

text \<open>A blur in progress: its radius, the address of its kernel buffer and its two slices.\<close>

record blur_job =
  bj_radius :: fl
  bj_kernel :: nat
  bj_output :: bytes
  bj_temp :: "fl list"

text \<open>
  Where a goroutine is inside \<open>processChunk\<close>: what it does next. \<open>Fill\<close> and \<open>Normalise\<close> carry the
  loop counter and the running sum of \<open>generateGaussianKernel\<close>, the passes their pixel.
\<close>

datatype work =
    TakeBuffer fl
  | CountGet blur_job
  | Fill blur_job int fl
  | Normalise blur_job int fl
  | Horizontal blur_job int int
  | Vertical blur_job int int
  | GiveBuffer blur_job
  | CountPut bytes
  | CountFrame bytes
  | CountTime ProcessedChunk
  | CountAlloc ProcessedChunk
  | ReadMemory ProcessedChunk
  | IncFrames ProcessedChunk
  | Observe ProcessedChunk
  | Reply ProcessedChunk

text \<open>The head of \<open>processChunk\<close>: the two checks and the choice of the filter.\<close>

definition admit :: "MediaChunk \<Rightarrow> work option" where
  "admit chunk = (
     let result = blank_result (mc_SequenceId chunk) in
     if mc_Type chunk \<noteq> MEDIA_TYPE_VIDEO \<and> mc_Type chunk \<noteq> MEDIA_TYPE_IMAGE
     then Some (Reply (result\<lparr>pc_Success := False, pc_ErrorMessage := ''Unsupported media type''\<rparr>))
     else
       let width = sint (mc_Width chunk);
           height = sint (mc_Height chunk);
           expectedSize = wrap64 (width * height * 3)
       in if int (length (mc_Data chunk)) \<noteq> expectedSize
          then Some (Reply (result\<lparr>pc_Success := False,
                       pc_ErrorMessage := size_error expectedSize (length (mc_Data chunk))\<rparr>))
          else case chunk_params (mc_Params chunk) of (filt, blurRadius, intensity) \<Rightarrow>
            if filt = FILTER_TYPE_GAUSSIAN_BLUR then Some (TakeBuffer blurRadius)
            else if filt = FILTER_TYPE_GRAYSCALE then map_option CountFrame (Grayscale (mc_Data chunk) width height)
            else if filt = FILTER_TYPE_SHARPEN then map_option CountFrame (Sharpen (mc_Data chunk) width height intensity)
            else if filt = FILTER_TYPE_EDGE_DETECT then map_option CountFrame (EdgeDetect (mc_Data chunk) width height)
            else Some (TakeBuffer blurRadius))"

definition add_stats :: "(globalStats \<Rightarrow> globalStats) \<Rightarrow> shared \<Rightarrow> shared" where
  "add_stats f g = g\<lparr>sh_stats := f (sh_stats g)\<rparr>"

text \<open>One iteration of a loop over \<open>kernel[:kernelSize]\<close>, which writes through to the buffer.\<close>

definition on_window :: "nat \<Rightarrow> int \<Rightarrow> (fl list \<Rightarrow> (fl list \<times> 'a) option) \<Rightarrow> shared \<Rightarrow> (shared \<times> 'a) option" where
  "on_window a n body g = do {
     window \<leftarrow> slice_to (sh_heap g ! a) n;
     (window, v) \<leftarrow> body window;
     Some (g\<lparr>sh_heap := (sh_heap g)[a := window @ drop (nat n) (sh_heap g ! a)]\<rparr>, v) }"

text \<open>The actions of \<open>GaussianBlur\<close>, \<open>generateGaussianKernel\<close> included.\<close>

fun blur_step :: "(fl \<Rightarrow> fl) \<Rightarrow> MediaChunk \<Rightarrow> call_env \<Rightarrow> work \<Rightarrow> shared \<Rightarrow> (work \<times> shared) option" where
  "blur_step mexp chunk env (TakeBuffer radius) g = do {
     let size = wrap64 (sint (mc_Width chunk) * sint (mc_Height chunk) * 3);
     output \<leftarrow> make_slice size 0;
     temp \<leftarrow> make_slice size (Fin 0);
     let (a, g) = take_buffer (pool_pick env) g;
     Some (CountGet \<lparr>bj_radius = radius, bj_kernel = a, bj_output = output, bj_temp = temp\<rparr>, g) }"
| "blur_step mexp chunk env (CountGet job) g =
     Some (Fill job 0 (Fin 0), add_stats (\<lambda>s. s\<lparr>totalPoolGets := totalPoolGets s + 1\<rparr>) g)"
| "blur_step mexp chunk env (Fill job i acc) g = (
     let n = kernel_size (bj_radius job);
         sigma2 = fl_mul F32 (fl_mul F32 (Fin 2) (bj_radius job)) (bj_radius job)
     in if i < n then do {
          (g, acc) \<leftarrow> on_window (bj_kernel job) n (\<lambda>ker. kernel_fill mexp (n div 2) sigma2 i (ker, acc)) g;
          Some (Fill job (i + 1) acc, g) }
        else Some (Normalise job 0 acc, g))"
| "blur_step mexp chunk env (Normalise job i acc) g = (
     let n = kernel_size (bj_radius job)
     in if i < n then do {
          (g, u) \<leftarrow> on_window (bj_kernel job) n (\<lambda>ker. map_option (\<lambda>ker. (ker, ())) (kernel_norm acc i ker)) g;
          Some (Normalise job (i + 1) acc, g) }
        else Some (Horizontal job 0 0, g))"
| "blur_step mexp chunk env (Horizontal job y x) g = (
     let width = sint (mc_Width chunk); height = sint (mc_Height chunk)
     in if y < height then
          if x < width then do {
            temp \<leftarrow> blur_px_h (mc_Data chunk) (sh_heap g ! bj_kernel job) (kernel_size (bj_radius job)) width y x
                     (bj_temp job);
            Some (Horizontal (job\<lparr>bj_temp := temp\<rparr>) y (x + 1), g) }
          else Some (Horizontal job (y + 1) 0, g)
        else Some (Vertical job 0 0, g))"
| "blur_step mexp chunk env (Vertical job y x) g = (
     let width = sint (mc_Width chunk); height = sint (mc_Height chunk)
     in if y < height then
          if x < width then do {
            output \<leftarrow> blur_px_v (bj_temp job) (sh_heap g ! bj_kernel job) (kernel_size (bj_radius job)) width height
                       y x (bj_output job);
            Some (Vertical (job\<lparr>bj_output := output\<rparr>) y (x + 1), g) }
          else Some (Vertical job (y + 1) 0, g)
        else Some (GiveBuffer job, g))"
| "blur_step mexp chunk env (GiveBuffer job) g =
     Some (CountPut (bj_output job), give_buffer (bj_kernel job) g)"
| "blur_step mexp chunk env (CountPut output) g =
     Some (CountFrame output, add_stats (\<lambda>s. s\<lparr>totalPoolPuts := totalPoolPuts s + 1\<rparr>) g)"
| "blur_step mexp chunk env w g = Some (w, g)"

text \<open>The actions of \<open>processChunk\<close> after the filter, and those of the blur.\<close>

fun work_step :: "(fl \<Rightarrow> fl) \<Rightarrow> MediaChunk \<Rightarrow> call_env \<Rightarrow> work \<Rightarrow> shared \<Rightarrow> (work \<times> shared) option" where
  "work_step mexp chunk env (CountFrame output) g =
     Some (CountTime ((blank_result (mc_SequenceId chunk))\<lparr>pc_Data := output, pc_Success := True,
                        pc_ProcessingTimeNs := elapsed_ns env\<rparr>),
           add_stats (\<lambda>s. s\<lparr>totalFrames := totalFrames s + 1\<rparr>) g)"
| "work_step mexp chunk env (CountTime result) g =
     Some (CountAlloc result,
           add_stats (\<lambda>s. s\<lparr>totalTimeNs := totalTimeNs s + pc_ProcessingTimeNs result\<rparr>) g)"
| "work_step mexp chunk env (CountAlloc result) g =
     Some (ReadMemory result, add_stats (\<lambda>s. s\<lparr>totalAllocs := totalAllocs s + 1\<rparr>) g)"
| "work_step mexp chunk env (ReadMemory result) g =
     Some (IncFrames (result\<lparr>pc_MemoryMetrics := Some \<lparr>mm_ArenaAllocatedBytes = 0, mm_ArenaUsedBytes = 0,
             mm_TotalAllocations = mem_Mallocs env, mm_HeapUsedBytes = mem_HeapAlloc env\<rparr>\<rparr>), g)"
| "work_step mexp chunk env (IncFrames result) g =
     Some (Observe result, g\<lparr>sh_framesProcessed := sh_framesProcessed g + 1\<rparr>)"
| "work_step mexp chunk env (Observe result) g =
     Some (Reply result, g\<lparr>sh_processingTime := sh_processingTime g @
             [fl_div F64 (float64_of (pc_ProcessingTimeNs result)) (Fin (10 ^ 9))]\<rparr>)"
| "work_step mexp chunk env (Reply result) g = Some (Reply result, g)"
| "work_step mexp chunk env w g = blur_step mexp chunk env w g"

section \<open>One stream, and the server\<close>

type_synonym round = "recv \<times> call_env \<times> string option"

datatype location = AtRecv | Working "MediaChunk \<times> call_env \<times> string option" work | Ended stream_end

record stream =
  s_at :: location
  s_rounds :: "round list"
  s_sent :: "ProcessedChunk list"

fun receive :: "round \<Rightarrow> location option" where
  "receive (EOF, env, out) = Some (Ended Finished)"
| "receive (RecvFailed e, env, out) = Some (Ended (Failed e))"
| "receive (Received chunk, env, out) = map_option (Working (chunk, env, out)) (admit chunk)"

text \<open>The next action of a stream; blocked in \<open>Recv\<close> without input, it does nothing.\<close>

definition stream_action :: "(fl \<Rightarrow> fl) \<Rightarrow> stream \<Rightarrow> shared \<Rightarrow> (stream \<times> shared) option" where
  "stream_action mexp s g = (case s_at s of
     AtRecv \<Rightarrow> (case s_rounds s of
         [] \<Rightarrow> Some (s, g)
       | r # rs \<Rightarrow> map_option (\<lambda>p. (s\<lparr>s_at := p, s_rounds := rs\<rparr>, g)) (receive r))
   | Working call w \<Rightarrow> (case w of
         Reply result \<Rightarrow> (case snd (snd call) of
             Some e \<Rightarrow> Some (s\<lparr>s_at := Ended (Failed e)\<rparr>, g)
           | None \<Rightarrow> Some (s\<lparr>s_at := AtRecv, s_sent := s_sent s @ [result]\<rparr>, g))
       | _ \<Rightarrow> map_option (\<lambda>(w, g). (s\<lparr>s_at := Working call w\<rparr>, g))
                (work_step mexp (fst call) (fst (snd call)) w g))
   | Ended stop \<Rightarrow> Some (s, g))"

text \<open>\<open>GetStats\<close>, one load of a counter at a time.\<close>

datatype stats_call =
    StatsCalled call_env i64
  | GotFrames call_env i64 i64
  | GotTime call_env i64 i64 i64
  | GotAllocs call_env i64 i64 i64 i64
  | StatsAnswered StatsResponse

fun stats_action :: "stats_call \<Rightarrow> shared \<Rightarrow> stats_call" where
  "stats_action (StatsCalled env up) g = GotFrames env up (totalFrames (sh_stats g))"
| "stats_action (GotFrames env up frames) g = GotTime env up frames (totalTimeNs (sh_stats g))"
| "stats_action (GotTime env up frames time) g = GotAllocs env up frames time (totalAllocs (sh_stats g))"
| "stats_action (GotAllocs env up frames time allocs) g = StatsAnswered
     \<lparr>sr_TotalFramesProcessed = frames,
      sr_TotalProcessingTimeNs = time,
      sr_AvgProcessingTimeMs = average_ms time frames,
      sr_CurrentArenaSizeBytes = mem_HeapAlloc env,
      sr_PeakArenaSizeBytes = mem_HeapSys env,
      sr_TotalArenaAllocations = allocs,
      sr_TotalArenaResets = totalPoolPuts (sh_stats g),
      sr_FramesPerSecond = frame_rate frames up\<rparr>"
| "stats_action (StatsAnswered r) g = StatsAnswered r"

record server =
  shared_state :: shared
  streams :: "stream list"
  stats_calls :: "stats_call list"

datatype server_event = Moves nat | Reads nat | Collects nat

fun server_step :: "(fl \<Rightarrow> fl) \<Rightarrow> server_event \<Rightarrow> server \<Rightarrow> server option" where
  "server_step mexp (Moves i) v =
     (if i < length (streams v)
      then map_option (\<lambda>(s, g). v\<lparr>shared_state := g, streams := (streams v)[i := s]\<rparr>)
             (stream_action mexp (streams v ! i) (shared_state v))
      else Some v)"
| "server_step mexp (Reads j) v =
     (if j < length (stats_calls v)
      then Some (v\<lparr>stats_calls := (stats_calls v)[j := stats_action (stats_calls v ! j) (shared_state v)]\<rparr>)
      else Some v)"
| "server_step mexp (Collects i) v = Some (v\<lparr>shared_state := collect_buffer i (shared_state v)\<rparr>)"

text \<open>A panic in any goroutine is the end of the process.\<close>

fun server_run :: "(fl \<Rightarrow> fl) \<Rightarrow> server_event list \<Rightarrow> server \<Rightarrow> server option" where
  "server_run mexp [] v = Some v"
| "server_run mexp (e # es) v = do { v \<leftarrow> server_step mexp e v; server_run mexp es v }"

definition server_start :: "int \<Rightarrow> round list list \<Rightarrow> (call_env \<times> i64) list \<Rightarrow> server" where
  "server_start now Rs calls =
     \<lparr>shared_state = initial_shared now,
      streams = map (\<lambda>R. \<lparr>s_at = AtRecv, s_rounds = R, s_sent = []\<rparr>) Rs,
      stats_calls = map (\<lambda>(env, up). StatsCalled env up) calls\<rparr>"


section \<open>Who holds which buffer\<close>

text \<open>
  The contract of \<open>sync.Pool\<close> that the blur relies on, for any pool: a buffer taken is a free one
  or a fresh one, a buffer given back is free, and the pool may lose free buffers but never
  touches their contents. The client's side: \<open>H\<close> are the buffers the goroutines hold.
\<close>

definition exclusive :: "nat multiset \<Rightarrow> nat multiset \<Rightarrow> nat \<Rightarrow> bool" where
  "exclusive free H bound \<longleftrightarrow> (\<forall>a. count (free + H) a \<le> (if a < bound then 1 else 0))"

locale buffer_pool =
  fixes take_b :: "'e \<Rightarrow> 'p \<Rightarrow> nat \<times> 'p" and give_b :: "nat \<Rightarrow> 'p \<Rightarrow> 'p" and lose_b :: "nat \<Rightarrow> 'p \<Rightarrow> 'p"
    and free :: "'p \<Rightarrow> nat multiset" and heap :: "'p \<Rightarrow> 'b list" and fresh :: 'b
  assumes take: "take_b e p = (a, p') \<Longrightarrow>
      free p = add_mset a (free p') \<and> heap p' = heap p \<or>
      a = length (heap p) \<and> free p' = free p \<and> heap p' = heap p @ [fresh]"
    and give: "free (give_b a p) = add_mset a (free p) \<and> heap (give_b a p) = heap p"
    and lose: "free (lose_b i p) \<subseteq># free p \<and> heap (lose_b i p) = heap p"
begin

lemma take_exclusive:
  assumes "take_b e p = (a, p')" "exclusive (free p) H (length (heap p))"
  shows "exclusive (free p') (add_mset a H) (length (heap p'))"
proof -
  have le: "count (free p) b + count H b \<le> (if b < length (heap p) then 1 else 0)" for b
    using assms(2) by (auto simp: exclusive_def simp del: One_nat_def)
  have "count (free p') b + count (add_mset a H) b \<le> (if b < length (heap p') then 1 else 0)" for b
    using take [OF assms(1)] le [of b] by (auto split: if_splits)
  then show ?thesis unfolding exclusive_def count_union by blast
qed

lemma give_exclusive:
  "exclusive (free p) (add_mset a H) (length (heap p)) \<Longrightarrow> exclusive (free (give_b a p)) H (length (heap (give_b a p)))"
  using give [of a p] by (simp add: exclusive_def)

lemma lose_exclusive:
  assumes "exclusive (free p) H (length (heap p))"
  shows "exclusive (free (lose_b i p)) H (length (heap (lose_b i p)))"
proof -
  have "count (free (lose_b i p)) b \<le> count (free p) b" for b
    using lose [of i p] by (simp add: mset_subset_eq_count)
  then have "count (free (lose_b i p) + H) b \<le> count (free p + H) b" for b by simp
  then show ?thesis
    using assms lose [of i p] unfolding exclusive_def by (metis order_trans)
qed

end

lemma exclusive_addD:
  assumes "exclusive free (add_mset a H) n"
  shows "a < n" and "a \<notin># H" and "a \<notin># free"
proof -
  have "count (free + add_mset a H) a \<le> (if a < n then 1 else 0)" using assms unfolding exclusive_def by blast
  then show "a < n" and "a \<notin># H" and "a \<notin># free"
    by (auto simp: not_in_iff split: if_splits)
qed

lemma exclusive_freeD:
  assumes "exclusive free H n" "a \<in># free"
  shows "a < n"
proof -
  have "count free a + count H a \<le> (if a < n then 1 else 0)"
    using assms(1) unfolding exclusive_def count_union by blast
  then show ?thesis using assms(2) by (auto simp: count_eq_zero_iff split: if_splits)
qed

lemma exclusive_distinct:
  assumes "exclusive (mset xs) H n"
  shows "distinct xs"
proof -
  have "count (mset xs) a = (if a \<in> set xs then 1 else 0)" for a
  proof -
    have "count (mset xs) a + count H a \<le> (if a < n then 1 else 0)"
      using assms unfolding exclusive_def count_union by blast
    then have "count (mset xs) a \<le> (if a < n then 1 else 0)" by (rule add_leD1)
    then have "count (mset xs) a \<le> 1" by (rule order_trans) simp
    moreover have "count (mset xs) a \<noteq> 0" if "a \<in> set xs" using that by (simp add: count_eq_zero_iff)
    moreover have "count (mset xs) a = 0" if "a \<notin> set xs" using that by (simp add: count_eq_zero_iff)
    ultimately show ?thesis by (metis le_antisym less_one linorder_not_less)
  qed
  then show ?thesis by (simp add: distinct_count_atmost_1)
qed

lemma exclusive_empty [simp]: "exclusive {#} {#} n"
  by (simp add: exclusive_def)

lemma mset_take_drop: "i < length xs \<Longrightarrow> mset xs = add_mset (xs ! i) (mset (take i xs @ drop (Suc i) xs))"
  by (metis id_take_nth_drop mset.simps(2) mset_append union_mset_add_mset_right)

interpretation kp: buffer_pool take_buffer give_buffer collect_buffer "\<lambda>g. mset (sh_pool g)" sh_heap kernel_New
proof
  fix pick p a p' assume "take_buffer pick p = (a, p')"
  then show "mset (sh_pool p) = add_mset a (mset (sh_pool p')) \<and> sh_heap p' = sh_heap p \<or>
      a = length (sh_heap p) \<and> mset (sh_pool p') = mset (sh_pool p) \<and> sh_heap p' = sh_heap p @ [kernel_New]"
    by (auto simp: take_buffer_def Let_def simp del: mset_append dest: mset_take_drop split: option.splits if_splits)
next
  fix i and p :: shared
  have "mset (take i (sh_pool p) @ drop (Suc i) (sh_pool p)) \<subseteq># mset (sh_pool p)"
    using mset_take_drop [of i "sh_pool p"] by (cases "i < length (sh_pool p)") auto
  then show "mset (sh_pool (collect_buffer i p)) \<subseteq># mset (sh_pool p) \<and> sh_heap (collect_buffer i p) = sh_heap p"
    by (simp add: collect_buffer_def)
qed (simp add: give_buffer_def)


fun job_of :: "work \<Rightarrow> blur_job option" where
  "job_of (CountGet job) = Some job"
| "job_of (Fill job i acc) = Some job"
| "job_of (Normalise job i acc) = Some job"
| "job_of (Horizontal job y x) = Some job"
| "job_of (Vertical job y x) = Some job"
| "job_of (GiveBuffer job) = Some job"
| "job_of w = None"

definition work_held :: "work \<Rightarrow> nat multiset" where
  "work_held w = (case job_of w of Some job \<Rightarrow> {#bj_kernel job#} | None \<Rightarrow> {#})"

definition held :: "stream \<Rightarrow> nat multiset" where
  "held s = (case s_at s of Working call w \<Rightarrow> work_held w | _ \<Rightarrow> {#})"

section \<open>What remains of a blur\<close>

text \<open>
  The rest of a blur, run without interference from a given point, with the contents \<open>buf\<close> of
  its buffer: from the point where the buffer is taken it is the sequential \<open>GaussianBlur\<close>.
\<close>

definition rest_vertical :: "MediaChunk \<Rightarrow> blur_job \<Rightarrow> fl list \<Rightarrow> int \<Rightarrow> int \<Rightarrow> bytes option" where
  "rest_vertical chunk job buf y x = (
     let w = sint (mc_Width chunk); h = sint (mc_Height chunk);
         px = blur_px_v (bj_temp job) buf (kernel_size (bj_radius job)) w h
     in if y < h then do {
          output \<leftarrow> for_loop x w (px y) (bj_output job);
          for_loop (y + 1) h (\<lambda>y. for_loop 0 w (px y)) output }
        else Some (bj_output job))"

definition rest_horizontal :: "MediaChunk \<Rightarrow> blur_job \<Rightarrow> fl list \<Rightarrow> int \<Rightarrow> int \<Rightarrow> bytes option" where
  "rest_horizontal chunk job buf y x = (
     let w = sint (mc_Width chunk); h = sint (mc_Height chunk);
         px = blur_px_h (mc_Data chunk) buf (kernel_size (bj_radius job)) w
     in do {
       temp \<leftarrow> (if y < h then do {
           temp \<leftarrow> for_loop x w (px y) (bj_temp job);
           for_loop (y + 1) h (\<lambda>y. for_loop 0 w (px y)) temp }
         else Some (bj_temp job));
       rest_vertical chunk (job\<lparr>bj_temp := temp\<rparr>) buf 0 0 })"

definition rest_normalise :: "MediaChunk \<Rightarrow> blur_job \<Rightarrow> fl list \<Rightarrow> int \<Rightarrow> fl \<Rightarrow> bytes option" where
  "rest_normalise chunk job buf i acc = (
     let n = kernel_size (bj_radius job)
     in do {
       window \<leftarrow> for_loop i n (kernel_norm acc) (take (nat n) buf);
       rest_horizontal chunk job (window @ drop (nat n) buf) 0 0 })"

definition rest_fill :: "(fl \<Rightarrow> fl) \<Rightarrow> MediaChunk \<Rightarrow> blur_job \<Rightarrow> fl list \<Rightarrow> int \<Rightarrow> fl \<Rightarrow> bytes option" where
  "rest_fill mexp chunk job buf i acc = (
     let n = kernel_size (bj_radius job);
         sigma2 = fl_mul F32 (fl_mul F32 (Fin 2) (bj_radius job)) (bj_radius job)
     in do {
       (window, acc) \<leftarrow> for_loop i n (kernel_fill mexp (n div 2) sigma2) (take (nat n) buf, acc);
       rest_normalise chunk job (window @ drop (nat n) buf) 0 acc })"

fun rest_of :: "(fl \<Rightarrow> fl) \<Rightarrow> MediaChunk \<Rightarrow> work \<Rightarrow> fl list \<Rightarrow> bytes option" where
  "rest_of mexp chunk (CountGet job) buf = rest_fill mexp chunk job buf 0 (Fin 0)"
| "rest_of mexp chunk (Fill job i acc) buf = rest_fill mexp chunk job buf i acc"
| "rest_of mexp chunk (Normalise job i acc) buf = rest_normalise chunk job buf i acc"
| "rest_of mexp chunk (Horizontal job y x) buf = rest_horizontal chunk job buf y x"
| "rest_of mexp chunk (Vertical job y x) buf = rest_vertical chunk job buf y x"
| "rest_of mexp chunk (GiveBuffer job) buf = Some (bj_output job)"
| "rest_of mexp chunk w buf = None"

lemma rows_first:
  "(if (0::int) < h then do { s \<leftarrow> for_loop 0 w (f 0) s; for_loop (0 + 1) h (\<lambda>y. for_loop 0 w (f y)) s } else Some s) =
     for_loop 0 h (\<lambda>y. for_loop 0 w (f y)) s"
  by (simp add: for_loop_step [of 0 h])

lemma kernel_length:
  "kernel_fill mexp half s2 i (ker, acc) = Some (ker', acc') \<Longrightarrow> length ker' = length ker"
  "kernel_norm acc i ker = Some ker' \<Longrightarrow> length ker' = length ker"
  by (auto simp: kernel_fill_def kernel_norm_def bind_eq_Some_conv dest: put_length)

lemma window_length:
  "length buf = 31 \<Longrightarrow> length (take (nat (kernel_size r)) buf) = nat (kernel_size r)"
  "length buf = 31 \<Longrightarrow> slice_to buf (kernel_size r) = Some (take (nat (kernel_size r)) buf)"
  using kernel_size_bounds [of r] by (auto simp: slice_to_def)

lemma rest_is_blur:
  assumes buf: "length buf = 31"
    and slices: "make_slice (wrap64 (sint (mc_Width chunk) * sint (mc_Height chunk) * 3)) 0 = Some output"
      "make_slice (wrap64 (sint (mc_Width chunk) * sint (mc_Height chunk) * 3)) (Fin 0) = Some temp"
  shows "rest_fill mexp chunk \<lparr>bj_radius = radius, bj_kernel = a, bj_output = output, bj_temp = temp\<rparr> buf 0 (Fin 0) =
    map_option fst (GaussianBlur mexp buf (mc_Data chunk) (sint (mc_Width chunk)) (sint (mc_Height chunk)) radius)"
proof -
  let ?n = "kernel_size radius"
  obtain ws acc where fill: "for_loop 0 ?n (kernel_fill mexp (?n div 2)
      (fl_mul F32 (fl_mul F32 (Fin 2) radius) radius)) (take (nat ?n) buf, Fin 0) = Some (ws, acc)"
      and ws: "length ws = nat ?n"
    using kernel_fill_loop [OF window_length(1) [OF buf, of radius]] kernel_size_bounds [of radius] by simp
  have n: "int (length (take (nat ?n) buf)) = ?n"
    using window_length(1) [OF buf, of radius] kernel_size_bounds [of radius] by simp
  show ?thesis
    using ws buf kernel_size_bounds [of radius]
    by (simp add: rest_fill_def rest_normalise_def rest_horizontal_def rest_vertical_def GaussianBlur_def
        generateGaussianKernel_def Let_def window_length(2) [OF buf] n fill slices rows_first option.map_comp
        map_option_bind comp_def cong: Option.bind_cong)
qed


text \<open>One iteration leaves the rest of the computation as it was.\<close>

lemma rest_fill_step:
  assumes "rest_fill mexp chunk job buf i acc = Some F" and "i < kernel_size (bj_radius job)" and "length buf = 31"
  shows "\<exists>window acc'. kernel_fill mexp (kernel_size (bj_radius job) div 2)
        (fl_mul F32 (fl_mul F32 (Fin 2) (bj_radius job)) (bj_radius job)) i
        (take (nat (kernel_size (bj_radius job))) buf, acc) = Some (window, acc') \<and>
      length window = nat (kernel_size (bj_radius job)) \<and>
      rest_fill mexp chunk job (window @ drop (nat (kernel_size (bj_radius job))) buf) (i + 1) acc' = Some F"
proof -
  let ?n = "kernel_size (bj_radius job)" and ?s2 = "fl_mul F32 (fl_mul F32 (Fin 2) (bj_radius job)) (bj_radius job)"
  obtain window acc' where w: "kernel_fill mexp (?n div 2) ?s2 i (take (nat ?n) buf, acc) = Some (window, acc')"
    and F: "do { (ws, acc) \<leftarrow> for_loop (i + 1) ?n (kernel_fill mexp (?n div 2) ?s2) (window, acc');
      rest_normalise chunk job (ws @ drop (nat ?n) buf) 0 acc } = Some F"
    using assms(1,2) by (auto simp: rest_fill_def Let_def for_loop_step bind_eq_Some_conv)
  have "length window = nat ?n"
    using kernel_length(1) [OF w] window_length(1) [OF assms(3)] by simp
  then show ?thesis using w F by (simp add: rest_fill_def Let_def)
qed

lemma rest_normalise_step:
  assumes "rest_normalise chunk job buf i acc = Some F" and "i < kernel_size (bj_radius job)" and "length buf = 31"
  shows "\<exists>window. kernel_norm acc i (take (nat (kernel_size (bj_radius job))) buf) = Some window \<and>
      length window = nat (kernel_size (bj_radius job)) \<and>
      rest_normalise chunk job (window @ drop (nat (kernel_size (bj_radius job))) buf) (i + 1) acc = Some F"
proof -
  obtain window where w: "kernel_norm acc i (take (nat (kernel_size (bj_radius job))) buf) = Some window"
    and F: "do { ws \<leftarrow> for_loop (i + 1) (kernel_size (bj_radius job)) (kernel_norm acc) window;
      rest_horizontal chunk job (ws @ drop (nat (kernel_size (bj_radius job))) buf) 0 0 } = Some F"
    using assms(1,2) by (auto simp: rest_normalise_def Let_def for_loop_step bind_eq_Some_conv)
  have "length window = nat (kernel_size (bj_radius job))"
    using kernel_length(2) [OF w] window_length(1) [OF assms(3)] by simp
  then show ?thesis using w F by (simp add: rest_normalise_def Let_def)
qed

lemma rest_loops_done:
  "\<not> i < kernel_size (bj_radius job) \<Longrightarrow> rest_fill mexp chunk job buf i acc = rest_normalise chunk job buf 0 acc"
  "\<not> i < kernel_size (bj_radius job) \<Longrightarrow> rest_normalise chunk job buf i acc = rest_horizontal chunk job buf 0 0"
  "\<not> y < sint (mc_Height chunk) \<Longrightarrow> rest_horizontal chunk job buf y x = rest_vertical chunk job buf 0 0"
  "\<not> y < sint (mc_Height chunk) \<Longrightarrow> rest_vertical chunk job buf y x = Some (bj_output job)"
  by (simp add: rest_fill_def Let_def, simp add: rest_normalise_def Let_def, simp add: rest_horizontal_def Let_def,
      simp add: rest_vertical_def Let_def)

lemma rest_horizontal_step:
  assumes "y < sint (mc_Height chunk)"
  shows "\<not> x < sint (mc_Width chunk) \<Longrightarrow> rest_horizontal chunk job buf y x = rest_horizontal chunk job buf (y + 1) 0"
    and "x < sint (mc_Width chunk) \<Longrightarrow> rest_horizontal chunk job buf y x = do {
      temp \<leftarrow> blur_px_h (mc_Data chunk) buf (kernel_size (bj_radius job)) (sint (mc_Width chunk)) y x (bj_temp job);
      rest_horizontal chunk (job\<lparr>bj_temp := temp\<rparr>) buf y (x + 1) }"
  using assms
  by (cases "y + 1 < sint (mc_Height chunk)";
      simp add: rest_horizontal_def Let_def for_loop_step [of x] for_loop_step [of "y + 1"])+

lemma rest_vertical_step:
  assumes "y < sint (mc_Height chunk)"
  shows "\<not> x < sint (mc_Width chunk) \<Longrightarrow> rest_vertical chunk job buf y x = rest_vertical chunk job buf (y + 1) 0"
    and "x < sint (mc_Width chunk) \<Longrightarrow> rest_vertical chunk job buf y x = do {
      output \<leftarrow> blur_px_v (bj_temp job) buf (kernel_size (bj_radius job)) (sint (mc_Width chunk)) (sint (mc_Height chunk))
        y x (bj_output job);
      rest_vertical chunk (job\<lparr>bj_output := output\<rparr>) buf y (x + 1) }"
  using assms
  by (cases "y + 1 < sint (mc_Height chunk)";
      simp add: rest_vertical_def Let_def for_loop_step [of x] for_loop_step [of "y + 1"])+

section \<open>The invariant of one call\<close>

definition asks_blur :: "MediaChunk \<Rightarrow> bool" where
  "asks_blur chunk \<longleftrightarrow> valid_chunk chunk \<and> fst (chunk_params (mc_Params chunk)) \<notin>
     {FILTER_TYPE_GRAYSCALE, FILTER_TYPE_SHARPEN, FILTER_TYPE_EDGE_DETECT}"

definition timed_reply :: "(fl \<Rightarrow> fl) \<Rightarrow> call_env \<Rightarrow> MediaChunk \<Rightarrow> ProcessedChunk" where
  "timed_reply mexp env chunk = (blank_result (mc_SequenceId chunk))\<lparr>pc_Data := the (chunk_frame mexp chunk),
     pc_Success := True, pc_ProcessingTimeNs := elapsed_ns env\<rparr>"

definition frame_rest :: "(fl \<Rightarrow> fl) \<Rightarrow> MediaChunk \<Rightarrow> work \<Rightarrow> fl list list \<Rightarrow> blur_job \<Rightarrow> bool" where
  "frame_rest mexp chunk w hp job \<longleftrightarrow> asks_blur chunk \<and>
     rest_of mexp chunk w (hp ! bj_kernel job) = Some (the (chunk_frame mexp chunk))"

fun work_ok :: "(fl \<Rightarrow> fl) \<Rightarrow> MediaChunk \<Rightarrow> call_env \<Rightarrow> fl list list \<Rightarrow> work \<Rightarrow> bool" where
  "work_ok mexp chunk env hp (TakeBuffer radius) \<longleftrightarrow> asks_blur chunk \<and> sized chunk \<and>
     radius = fst (snd (chunk_params (mc_Params chunk)))"
| "work_ok mexp chunk env hp (CountPut output) \<longleftrightarrow> asks_blur chunk \<and> output = the (chunk_frame mexp chunk)"
| "work_ok mexp chunk env hp (CountFrame output) \<longleftrightarrow> valid_chunk chunk \<and> output = the (chunk_frame mexp chunk)"
| "work_ok mexp chunk env hp (CountTime r) \<longleftrightarrow> valid_chunk chunk \<and> r = timed_reply mexp env chunk"
| "work_ok mexp chunk env hp (CountAlloc r) \<longleftrightarrow> valid_chunk chunk \<and> r = timed_reply mexp env chunk"
| "work_ok mexp chunk env hp (ReadMemory r) \<longleftrightarrow> valid_chunk chunk \<and> r = timed_reply mexp env chunk"
| "work_ok mexp chunk env hp (IncFrames r) \<longleftrightarrow> valid_chunk chunk \<and> r = chunk_reply mexp env chunk"
| "work_ok mexp chunk env hp (Observe r) \<longleftrightarrow> valid_chunk chunk \<and> r = chunk_reply mexp env chunk"
| "work_ok mexp chunk env hp (Reply r) \<longleftrightarrow> r = chunk_reply mexp env chunk"
| "work_ok mexp chunk env hp w \<longleftrightarrow> frame_rest mexp chunk w hp (the (job_of w))"

definition heap_ok :: "shared \<Rightarrow> bool" where
  "heap_ok g \<longleftrightarrow> (\<forall>buf \<in> set (sh_heap g). length buf = 31)"

lemma heap_okD: "heap_ok g \<Longrightarrow> a < length (sh_heap g) \<Longrightarrow> length (sh_heap g ! a) = 31"
  by (simp add: heap_ok_def)

lemma heap_ok_update: "heap_ok g \<Longrightarrow> length buf = 31 \<Longrightarrow> heap_ok (g\<lparr>sh_heap := (sh_heap g)[a := buf]\<rparr>)"
  using set_update_subset_insert [of "sh_heap g" a buf] by (auto simp: heap_ok_def)

lemma asks_blur_valid: "asks_blur chunk \<Longrightarrow> valid_chunk chunk"
  by (simp add: asks_blur_def)

lemma chunk_reply_valid:
  "valid_chunk chunk \<Longrightarrow> chunk_reply mexp env chunk = (timed_reply mexp env chunk)\<lparr>pc_MemoryMetrics :=
     Some \<lparr>mm_ArenaAllocatedBytes = 0, mm_ArenaUsedBytes = 0, mm_TotalAllocations = mem_Mallocs env,
       mm_HeapUsedBytes = mem_HeapAlloc env\<rparr>\<rparr>"
  by (auto simp: chunk_reply_def timed_reply_def Let_def valid_chunk_def)


lemma take_buffer_fresh:
  assumes "take_buffer pick g = (a, g')" "heap_ok g" "\<forall>a \<in> set (sh_pool g). a < length (sh_heap g)"
  shows "a < length (sh_heap g')" and "length (sh_heap g' ! a) = 31" and "heap_ok g'"
  using assms
  by (auto simp: take_buffer_def heap_ok_def kernel_New_def Let_def nth_append split: option.splits if_splits)

lemma chunk_frame_blur:
  assumes "asks_blur chunk" "sized chunk" "length buf = 31"
  shows "map_option fst (GaussianBlur mexp buf (mc_Data chunk) (sint (mc_Width chunk)) (sint (mc_Height chunk))
      (fst (snd (chunk_params (mc_Params chunk))))) = Some (the (chunk_frame mexp chunk))"
proof -
  note fits = valid_chunk_fits [OF asks_blur_valid [OF assms(1)] assms(2)]
  obtain filt radius intensity where choice: "chunk_params (mc_Params chunk) = (filt, radius, intensity)"
    by (cases "chunk_params (mc_Params chunk)")
  have "chunk_frame mexp chunk = blur_only mexp radius (mc_Data chunk) (sint (mc_Width chunk)) (sint (mc_Height chunk))"
    using assms(1) by (simp add: asks_blur_def chunk_frame_def filter_frame_def choice)
  then show ?thesis
    using GaussianBlur_any_buffer [OF fits assms(3), of "replicate 31 (Fin 0)" mexp radius]
      blur.total [OF fits, of mexp radius]
    by (auto simp: blur_only_def choice)
qed

lemma admit_spec:
  assumes "sized chunk"
  shows "\<exists>w. admit chunk = Some w \<and> work_ok mexp chunk env hp w \<and> job_of w = None \<and>
    (w = TakeBuffer (fst (snd (chunk_params (mc_Params chunk)))) \<and> asks_blur chunk \<or>
     w = CountFrame (the (chunk_frame mexp chunk)) \<and> valid_chunk chunk \<and> \<not> asks_blur chunk \<or>
     w = Reply (chunk_reply mexp env chunk) \<and> \<not> valid_chunk chunk)"
proof -
  let ?w = "sint (mc_Width chunk)" and ?h = "sint (mc_Height chunk)"
  obtain filt radius intensity where choice: "chunk_params (mc_Params chunk) = (filt, radius, intensity)"
    by (cases "chunk_params (mc_Params chunk)")
  have size: "int (length (mc_Data chunk)) = wrap64 (?w * ?h * 3) \<longleftrightarrow> int (length (mc_Data chunk)) = ?w * ?h * 3"
    by (rule size_check_exact) (use assms in \<open>simp_all add: sized_def\<close>)
  show ?thesis
  proof (cases "valid_chunk chunk")
    case False
    then show ?thesis
      using size by (auto simp: admit_def chunk_reply_def valid_chunk_def Let_def blank_result_def)
  next
    case True
    note fits = valid_chunk_fits [OF True assms]
    have len: "int (length (mc_Data chunk)) = wrap64 (?w * ?h * 3)"
      and type: "mc_Type chunk = MEDIA_TYPE_VIDEO \<or> mc_Type chunk = MEDIA_TYPE_IMAGE"
      using True size by (simp_all add: valid_chunk_def)
    have admit: "admit chunk =
        (if filt = FILTER_TYPE_GAUSSIAN_BLUR then Some (TakeBuffer radius)
         else if filt = FILTER_TYPE_GRAYSCALE then map_option CountFrame (Grayscale (mc_Data chunk) ?w ?h)
         else if filt = FILTER_TYPE_SHARPEN then map_option CountFrame (Sharpen (mc_Data chunk) ?w ?h intensity)
         else if filt = FILTER_TYPE_EDGE_DETECT then map_option CountFrame (EdgeDetect (mc_Data chunk) ?w ?h)
         else Some (TakeBuffer radius))"
      using type by (auto simp: admit_def Let_def len [symmetric] choice)
    show ?thesis
      using gray.total [OF fits] sharpen.total [OF fits, of intensity] edge.total [OF fits] True assms
      by (auto simp: admit asks_blur_def choice chunk_frame_def filter_frame_def)
  qed
qed

lemma work_step_ok:
  assumes ok: "work_ok mexp chunk env (sh_heap g) w" and heap: "heap_ok g"
    and job: "\<forall>job. job_of w = Some job \<longrightarrow> bj_kernel job < length (sh_heap g)"
    and pool: "\<forall>a \<in> set (sh_pool g). a < length (sh_heap g)"
  shows "\<exists>w' g'. work_step mexp chunk env w g = Some (w', g') \<and> work_ok mexp chunk env (sh_heap g') w' \<and> heap_ok g'"
proof (cases w)
  case (TakeBuffer radius)
  have valid: "asks_blur chunk" "sized chunk" "radius = fst (snd (chunk_params (mc_Params chunk)))"
    using ok TakeBuffer by simp_all
  have size: "0 \<le> wrap64 (sint (mc_Width chunk) * sint (mc_Height chunk) * 3)"
    using valid_chunk_fits [OF asks_blur_valid [OF valid(1)] valid(2)] by (simp add: frame_fits_def wrap64_id)
  obtain a g' where get: "take_buffer (pool_pick env) g = (a, g')" by fastforce
  note a = take_buffer_fresh [OF get heap pool]
  show ?thesis
    using rest_is_blur [OF a(2) make_slice_Some [OF size] make_slice_Some [OF size], of mexp radius a]
      chunk_frame_blur [OF valid(1,2) a(2), of mexp] valid a(3)
    by (auto simp: TakeBuffer get Let_def make_slice_Some [OF size] frame_rest_def)
next
  case (CountGet job)
  then show ?thesis using ok heap by (simp add: frame_rest_def add_stats_def heap_ok_def)
next
  case (Fill job i acc)
  have a: "bj_kernel job < length (sh_heap g)" using job Fill by simp
  note buf = heap_okD [OF heap a]
  have rest: "rest_fill mexp chunk job (sh_heap g ! bj_kernel job) i acc = Some (the (chunk_frame mexp chunk))"
    and blur: "asks_blur chunk" using ok Fill by (simp_all add: frame_rest_def)
  show ?thesis
  proof (cases "i < kernel_size (bj_radius job)")
    case True
    show ?thesis
      using rest_fill_step [OF rest True buf] True a blur buf kernel_size_bounds [of "bj_radius job"]
      by (auto simp: Fill on_window_def window_length(2) [OF buf] Let_def frame_rest_def intro!: heap_ok_update heap)
  qed (use rest blur heap in \<open>simp add: Fill frame_rest_def rest_loops_done Let_def\<close>)
next
  case (Normalise job i acc)
  have a: "bj_kernel job < length (sh_heap g)" using job Normalise by simp
  note buf = heap_okD [OF heap a]
  have rest: "rest_normalise chunk job (sh_heap g ! bj_kernel job) i acc = Some (the (chunk_frame mexp chunk))"
    and blur: "asks_blur chunk" using ok Normalise by (simp_all add: frame_rest_def)
  show ?thesis
  proof (cases "i < kernel_size (bj_radius job)")
    case True
    show ?thesis
      using rest_normalise_step [OF rest True buf] True a blur buf kernel_size_bounds [of "bj_radius job"]
      by (auto simp: Normalise on_window_def window_length(2) [OF buf] Let_def frame_rest_def intro!: heap_ok_update heap)
  qed (use rest blur heap in \<open>simp add: Normalise frame_rest_def rest_loops_done Let_def\<close>)
next
  case (Horizontal job y x)
  have rest: "rest_horizontal chunk job (sh_heap g ! bj_kernel job) y x = Some (the (chunk_frame mexp chunk))"
    and blur: "asks_blur chunk" using ok Horizontal by (simp_all add: frame_rest_def)
  show ?thesis
  proof (cases "y < sint (mc_Height chunk)")
    case True
    show ?thesis
      using rest rest_horizontal_step [OF True, of x job "sh_heap g ! bj_kernel job"] True blur heap
      by (cases "x < sint (mc_Width chunk)")
        (auto simp: Horizontal frame_rest_def Let_def bind_eq_Some_conv)
  qed (use rest blur heap in \<open>simp add: Horizontal frame_rest_def rest_loops_done Let_def\<close>)
next
  case (Vertical job y x)
  have rest: "rest_vertical chunk job (sh_heap g ! bj_kernel job) y x = Some (the (chunk_frame mexp chunk))"
    and blur: "asks_blur chunk" using ok Vertical by (simp_all add: frame_rest_def)
  show ?thesis
  proof (cases "y < sint (mc_Height chunk)")
    case True
    show ?thesis
      using rest rest_vertical_step [OF True, of x job "sh_heap g ! bj_kernel job"] True blur heap
      by (cases "x < sint (mc_Width chunk)")
        (auto simp: Vertical frame_rest_def Let_def bind_eq_Some_conv)
  qed (use rest blur heap in \<open>simp add: Vertical frame_rest_def rest_loops_done Let_def\<close>)
next
  case (ReadMemory r)
  then show ?thesis using ok heap by (simp add: chunk_reply_valid)
qed (use ok heap in \<open>simp_all add: frame_rest_def give_buffer_def add_stats_def heap_ok_def timed_reply_def asks_blur_valid\<close>)


text \<open>What one action does to the buffers: it touches no buffer the goroutine does not hold.\<close>

lemma work_step_buffers:
  assumes step: "work_step mexp chunk env w g = Some (w', g')"
    and excl: "exclusive (mset (sh_pool g)) (work_held w + H) (length (sh_heap g))"
  shows "exclusive (mset (sh_pool g')) (work_held w' + H) (length (sh_heap g'))"
    and "a < length (sh_heap g) \<Longrightarrow> a \<notin># work_held w \<Longrightarrow> sh_heap g' ! a = sh_heap g ! a"
    and "length (sh_heap g) \<le> length (sh_heap g')"
proof -
  have window: "exclusive (mset (sh_pool g')) H' (length (sh_heap g')) \<and>
      (a < length (sh_heap g) \<longrightarrow> a \<noteq> b \<longrightarrow> sh_heap g' ! a = sh_heap g ! a) \<and>
      length (sh_heap g) \<le> length (sh_heap g')"
    if "on_window b n body g = Some (g', v)" "exclusive (mset (sh_pool g)) H' (length (sh_heap g))"
    for b n v H' and body :: "fl list \<Rightarrow> (fl list \<times> 'v) option"
    using that by (auto simp: on_window_def bind_eq_Some_conv)
  have "exclusive (mset (sh_pool g')) (work_held w' + H) (length (sh_heap g')) \<and>
      (a < length (sh_heap g) \<longrightarrow> a \<notin># work_held w \<longrightarrow> sh_heap g' ! a = sh_heap g ! a) \<and>
      length (sh_heap g) \<le> length (sh_heap g')"
  proof (cases w)
    case (TakeBuffer radius)
    obtain b g1 where get: "take_buffer (pool_pick env) g = (b, g1)" by fastforce
    have g': "g' = g1" and w': "work_held w' = {#b#}"
      using step by (auto simp: TakeBuffer get bind_eq_Some_conv work_held_def Let_def)
    have heap: "sh_heap g1 = sh_heap g \<or> sh_heap g1 = sh_heap g @ [kernel_New]"
      using kp.take [OF get] by auto
    show ?thesis
      using kp.take_exclusive [OF get, of H] excl heap w'
      by (auto simp: g' TakeBuffer work_held_def nth_append)
  next
    case (GiveBuffer job)
    then show ?thesis
      using step excl kp.give_exclusive [of g "bj_kernel job" H] by (auto simp: work_held_def give_buffer_def)
  next
    case (Fill job i acc)
    then show ?thesis
      using step excl
      by (auto simp: work_held_def Let_def bind_eq_Some_conv split: if_splits dest!: window [OF _ excl])
  next
    case (Normalise job i acc)
    then show ?thesis
      using step excl
      by (auto simp: work_held_def Let_def bind_eq_Some_conv split: if_splits dest!: window [OF _ excl])
  qed (use step excl in \<open>auto simp: work_held_def add_stats_def Let_def bind_eq_Some_conv split: if_splits\<close>)
  then show "exclusive (mset (sh_pool g')) (work_held w' + H) (length (sh_heap g'))"
    and "a < length (sh_heap g) \<Longrightarrow> a \<notin># work_held w \<Longrightarrow> sh_heap g' ! a = sh_heap g ! a"
    and "length (sh_heap g) \<le> length (sh_heap g')" by simp_all
qed

lemma work_ok_cong:
  "(\<And>job. job_of w = Some job \<Longrightarrow> hp' ! bj_kernel job = hp ! bj_kernel job) \<Longrightarrow>
     work_ok mexp chunk env hp' w = work_ok mexp chunk env hp w"
  by (cases w) (simp_all add: frame_rest_def)

section \<open>The invariant of a stream\<close>

definition open_rounds :: "stream \<Rightarrow> round list" where
  "open_rounds s = (case s_at s of
     AtRecv \<Rightarrow> s_rounds s
   | Working (chunk, env, out) w \<Rightarrow> (Received chunk, env, out) # s_rounds s
   | Ended stop \<Rightarrow> [])"

definition ending :: "stream \<Rightarrow> stream_end" where
  "ending s = (case s_at s of Ended stop \<Rightarrow> stop | _ \<Rightarrow> stream_stop (open_rounds s))"

definition stream_ok :: "(fl \<Rightarrow> fl) \<Rightarrow> fl list list \<Rightarrow> round list \<Rightarrow> stream \<Rightarrow> bool" where
  "stream_ok mexp hp R s \<longleftrightarrow>
     s_sent s @ stream_replies mexp (open_rounds s) = stream_replies mexp R \<and> ending s = stream_stop R \<and>
     length (filter pc_Success (s_sent s)) + length (valid_times (stream_chunks (open_rounds s))) \<le>
       length (valid_times (stream_chunks R)) \<and>
     (\<forall>(chunk, env) \<in> set (stream_chunks (open_rounds s)). sized chunk) \<and>
     (\<forall>chunk env out w. s_at s = Working (chunk, env, out) w \<longrightarrow> work_ok mexp chunk env hp w) \<and>
     s_at s \<noteq> Ended Waiting"

lemma stream_action_ok:
  assumes ok: "stream_ok mexp (sh_heap g) R s" and heap: "heap_ok g"
    and excl: "exclusive (mset (sh_pool g)) (held s + H) (length (sh_heap g))"
  shows "\<exists>s' g'. stream_action mexp s g = Some (s', g') \<and> stream_ok mexp (sh_heap g') R s' \<and> heap_ok g' \<and>
    exclusive (mset (sh_pool g')) (held s' + H) (length (sh_heap g')) \<and>
    (\<forall>a < length (sh_heap g). a \<notin># held s \<longrightarrow> sh_heap g' ! a = sh_heap g ! a) \<and>
    length (sh_heap g) \<le> length (sh_heap g')"
proof (cases "s_at s")
  case AtRecv
  show ?thesis
  proof (cases "s_rounds s")
    case Nil
    then show ?thesis using ok heap excl AtRecv by (simp add: stream_action_def)
  next
    case (Cons r rs)
    obtain rv env out where r: "r = (rv, env, out)" by (cases r)
    show ?thesis
    proof (cases rv)
      case (Received chunk)
      have "sized chunk"
        using ok AtRecv Cons Received by (cases out) (auto simp: stream_ok_def open_rounds_def r)
      then obtain w where w: "admit chunk = Some w" "work_ok mexp chunk env (sh_heap g) w" "job_of w = None"
        using admit_spec by metis
      then show ?thesis
        using ok heap excl AtRecv Cons Received
        by (auto simp: stream_action_def r stream_ok_def open_rounds_def ending_def held_def work_held_def)
    qed (use ok heap excl AtRecv Cons in
        \<open>auto simp: stream_action_def r stream_ok_def open_rounds_def ending_def held_def work_held_def\<close>)
  qed
next
  case (Working call w)
  obtain chunk env out where call: "call = (chunk, env, out)" by (cases call)
  have w: "work_ok mexp chunk env (sh_heap g) w" using ok Working call by (auto simp: stream_ok_def)
  have held: "held s = work_held w" by (simp add: held_def Working)
  show ?thesis
  proof (cases "\<exists>r. w = Reply r")
    case True
    then obtain r where r: "w = Reply r" by blast
    then show ?thesis
      using ok heap excl w Working call
      by (cases out)
        (auto simp: stream_action_def stream_ok_def open_rounds_def ending_def held_def work_held_def chunk_reply_facts
          split: if_split_asm)
  next
    case False
    have addr: "\<forall>job. job_of w = Some job \<longrightarrow> bj_kernel job < length (sh_heap g)"
      using excl exclusive_addD(1) by (fastforce simp: held work_held_def split: option.splits)
    have pool: "\<forall>a \<in> set (sh_pool g). a < length (sh_heap g)"
      using exclusive_freeD [OF excl] by simp
    obtain w' g' where step: "work_step mexp chunk env w g = Some (w', g')"
      "work_ok mexp chunk env (sh_heap g') w'" "heap_ok g'"
      using work_step_ok [OF w heap addr pool] by blast
    have "stream_action mexp s g = Some (s\<lparr>s_at := Working call w'\<rparr>, g')"
      using False step(1) by (cases w) (simp_all add: stream_action_def Working call)
    then show ?thesis
      using work_step_buffers [OF step(1), of H] excl held step ok Working call
      by (auto simp: stream_ok_def open_rounds_def ending_def held_def)
  qed
next
  case (Ended stop)
  then show ?thesis using ok heap excl by (auto simp: stream_action_def)
qed


section \<open>The invariant of the server\<close>

text \<open>The sum of a quantity over the streams, split at one of them.\<close>

lemma total_split:
  fixes f :: "'s \<Rightarrow> 'b :: comm_monoid_add"
  assumes "i < length xs"
  defines "H \<equiv> sum_list (map f (take i xs)) + sum_list (map f (drop (Suc i) xs))"
  shows "sum_list (map f xs) = f (xs ! i) + H" and "sum_list (map f (xs[i := y])) = f y + H"
proof -
  show "sum_list (map f xs) = f (xs ! i) + H"
    by (subst id_take_nth_drop [OF assms(1)]) (simp add: H_def ac_simps)
  show "sum_list (map f (xs[i := y])) = f y + H"
    by (subst upd_conv_take_nth_drop [OF assms(1)]) (simp add: H_def ac_simps)
qed

lemma total_others:
  assumes "i < length xs" "j < length xs" "j \<noteq> i" "a \<in># f (xs ! j)"
  shows "a \<in># sum_list (map f (take i xs)) + sum_list (map f (drop (Suc i) xs))"
proof -
  have mem: "a \<in># sum_list (map f ys)" if "y \<in> set ys" "a \<in># f y" for y ys
    using that by (induction ys) auto
  have "xs ! j \<in> set (take i xs) \<or> xs ! j \<in> set (drop (Suc i) xs)"
  proof (cases "j < i")
    case True
    then have "take i xs ! j \<in> set (take i xs)" using assms by (intro nth_mem) simp
    then show ?thesis using True by simp
  next
    case False
    then have "drop (Suc i) xs ! (j - Suc i) \<in> set (drop (Suc i) xs)" using assms by (intro nth_mem) simp
    then show ?thesis using False assms by simp
  qed
  then show ?thesis using mem assms(4) by auto
qed

definition held_buffers :: "server \<Rightarrow> nat multiset" where
  "held_buffers v = sum_list (map held (streams v))"

definition server_ok :: "(fl \<Rightarrow> fl) \<Rightarrow> round list list \<Rightarrow> server \<Rightarrow> bool" where
  "server_ok mexp Rs v \<longleftrightarrow> heap_ok (shared_state v) \<and>
     exclusive (mset (sh_pool (shared_state v))) (held_buffers v) (length (sh_heap (shared_state v))) \<and>
     list_all2 (stream_ok mexp (sh_heap (shared_state v))) Rs (streams v)"

definition all_sized :: "round list list \<Rightarrow> bool" where
  "all_sized Rs \<longleftrightarrow> (\<forall>R \<in> set Rs. \<forall>(chunk, env) \<in> set (stream_chunks R). sized chunk)"

lemma server_start_ok: "all_sized Rs \<Longrightarrow> server_ok mexp Rs (server_start now Rs calls)"
proof -
  assume "all_sized Rs"
  then have "list_all2 (stream_ok mexp []) Rs (map (\<lambda>R. \<lparr>s_at = AtRecv, s_rounds = R, s_sent = []\<rparr>) Rs)"
    by (auto simp: list_all2_conv_all_nth all_sized_def stream_ok_def open_rounds_def ending_def)
  moreover have "sum_list (map held (map (\<lambda>R. \<lparr>s_at = AtRecv, s_rounds = R, s_sent = []\<rparr>) Rs)) = {#}"
    by (induction Rs) (simp_all add: held_def)
  ultimately show ?thesis
    by (simp add: server_ok_def server_start_def initial_shared_def heap_ok_def held_buffers_def)
qed

lemma stream_ok_cong:
  assumes "\<And>a. a \<in># held s \<Longrightarrow> hp' ! a = hp ! a"
  shows "stream_ok mexp hp' R s = stream_ok mexp hp R s"
proof -
  have "work_ok mexp chunk env hp' w = work_ok mexp chunk env hp w" if "s_at s = Working (chunk, env, out) w"
    for chunk env out w
    by (rule work_ok_cong) (use that assms in \<open>auto simp: held_def work_held_def\<close>)
  then show ?thesis by (auto simp: stream_ok_def)
qed

lemma server_moves:
  assumes ok: "server_ok mexp Rs v" and i: "i < length (streams v)"
  shows "\<exists>s g. stream_action mexp (streams v ! i) (shared_state v) = Some (s, g) \<and>
    server_ok mexp Rs (v\<lparr>shared_state := g, streams := (streams v)[i := s]\<rparr>)"
proof -
  let ?g = "shared_state v" and ?xs = "streams v"
  define H where "H = sum_list (map held (take i ?xs)) + sum_list (map held (drop (Suc i) ?xs))"
  note split = total_split [OF i, of held, folded H_def]
  have streams: "list_all2 (stream_ok mexp (sh_heap ?g)) Rs ?xs" and heap: "heap_ok ?g"
    and excl: "exclusive (mset (sh_pool ?g)) (held (?xs ! i) + H) (length (sh_heap ?g))"
    using ok split(1) by (simp_all add: server_ok_def held_buffers_def)
  have si: "stream_ok mexp (sh_heap ?g) (Rs ! i) (?xs ! i)"
    using streams i by (simp add: list_all2_conv_all_nth)
  obtain s g where step: "stream_action mexp (?xs ! i) ?g = Some (s, g)" "stream_ok mexp (sh_heap g) (Rs ! i) s"
    "heap_ok g" "exclusive (mset (sh_pool g)) (held s + H) (length (sh_heap g))"
    and frame: "\<And>a. a < length (sh_heap ?g) \<Longrightarrow> a \<notin># held (?xs ! i) \<Longrightarrow> sh_heap g ! a = sh_heap ?g ! a"
    using stream_action_ok [OF si heap excl] by blast
  have other: "stream_ok mexp (sh_heap g) (Rs ! j) (?xs ! j)" if j: "j < length ?xs" "j \<noteq> i" for j
  proof -
    have "sh_heap g ! a = sh_heap ?g ! a" if "a \<in># held (?xs ! j)" for a
    proof -
      have "a \<in># H" unfolding H_def using total_others [where f = held, OF i j that] .
      then obtain H' where "H = add_mset a H'" by (meson mset_add)
      then have "exclusive (mset (sh_pool ?g)) (add_mset a (held (?xs ! i) + H')) (length (sh_heap ?g))"
        using excl by simp
      from exclusive_addD(1,2) [OF this] show ?thesis by (intro frame) simp_all
    qed
    then show ?thesis
      using stream_ok_cong [of "?xs ! j" "sh_heap g" "sh_heap ?g" mexp "Rs ! j"] streams j
      by (simp add: list_all2_conv_all_nth)
  qed
  then have "list_all2 (stream_ok mexp (sh_heap g)) Rs (?xs[i := s])"
    using streams step(2) i by (auto simp: list_all2_conv_all_nth nth_list_update)
  then show ?thesis
    using step(1,3,4) split(2) [of s] by (simp add: server_ok_def held_buffers_def)
qed

lemma server_step_ok:
  assumes "server_ok mexp Rs v"
  shows "\<exists>v'. server_step mexp e v = Some v' \<and> server_ok mexp Rs v'"
proof (cases e)
  case (Moves i)
  then show ?thesis using assms server_moves [OF assms, of i] by fastforce
next
  case (Reads j)
  then show ?thesis using assms by (simp add: server_ok_def held_buffers_def)
next
  case (Collects i)
  have "exclusive (mset (sh_pool (shared_state v))) (held_buffers v) (length (sh_heap (shared_state v)))"
    using assms by (simp add: server_ok_def)
  from kp.lose_exclusive [OF this, of i]
  show ?thesis using assms by (simp add: Collects server_ok_def held_buffers_def heap_ok_def collect_buffer_def)
qed

lemma server_run_ok:
  "server_ok mexp Rs v \<Longrightarrow> \<exists>v'. server_run mexp es v = Some v' \<and> server_ok mexp Rs v'"
proof (induction es arbitrary: v)
  case (Cons e es)
  then show ?case using server_step_ok [OF Cons.prems, of e] by fastforce
qed simp

end
