(* ===== verification/Concurrent_Facts.thy ===== *)
theory Concurrent_Facts
  imports Processor_Concurrent
begin

text \<open>
  What holds of every run of the concurrent Go processor: the account of each counter (what it
  shows and what the streams still owe it is constant), the number of actions a stream needs,
  the agreement with the sequential server, and what \<open>GetStats\<close> can observe.
\<close>

section \<open>The ledger of the counters\<close>

text \<open>
  Each counter is raised once per chunk, when the call passes a certain stage. What a stream
  \<open>owes\<close> to a counter raised at stage \<open>k\<close>: the weight of the chunk in work, unless it has passed
  the stage, and of the chunks still to come.
\<close>

fun stage :: "work \<Rightarrow> nat" where
  "stage (TakeBuffer r) = 0"
| "stage (CountGet job) = 1"
| "stage (Fill job i acc) = 2"
| "stage (Normalise job i acc) = 3"
| "stage (Horizontal job y x) = 4"
| "stage (Vertical job y x) = 5"
| "stage (GiveBuffer job) = 6"
| "stage (CountPut out) = 7"
| "stage (CountFrame out) = 8"
| "stage (CountTime r) = 9"
| "stage (CountAlloc r) = 10"
| "stage (ReadMemory r) = 11"
| "stage (IncFrames r) = 12"
| "stage (Observe r) = 13"
| "stage (Reply r) = 14"

definition backlog :: "stream \<Rightarrow> (MediaChunk \<times> call_env) list" where
  "backlog s = (case s_at s of
     AtRecv \<Rightarrow> stream_chunks (s_rounds s)
   | Working (chunk, env, out) w \<Rightarrow> if out = None then stream_chunks (s_rounds s) else []
   | Ended stop \<Rightarrow> [])"

definition owed :: "nat \<Rightarrow> (MediaChunk \<Rightarrow> call_env \<Rightarrow> 'a :: comm_monoid_add) \<Rightarrow> stream \<Rightarrow> 'a" where
  "owed k f s = (case s_at s of
       Working (chunk, env, out) w \<Rightarrow> if stage w \<le> k then f chunk env else 0
     | _ \<Rightarrow> 0) + sum_list (map (\<lambda>(c, e). f c e) (backlog s))"

definition each_frame :: "MediaChunk \<Rightarrow> call_env \<Rightarrow> 'a :: {zero, one}" where
  "each_frame c e = (if valid_chunk c then 1 else 0)"

definition each_time :: "MediaChunk \<Rightarrow> call_env \<Rightarrow> i64" where
  "each_time c e = (if valid_chunk c then elapsed_ns e else 0)"

definition each_blur :: "MediaChunk \<Rightarrow> call_env \<Rightarrow> i64" where
  "each_blur c e = (if asks_blur c then 1 else 0)"

definition each_observation :: "MediaChunk \<Rightarrow> call_env \<Rightarrow> fl multiset" where
  "each_observation c e =
     (if valid_chunk c then {#fl_div F64 (float64_of (elapsed_ns e)) (Fin (10 ^ 9))#} else {#})"

text \<open>A counter with what is owed to it by a stream.\<close>

definition accounts :: "stream \<Rightarrow> shared \<Rightarrow> i64 \<times> i64 \<times> i64 \<times> i64 \<times> i64 \<times> nat \<times> fl multiset \<times> int" where
  "accounts s g =
     (totalFrames (sh_stats g) + owed 8 each_frame s,
      totalTimeNs (sh_stats g) + owed 9 each_time s,
      totalAllocs (sh_stats g) + owed 10 each_frame s,
      totalPoolGets (sh_stats g) + owed 1 each_blur s,
      totalPoolPuts (sh_stats g) + owed 7 each_blur s,
      sh_framesProcessed g + owed 12 each_frame s,
      mset (sh_processingTime g) + owed 13 each_observation s,
      startTime (sh_stats g))"

definition owed_later :: "(MediaChunk \<Rightarrow> call_env \<Rightarrow> 'a :: comm_monoid_add) \<Rightarrow> string option \<Rightarrow> round list \<Rightarrow> 'a" where
  "owed_later f out rs = sum_list (map (\<lambda>(c, e). f c e) (if out = None then stream_chunks rs else []))"

lemma owed_Working:
  "s_at s = Working (chunk, env, out) w \<Longrightarrow>
     owed k f s = (if stage w \<le> k then f chunk env else 0) + owed_later f out (s_rounds s)"
  by (simp add: owed_def backlog_def owed_later_def)

lemma take_buffer_stats:
  "take_buffer pick g = (a, g') \<Longrightarrow> sh_stats g' = sh_stats g \<and> sh_framesProcessed g' = sh_framesProcessed g \<and>
     sh_processingTime g' = sh_processingTime g"
  by (auto simp: take_buffer_def Let_def split: option.splits if_splits)

lemma on_window_stats:
  "on_window a n body g = Some (g', v) \<Longrightarrow> sh_stats g' = sh_stats g \<and> sh_framesProcessed g' = sh_framesProcessed g \<and>
     sh_processingTime g' = sh_processingTime g"
  by (auto simp: on_window_def bind_eq_Some_conv)


text \<open>The actions that raise no counter, and the stages they lead to.\<close>

lemma work_step_quiet:
  assumes "work_step mexp chunk env w g = Some (w', g')" and "stage w \<notin> {1, 7, 8, 9, 10, 12, 13}"
  shows "sh_stats g' = sh_stats g \<and> sh_framesProcessed g' = sh_framesProcessed g \<and>
    sh_processingTime g' = sh_processingTime g \<and>
    (stage w = 0 \<and> stage w' = 1 \<or> 2 \<le> stage w \<and> stage w \<le> stage w' \<and> stage w' \<le> 7 \<and> stage w \<le> 6 \<or>
      stage w = 11 \<and> stage w' = 12 \<or> stage w = 14 \<and> stage w' = 14)"
proof (cases w)
  case (TakeBuffer r)
  obtain a g1 where get: "take_buffer (pool_pick env) g = (a, g1)" by fastforce
  have "g' = g1" "stage w' = 1" using assms(1) by (auto simp: TakeBuffer get bind_eq_Some_conv Let_def)
  then show ?thesis using take_buffer_stats [OF get] by (simp add: TakeBuffer)
qed (use assms in \<open>auto simp: Let_def bind_eq_Some_conv give_buffer_def split: if_split_asm dest!: on_window_stats\<close>)

lemma work_step_accounts:
  assumes step: "work_step mexp chunk env w g = Some (w', g')" and ok: "work_ok mexp chunk env (sh_heap g) w"
    and at: "s_at s = Working (chunk, env, out) w"
  shows "accounts (s\<lparr>s_at := Working (chunk, env, out) w'\<rparr>) g' = accounts s g"
proof -
  let ?s' = "s\<lparr>s_at := Working (chunk, env, out) w'\<rparr>"
  have at': "s_at ?s' = Working (chunk, env, out) w'" by simp
  note owes = owed_Working [OF at] owed_Working [OF at']
  show ?thesis
  proof (cases "stage w \<in> {1, 7, 8, 9, 10, 12, 13}")
    case False
    from work_step_quiet [OF step this]
    have counts: "sh_stats g' = sh_stats g" "sh_framesProcessed g' = sh_framesProcessed g"
      "sh_processingTime g' = sh_processingTime g"
      and stages: "\<And>k. k \<in> {1, 7, 8, 9, 10, 12, 13} \<Longrightarrow> (stage w' \<le> k) = (stage w \<le> k)"
      by auto
    show ?thesis by (simp add: accounts_def owes counts stages)
  next
    case True
    then show ?thesis
      using step ok
      by (cases w; clarsimp simp: accounts_def owes add_stats_def each_frame_def each_time_def each_blur_def
          each_observation_def timed_reply_def chunk_reply_valid frame_rest_def asks_blur_valid)
  qed
qed


lemma stream_action_accounts:
  assumes ok: "stream_ok mexp (sh_heap g) R s" and step: "stream_action mexp s g = Some (s', g')"
  shows "accounts s' g' = accounts s g"
proof (cases "s_at s")
  case AtRecv
  show ?thesis
  proof (cases "s_rounds s")
    case Nil
    then show ?thesis using step AtRecv by (simp add: stream_action_def)
  next
    case (Cons r rs)
    obtain rv env out where r: "r = (rv, env, out)" by (cases r)
    have g': "g' = g" using step AtRecv Cons by (auto simp: stream_action_def)
    show ?thesis
    proof (cases rv)
      case (Received chunk)
      have "sized chunk"
        using ok AtRecv Cons Received by (cases out) (auto simp: stream_ok_def open_rounds_def r)
      then obtain w where w: "admit chunk = Some w"
        "w = TakeBuffer (fst (snd (chunk_params (mc_Params chunk)))) \<and> asks_blur chunk \<or>
         w = CountFrame (the (chunk_frame mexp chunk)) \<and> valid_chunk chunk \<and> \<not> asks_blur chunk \<or>
         w = Reply (chunk_reply mexp env chunk) \<and> \<not> valid_chunk chunk"
        using admit_spec by metis
      have s': "s' = s\<lparr>s_at := Working (chunk, env, out) w, s_rounds := rs\<rparr>"
        using step AtRecv Cons Received w by (simp add: stream_action_def r)
      have zero: "owed k f s' = owed k f s" if "stage w \<le> k \<or> f chunk env = 0" for k and f :: "_ \<Rightarrow> _ \<Rightarrow> 'c :: comm_monoid_add"
        using that AtRecv Cons Received by (cases out) (auto simp: s' r owed_def backlog_def)
      show ?thesis
        using w(2) by (elim disjE)
          (simp_all add: accounts_def g' zero each_frame_def each_time_def each_blur_def each_observation_def
            asks_blur_def)
    qed (use step AtRecv Cons in \<open>auto simp: stream_action_def r accounts_def owed_def backlog_def\<close>)
  qed
next
  case (Working call w)
  obtain chunk env out where call: "call = (chunk, env, out)" by (cases call)
  have w: "work_ok mexp chunk env (sh_heap g) w" using ok Working call by (auto simp: stream_ok_def)
  show ?thesis
  proof (cases "\<exists>r. w = Reply r")
    case True
    then show ?thesis
      using step Working call
      by (cases out) (auto simp: stream_action_def accounts_def owed_def backlog_def)
  next
    case False
    then obtain w' where w': "work_step mexp chunk env w g = Some (w', g')" "s' = s\<lparr>s_at := Working call w'\<rparr>"
      using step by (cases w) (auto simp: stream_action_def Working call)
    show ?thesis
      using work_step_accounts [OF w'(1) w, of s out] Working call by (simp add: w'(2))
  qed
next
  case (Ended stop)
  then show ?thesis using step by (simp add: stream_action_def)
qed

text \<open>The same account over all streams: what a counter shows and all that is owed to it.\<close>

definition owed_all :: "nat \<Rightarrow> (MediaChunk \<Rightarrow> call_env \<Rightarrow> 'a :: comm_monoid_add) \<Rightarrow> server \<Rightarrow> 'a" where
  "owed_all k f v = sum_list (map (owed k f) (streams v))"

definition server_accounts :: "server \<Rightarrow> i64 \<times> i64 \<times> i64 \<times> i64 \<times> i64 \<times> nat \<times> fl multiset \<times> int" where
  "server_accounts v = (let g = shared_state v in
     (totalFrames (sh_stats g) + owed_all 8 each_frame v,
      totalTimeNs (sh_stats g) + owed_all 9 each_time v,
      totalAllocs (sh_stats g) + owed_all 10 each_frame v,
      totalPoolGets (sh_stats g) + owed_all 1 each_blur v,
      totalPoolPuts (sh_stats g) + owed_all 7 each_blur v,
      sh_framesProcessed g + owed_all 12 each_frame v,
      mset (sh_processingTime g) + owed_all 13 each_observation v,
      startTime (sh_stats g)))"

lemma server_moves_accounts:
  assumes "stream_action mexp (streams v ! i) (shared_state v) = Some (s, g)" and i: "i < length (streams v)"
    and ok: "stream_ok mexp (sh_heap (shared_state v)) R (streams v ! i)"
  shows "server_accounts (v\<lparr>shared_state := g, streams := (streams v)[i := s]\<rparr>) = server_accounts v"
proof -
  let ?v' = "v\<lparr>shared_state := g, streams := (streams v)[i := s]\<rparr>"
  have "\<exists>H. owed_all k f v = owed k f (streams v ! i) + H \<and> owed_all k f ?v' = owed k f s + H"
    for k and f :: "_ \<Rightarrow> _ \<Rightarrow> 'c :: comm_monoid_add"
    using total_split [OF i, of "owed k f"] by (auto simp: owed_all_def)
  then have move: "c + owed k f (streams v ! i) = c' + owed k f s \<Longrightarrow> c' + owed_all k f ?v' = c + owed_all k f v"
    for k c c' and f :: "_ \<Rightarrow> _ \<Rightarrow> 'c :: comm_monoid_add"
    by (metis add.assoc)
  show ?thesis
    using stream_action_accounts [OF ok assms(1)]
    by (simp add: server_accounts_def accounts_def Let_def move)
qed

lemma server_step_accounts:
  assumes "server_ok mexp Rs v" "server_step mexp e v = Some v'"
  shows "server_accounts v' = server_accounts v"
proof (cases e)
  case (Moves i)
  show ?thesis
  proof (cases "i < length (streams v)")
    case True
    then have "stream_ok mexp (sh_heap (shared_state v)) (Rs ! i) (streams v ! i)"
      using assms(1) by (simp add: server_ok_def list_all2_conv_all_nth)
    then show ?thesis using assms(2) True by (auto simp: Moves intro!: server_moves_accounts)
  qed (use assms(2) in \<open>simp add: Moves\<close>)
next
  case (Reads j)
  then show ?thesis
    using assms(2) by (auto simp: server_accounts_def owed_all_def Let_def split: if_split_asm)
next
  case (Collects i)
  then show ?thesis using assms(2) by (auto simp: server_accounts_def owed_all_def collect_buffer_def Let_def)
qed

lemma server_run_accounts:
  "server_ok mexp Rs v \<Longrightarrow> server_run mexp es v = Some v' \<Longrightarrow> server_accounts v' = server_accounts v"
proof (induction es arbitrary: v)
  case (Cons e es)
  obtain v1 where v1: "server_step mexp e v = Some v1" "server_ok mexp Rs v1"
    using server_step_ok [OF Cons.prems(1), of e] by blast
  then show ?case
    using Cons server_step_accounts [OF Cons.prems(1) v1(1)] by auto
qed simp


section \<open>How many actions a stream needs\<close>

definition pixels_left :: "MediaChunk \<Rightarrow> int \<Rightarrow> int \<Rightarrow> nat" where
  "pixels_left chunk y x = nat (sint (mc_Height chunk) - y) * (nat (sint (mc_Width chunk)) + 2) +
     nat (sint (mc_Width chunk) - x)"

fun actions_left :: "MediaChunk \<Rightarrow> work \<Rightarrow> nat" where
  "actions_left chunk (TakeBuffer radius) = 15 + 2 * pixels_left chunk 0 0 + 2 * nat (kernel_size radius)"
| "actions_left chunk (CountGet job) = 14 + 2 * pixels_left chunk 0 0 + 2 * nat (kernel_size (bj_radius job))"
| "actions_left chunk (Fill job i acc) = 13 + 2 * pixels_left chunk 0 0 + nat (kernel_size (bj_radius job)) +
     nat (kernel_size (bj_radius job) - i)"
| "actions_left chunk (Normalise job i acc) = 12 + 2 * pixels_left chunk 0 0 + nat (kernel_size (bj_radius job) - i)"
| "actions_left chunk (Horizontal job y x) = 11 + pixels_left chunk 0 0 + pixels_left chunk y x"
| "actions_left chunk (Vertical job y x) = 10 + pixels_left chunk y x"
| "actions_left chunk w = 15 - stage w"

text \<open>The rounds of a stream still to be received, and with them the actions a stream has left at most.\<close>

fun round_actions :: "round \<Rightarrow> nat" where
  "round_actions (Received chunk, env, out) = 78 + 2 * pixels_left chunk 0 0"
| "round_actions (r, env, out) = 1"

definition stream_left :: "stream \<Rightarrow> nat" where
  "stream_left s = (case s_at s of
       AtRecv \<Rightarrow> sum_list (map round_actions (s_rounds s))
     | Working call w \<Rightarrow> actions_left (fst call) w + sum_list (map round_actions (s_rounds s))
     | Ended stop \<Rightarrow> 0)"

definition settled :: "stream \<Rightarrow> bool" where
  "settled s \<longleftrightarrow> (case s_at s of AtRecv \<Rightarrow> s_rounds s = [] | Working call w \<Rightarrow> False | Ended stop \<Rightarrow> True)"

lemma stream_left_pos: "\<not> settled s \<Longrightarrow> 0 < stream_left s"
proof -
  have "0 < round_actions r" for r by (cases r rule: round_actions.cases) simp_all
  moreover have "0 < actions_left chunk w" for chunk w by (cases w) simp_all
  ultimately show "\<not> settled s \<Longrightarrow> 0 < stream_left s"
    by (auto simp: settled_def stream_left_def neq_Nil_conv split: location.splits)
qed

lemma pixels_left_step:
  "y < sint (mc_Height chunk) \<Longrightarrow> x < sint (mc_Width chunk) \<Longrightarrow> pixels_left chunk y (x + 1) < pixels_left chunk y x"
  "y < sint (mc_Height chunk) \<Longrightarrow> \<not> x < sint (mc_Width chunk) \<Longrightarrow> pixels_left chunk (y + 1) 0 < pixels_left chunk y x"
proof -
  show "y < sint (mc_Height chunk) \<Longrightarrow> x < sint (mc_Width chunk) \<Longrightarrow>
      pixels_left chunk y (x + 1) < pixels_left chunk y x"
    by (simp add: pixels_left_def)
  assume "y < sint (mc_Height chunk)" "\<not> x < sint (mc_Width chunk)"
  moreover from this have "nat (sint (mc_Height chunk) - y) = Suc (nat (sint (mc_Height chunk) - (y + 1)))" by simp
  ultimately show "pixels_left chunk (y + 1) 0 < pixels_left chunk y x" by (simp add: pixels_left_def)
qed

lemma work_step_left:
  assumes "work_step mexp chunk env w g = Some (w', g')" and "\<nexists>r. w = Reply r"
  shows "actions_left chunk w' < actions_left chunk w"
proof (cases w)
  case (TakeBuffer r)
  then show ?thesis
    using assms by (cases "take_buffer (pool_pick env) g") (auto simp: bind_eq_Some_conv Let_def)
qed (use assms pixels_left_step in \<open>auto simp: Let_def bind_eq_Some_conv split: if_split_asm\<close>)

lemma admit_left:
  assumes "admit chunk = Some w" shows "actions_left chunk w < 78 + 2 * pixels_left chunk 0 0"
proof -
  have "2 * nat (kernel_size r) < 63" for r using kernel_size_bounds [of r] by linarith
  then show ?thesis using assms by (auto simp: admit_def Let_def split: if_split_asm prod.split_asm)
qed

lemma stream_action_left:
  assumes step: "stream_action mexp s g = Some (s', g')"
  shows "settled s \<Longrightarrow> s' = s" and "\<not> settled s \<Longrightarrow> stream_left s' < stream_left s"
proof -
  show "settled s \<Longrightarrow> s' = s"
    using step by (auto simp: settled_def stream_action_def split: location.splits)
  assume busy: "\<not> settled s"
  show "stream_left s' < stream_left s"
  proof (cases "s_at s")
    case AtRecv
    then obtain r rs where r: "s_rounds s = r # rs" using busy by (cases "s_rounds s") (simp_all add: settled_def)
    obtain rv env out where rv: "r = (rv, env, out)" by (cases r)
    show ?thesis
      using step AtRecv r rv by (cases rv) (auto simp: stream_action_def stream_left_def dest: admit_left)
  next
    case (Working call w)
    show ?thesis
    proof (cases "\<exists>r. w = Reply r")
      case True
      then show ?thesis using step Working by (cases "snd (snd call)") (auto simp: stream_action_def stream_left_def)
    next
      case False
      then obtain w' where w': "work_step mexp (fst call) (fst (snd call)) w g = Some (w', g')"
        "s' = s\<lparr>s_at := Working call w'\<rparr>"
        using step by (cases w) (auto simp: stream_action_def Working)
      then show ?thesis using work_step_left [OF w'(1) False] Working by (simp add: stream_left_def)
    qed
  qed (use busy in \<open>simp add: settled_def\<close>)
qed

lemma server_run_left:
  assumes "server_run mexp es v = Some v'" "i < length (streams v)"
  shows "length (streams v') = length (streams v) \<and>
    (settled (streams v' ! i) \<or> stream_left (streams v' ! i) + count_list es (Moves i) \<le> stream_left (streams v ! i))"
  using assms
proof (induction es arbitrary: v)
  case (Cons e es)
  obtain v1 where v1: "server_step mexp e v = Some v1" "server_run mexp es v1 = Some v'"
    using Cons.prems(1) by (auto simp: bind_eq_Some_conv)
  have len: "length (streams v1) = length (streams v)"
    using v1(1) by (cases e) (auto split: if_split_asm)
  note IH = Cons.IH [OF v1(2), unfolded len, OF Cons.prems(2)]
  have stay: "settled (streams v ! i) \<Longrightarrow> settled (streams v1 ! i)"
    and step: "\<not> settled (streams v ! i) \<Longrightarrow>
      stream_left (streams v1 ! i) + (if e = Moves i then 1 else 0) \<le> stream_left (streams v ! i)"
    using v1(1) Cons.prems(2) stream_action_left
    by (cases e; fastforce simp: nth_list_update split: if_split_asm)+
  have settled_run: "settled (streams u ! i) \<Longrightarrow> server_run mexp fs u = Some u' \<Longrightarrow> i < length (streams u) \<Longrightarrow>
      settled (streams u' ! i)" for fs u u'
  proof (induction fs arbitrary: u)
    case (Cons f fs)
    obtain u1 where u1: "server_step mexp f u = Some u1" "server_run mexp fs u1 = Some u'"
      using Cons.prems(2) by (auto simp: bind_eq_Some_conv)
    have "length (streams u1) = length (streams u)" "settled (streams u1 ! i)"
      using u1(1) Cons.prems(1,3) stream_action_left(1)
      by (cases f; fastforce simp: nth_list_update split: if_split_asm)+
    then show ?case using Cons.IH u1(2) Cons.prems(3) by simp
  qed simp
  show ?case
  proof (cases "settled (streams v ! i)")
    case True
    then show ?thesis using IH settled_run [OF stay v1(2)] Cons.prems(2) len by simp
  next
    case False
    then show ?thesis using IH step by (cases "e = Moves i") auto
  qed
qed simp


section \<open>What the frame counter counts\<close>

definition frames_due :: "round list list \<Rightarrow> nat" where
  "frames_due Rs = sum_list (map (\<lambda>R. length (valid_times (stream_chunks R))) Rs)"

definition frames_counted :: "round list list \<Rightarrow> server \<Rightarrow> nat" where
  "frames_counted Rs v = frames_due Rs - owed_all 8 each_frame v"

text \<open>The answered frames, over all streams, and the accepted chunks that have been received.\<close>

definition frames_answered :: "server \<Rightarrow> nat" where
  "frames_answered v = sum_list (map (\<lambda>s. length (filter pc_Success (s_sent s))) (streams v))"

definition frames_received :: "round list list \<Rightarrow> server \<Rightarrow> nat" where
  "frames_received Rs v = frames_due Rs - sum_list (map (\<lambda>s. length (valid_times (backlog s))) (streams v))"

lemma sum_each_frame:
  "sum_list (map (\<lambda>(c, e). each_frame c e) cs) = (of_nat (length (valid_times cs)) :: 'a :: semiring_1)"
  by (induction cs) (auto simp: each_frame_def)

lemma each_frame_simps:
  "valid_chunk c \<Longrightarrow> each_frame c e = 1" "\<not> valid_chunk c \<Longrightarrow> each_frame c e = 0"
  by (simp_all add: each_frame_def)

lemma owed_frames:
  "owed k each_frame s = (of_nat (owed k each_frame s) :: 'a :: semiring_1)"
  "length (valid_times (backlog s)) \<le> owed k each_frame s"
  "owed k each_frame s \<le> length (valid_times (stream_chunks (open_rounds s)))"
proof -
  show "owed k each_frame s = (of_nat (owed k each_frame s) :: 'a)"
    by (auto simp: owed_def sum_each_frame each_frame_simps split: location.splits) (simp add: each_frame_def)
  show "length (valid_times (backlog s)) \<le> owed k each_frame s"
    by (simp add: owed_def sum_each_frame)
  show "owed k each_frame s \<le> length (valid_times (stream_chunks (open_rounds s)))"
    by (auto simp: owed_def sum_each_frame each_frame_simps backlog_def open_rounds_def split: location.splits)
qed

lemma owed_all_frames: "owed_all k each_frame v = (of_nat (owed_all k each_frame v) :: 'a :: semiring_1)"
proof -
  have "sum_list (map (owed k each_frame) xs) = (of_nat (sum_list (map (owed k each_frame) xs)) :: 'a)" for xs
    by (induction xs) (simp_all add: owed_frames(1) [where 'a = 'a])
  then show ?thesis by (simp add: owed_all_def)
qed

lemma totalFrames_counted:
  assumes start: "all_sized Rs" "server_run mexp es (server_start now Rs calls) = Some v"
  shows "totalFrames (sh_stats (shared_state v)) = word_of_nat (frames_counted Rs v)"
    and "owed_all 8 each_frame v \<le> frames_due Rs"
    and "frames_answered v \<le> frames_counted Rs v" and "frames_counted Rs v \<le> frames_received Rs v"
proof -
  have ok: "server_ok mexp Rs v"
    using server_run_ok [OF server_start_ok [OF start(1), of mexp now calls], of es] start(2) by auto
  have "owed_all k each_frame (server_start now Rs calls) = frames_due Rs" for k
    by (simp add: owed_all_def server_start_def frames_due_def comp_def owed_def backlog_def sum_each_frame)
  then have begin': "owed_all k each_frame (server_start now Rs calls) = (word_of_nat (frames_due Rs) :: i64)" for k
    by (subst owed_all_frames) simp
  have total: "totalFrames (sh_stats (shared_state v)) + owed_all 8 each_frame v = word_of_nat (frames_due Rs)"
    using server_run_accounts [OF server_start_ok [OF start(1)] start(2)] begin'
    by (simp add: server_accounts_def Let_def server_start_def initial_shared_def initial_processor_def)
  have each: "list_all2 (\<lambda>R s. length (filter pc_Success (s_sent s)) + length (valid_times (stream_chunks (open_rounds s)))
      \<le> length (valid_times (stream_chunks R))) Rs (streams v)"
    using ok unfolding server_ok_def stream_ok_def by (auto elim: list_all2_mono)
  have sums: "sum_list (map (\<lambda>s. length (filter pc_Success (s_sent s))) xs) + sum_list (map (owed 8 each_frame) xs)
      \<le> frames_due Rs"
    if "list_all2 (\<lambda>R s. length (filter pc_Success (s_sent s)) + length (valid_times (stream_chunks (open_rounds s)))
      \<le> length (valid_times (stream_chunks R))) Rs xs" for xs
    using that
  proof (induction rule: list_all2_induct)
    case (Cons R Rs s xs)
    then show ?case using owed_frames(3) [of 8 s] by (simp add: frames_due_def)
  qed (simp add: frames_due_def)
  have sum: "frames_answered v + owed_all 8 each_frame v \<le> frames_due Rs"
    using sums [OF each] by (simp add: frames_answered_def owed_all_def)
  then show le: "owed_all 8 each_frame v \<le> frames_due Rs" by simp
  show "frames_answered v \<le> frames_counted Rs v" using sum by (simp add: frames_counted_def)
  have "sum_list (map (\<lambda>s. length (valid_times (backlog s))) (streams v)) \<le> owed_all 8 each_frame v"
    unfolding owed_all_def by (rule sum_list_mono) (rule owed_frames(2))
  then show "frames_counted Rs v \<le> frames_received Rs v"
    by (simp add: frames_counted_def frames_received_def diff_le_mono2)
  have "word_of_nat (frames_due Rs) =
      (word_of_nat (frames_counted Rs v) + word_of_nat (owed_all 8 each_frame v) :: i64)"
    using le by (simp add: frames_counted_def of_nat_diff)
  then show "totalFrames (sh_stats (shared_state v)) = word_of_nat (frames_counted Rs v)"
    using total owed_all_frames [of 8 v, where 'a = i64] by simp
qed


section \<open>The same streams one after the other\<close>

fun serve_in_turn ::
  "(fl \<Rightarrow> fl) \<Rightarrow> round list list \<Rightarrow> processor_state \<Rightarrow> ((ProcessedChunk list \<times> stream_end) list \<times> processor_state) option" where
  "serve_in_turn mexp [] st = Some ([], st)"
| "serve_in_turn mexp (R # Rs) st = do {
     (replies, stop, st) \<leftarrow> ProcessMediaStream mexp R st;
     (others, st) \<leftarrow> serve_in_turn mexp Rs st;
     Some ((replies, stop) # others, st) }"

text \<open>What a list of chunks adds to the statistics.\<close>

definition charged :: "(MediaChunk \<times> call_env) list \<Rightarrow> processor_state \<Rightarrow> processor_state \<Rightarrow> bool" where
  "charged cs st st' \<longleftrightarrow>
     totalFrames (stats st') = totalFrames (stats st) + sum_list (map (\<lambda>(c, e). each_frame c e) cs) \<and>
     totalTimeNs (stats st') = totalTimeNs (stats st) + sum_list (map (\<lambda>(c, e). each_time c e) cs) \<and>
     totalAllocs (stats st') = totalAllocs (stats st) + sum_list (map (\<lambda>(c, e). each_frame c e) cs) \<and>
     totalPoolGets (stats st') = totalPoolGets (stats st) + sum_list (map (\<lambda>(c, e). each_blur c e) cs) \<and>
     totalPoolPuts (stats st') = totalPoolPuts (stats st) + sum_list (map (\<lambda>(c, e). each_blur c e) cs) \<and>
     startTime (stats st') = startTime (stats st) \<and>
     framesProcessed st' = framesProcessed st + sum_list (map (\<lambda>(c, e). each_frame c e) cs) \<and>
     mset (processingTime st') = mset (processingTime st) + sum_list (map (\<lambda>(c, e). each_observation c e) cs)"

lemma charged_refl: "charged [] st st"
  by (simp add: charged_def)

lemma charged_append: "charged cs st st1 \<Longrightarrow> charged ds st1 st2 \<Longrightarrow> charged (cs @ ds) st st2"
  by (simp add: charged_def add.assoc)

lemma apply_filter_stats:
  assumes "apply_filter mexp env choice data w h st = Some (out, st')"
  shows "\<exists>pool. st' = (if fst choice \<in> {FILTER_TYPE_GRAYSCALE, FILTER_TYPE_SHARPEN, FILTER_TYPE_EDGE_DETECT} then st
    else st\<lparr>kernelPool := pool, stats := (stats st)\<lparr>totalPoolGets := totalPoolGets (stats st) + 1,
                                                  totalPoolPuts := totalPoolPuts (stats st) + 1\<rparr>\<rparr>)"
proof -
  obtain filt radius intensity where choice: "choice = (filt, radius, intensity)" by (cases choice)
  have blur: "\<exists>pool. st' = st\<lparr>kernelPool := pool, stats := (stats st)\<lparr>totalPoolGets := totalPoolGets (stats st) + 1,
      totalPoolPuts := totalPoolPuts (stats st) + 1\<rparr>\<rparr>"
    if "pooled_blur mexp env data w h radius st = Some (out, st')"
  proof -
    obtain buf rest where get: "pool_Get (pool_pick env) (kernelPool st) = (buf, rest)" by fastforce
    show ?thesis using that by (auto simp: pooled_blur_def get Let_def bind_eq_Some_conv)
  qed
  show ?thesis
    using assms blur by (auto simp: apply_filter_def choice split: if_split_asm)
qed

lemma processChunk_charged:
  assumes "sized chunk" and run: "processChunk mexp env chunk st = Some (r, st')"
  shows "charged [(chunk, env)] st st'"
proof -
  let ?w = "sint (mc_Width chunk)" and ?h = "sint (mc_Height chunk)"
  have size: "int (length (mc_Data chunk)) = wrap64 (?w * ?h * 3) \<longleftrightarrow> int (length (mc_Data chunk)) = ?w * ?h * 3"
    by (rule size_check_exact) (use assms in \<open>simp_all add: sized_def\<close>)
  show ?thesis
  proof (cases "valid_chunk chunk")
    case False
    then have "st' = st" using run size by (auto simp: processChunk_def valid_chunk_def Let_def split: if_split_asm)
    then show ?thesis
      using False by (simp add: charged_def each_frame_def each_time_def each_blur_def each_observation_def asks_blur_def)
  next
    case True
    then obtain out st1 where st1: "apply_filter mexp env (chunk_params (mc_Params chunk)) (mc_Data chunk) ?w ?h st =
        Some (out, st1)" "st' = count_chunk (elapsed_ns env) st1"
      using run size by (auto simp: processChunk_def valid_chunk_def Let_def bind_eq_Some_conv split: if_split_asm)
    obtain pool where "st1 = (if fst (chunk_params (mc_Params chunk)) \<in>
        {FILTER_TYPE_GRAYSCALE, FILTER_TYPE_SHARPEN, FILTER_TYPE_EDGE_DETECT} then st
      else st\<lparr>kernelPool := pool, stats := (stats st)\<lparr>totalPoolGets := totalPoolGets (stats st) + 1,
                                                    totalPoolPuts := totalPoolPuts (stats st) + 1\<rparr>\<rparr>)"
      using apply_filter_stats [OF st1(1)] by blast
    then show ?thesis
      using True
      by (simp add: charged_def st1(2) count_chunk_def each_frame_def each_time_def each_blur_def
          each_observation_def asks_blur_def)
  qed
qed

lemma ProcessMediaStream_charged:
  assumes "\<forall>(chunk, env) \<in> set (stream_chunks R). sized chunk" and "ProcessMediaStream mexp R st = Some (rs, stop, st')"
  shows "charged (stream_chunks R) st st'"
  using assms
proof (induction R arbitrary: st rs rule: stream_stop.induct)
  case (4 chunk env e rounds)
  then show ?case using processChunk_charged by (auto simp: bind_eq_Some_conv)
next
  case (5 chunk env rounds)
  obtain r st1 rs1 where st1: "processChunk mexp env chunk st = Some (r, st1)"
    "ProcessMediaStream mexp rounds st1 = Some (rs1, stop, st')"
    using "5.prems"(2) by (auto simp: bind_eq_Some_conv)
  have "charged [(chunk, env)] st st1" using processChunk_charged [OF _ st1(1)] "5.prems"(1) by simp
  from charged_append [OF this "5.IH" [OF _ st1(2)]] show ?case using "5.prems"(1) by simp
qed (simp_all add: charged_refl)

lemma serve_in_turn_spec:
  assumes "server_inv st" and "all_sized Rs"
  shows "\<exists>st'. serve_in_turn mexp Rs st = Some (map (\<lambda>R. (stream_replies mexp R, stream_stop R)) Rs, st') \<and>
    charged (concat (map stream_chunks Rs)) st st'"
  using assms
proof (induction Rs arbitrary: st)
  case (Cons R Rs)
  have sized: "\<forall>(chunk, env) \<in> set (stream_chunks R). sized chunk" "all_sized Rs"
    using Cons.prems(2) by (simp_all add: all_sized_def)
  obtain st1 where st1: "ProcessMediaStream mexp R st = Some (stream_replies mexp R, stream_stop R, st1)" "server_inv st1"
    using ProcessMediaStream_spec [OF Cons.prems(1) sized(1), of mexp] by blast
  show ?case
    using Cons.IH [OF st1(2) sized(2)] st1(1) charged_append [OF ProcessMediaStream_charged [OF sized(1) st1(1)]]
    by auto
qed (simp add: charged_refl)


section \<open>Properties\<close>

lemma run_ok:
  assumes "all_sized Rs" "server_run mexp es (server_start now Rs calls) = Some v"
  shows "server_ok mexp Rs v" and "length (streams v) = length Rs"
    and "server_accounts v = server_accounts (server_start now Rs calls)"
proof -
  show ok: "server_ok mexp Rs v"
    using server_run_ok [OF server_start_ok [OF assms(1), of mexp now calls], of es] assms(2) by auto
  then show "length (streams v) = length Rs" by (simp add: server_ok_def list_all2_conv_all_nth)
  show "server_accounts v = server_accounts (server_start now Rs calls)"
    by (rule server_run_accounts [OF server_start_ok [OF assms(1)] assms(2)])
qed

text \<open>All that the chunks of the streams will add to a counter.\<close>

definition due :: "(MediaChunk \<Rightarrow> call_env \<Rightarrow> 'a :: comm_monoid_add) \<Rightarrow> round list list \<Rightarrow> 'a" where
  "due f Rs = sum_list (map (\<lambda>(c, e). f c e) (concat (map stream_chunks Rs)))"

lemma owed_at_start: "owed_all k f (server_start now Rs calls) = due f Rs"
  unfolding owed_all_def server_start_def due_def
  by (induction Rs) (simp_all add: owed_def backlog_def)

lemma run_totals:
  assumes "all_sized Rs" "server_run mexp es (server_start now Rs calls) = Some v"
  shows "totalFrames (sh_stats (shared_state v)) + owed_all 8 each_frame v = due each_frame Rs"
    and "totalTimeNs (sh_stats (shared_state v)) + owed_all 9 each_time v = due each_time Rs"
    and "totalAllocs (sh_stats (shared_state v)) + owed_all 10 each_frame v = due each_frame Rs"
    and "totalPoolGets (sh_stats (shared_state v)) + owed_all 1 each_blur v = due each_blur Rs"
    and "totalPoolPuts (sh_stats (shared_state v)) + owed_all 7 each_blur v = due each_blur Rs"
    and "sh_framesProcessed (shared_state v) + owed_all 12 each_frame v = due each_frame Rs"
    and "mset (sh_processingTime (shared_state v)) + owed_all 13 each_observation v = due each_observation Rs"
    and "startTime (sh_stats (shared_state v)) = now"
proof -
  have g: "shared_state (server_start now Rs calls) = initial_shared now" by (simp add: server_start_def)
  note all = run_ok(3) [OF assms, unfolded server_accounts_def Let_def owed_at_start g initial_shared_def
      initial_processor_def, simplified]
  then show "totalFrames (sh_stats (shared_state v)) + owed_all 8 each_frame v = due each_frame Rs"
    and "totalTimeNs (sh_stats (shared_state v)) + owed_all 9 each_time v = due each_time Rs"
    and "totalAllocs (sh_stats (shared_state v)) + owed_all 10 each_frame v = due each_frame Rs"
    and "totalPoolGets (sh_stats (shared_state v)) + owed_all 1 each_blur v = due each_blur Rs"
    and "totalPoolPuts (sh_stats (shared_state v)) + owed_all 7 each_blur v = due each_blur Rs"
    and "sh_framesProcessed (shared_state v) + owed_all 12 each_frame v = due each_frame Rs"
    and "mset (sh_processingTime (shared_state v)) + owed_all 13 each_observation v = due each_observation Rs"
    and "startTime (sh_stats (shared_state v)) = now"
    by simp_all
qed

lemma settled_ok:
  assumes "stream_ok mexp hp R s" "settled s"
  shows "s_sent s = stream_replies mexp R" and "ending s = stream_stop R"
  using assms by (auto simp: stream_ok_def settled_def open_rounds_def ending_def split: location.splits)

lemma run_settles:
  assumes "server_run mexp es (server_start now Rs calls) = Some v" and "i < length Rs"
    and "sum_list (map round_actions (Rs ! i)) \<le> count_list es (Moves i)"
  shows "settled (streams v ! i)"
proof -
  let ?v0 = "server_start now Rs calls"
  have "stream_left (streams ?v0 ! i) = sum_list (map round_actions (Rs ! i))" "i < length (streams ?v0)"
    using assms(2) by (simp_all add: server_start_def stream_left_def)
  then show ?thesis
    using server_run_left [OF assms(1), of i] assms(3) stream_left_pos [of "streams v ! i"] by linarith
qed

lemma stream_progress:
  assumes "all_sized Rs" and "server_run mexp es (server_start now Rs calls) = Some v" and "i < length Rs"
  shows "\<exists>later. s_sent (streams v ! i) @ later = stream_replies mexp (Rs ! i)"
    and "sum_list (map round_actions (Rs ! i)) \<le> count_list es (Moves i) \<Longrightarrow>
      s_sent (streams v ! i) = stream_replies mexp (Rs ! i) \<and> ending (streams v ! i) = stream_stop (Rs ! i)"
proof -
  have stream: "stream_ok mexp (sh_heap (shared_state v)) (Rs ! i) (streams v ! i)"
    using run_ok(1) [OF assms(1,2)] assms(3) by (simp add: server_ok_def list_all2_conv_all_nth)
  then show "\<exists>later. s_sent (streams v ! i) @ later = stream_replies mexp (Rs ! i)" by (auto simp: stream_ok_def)
  show "s_sent (streams v ! i) = stream_replies mexp (Rs ! i) \<and> ending (streams v ! i) = stream_stop (Rs ! i)"
    if "sum_list (map round_actions (Rs ! i)) \<le> count_list es (Moves i)"
    using settled_ok [OF stream] run_settles [OF assms(2,3) that] by blast
qed

text \<open>A closed stream of one frame, and two of them, for concrete instances.\<close>

definition one_frame_stream :: "bytes \<Rightarrow> FilterType \<Rightarrow> round list" where
  "one_frame_stream data filt =
     [(Received (sample_chunk data filt 1 1), sample_env, None), (EOF, sample_env, None)]"

lemma one_frame_stream_facts:
  "stream_replies mexp (one_frame_stream data filt) = [chunk_reply mexp sample_env (sample_chunk data filt 1 1)]"
  "stream_stop (one_frame_stream data filt) = Finished"
  "sum_list (map round_actions (one_frame_stream data filt)) = 87"
  by (simp_all add: one_frame_stream_def pixels_left_def sample_chunk_def)

lemma one_frame_sized:
  "length data = 3 \<Longrightarrow> length data' = 3 \<Longrightarrow> all_sized [one_frame_stream data filt, one_frame_stream data' filt']"
  by (simp add: all_sized_def one_frame_stream_def sized_def sample_chunk_def)

text \<open>
  C4. Any number of streams at once, under any scheduler and any choices of the pool: no goroutine
  panics, and each stream has sent a prefix of the answers that the sequential server gives
  to that stream alone; its kernel weights are never those of another stream. A stream that has
  been scheduled often enough (87 actions for a stream of one pixel) has sent all of them and
  ended as its transport says, whatever the others did and even if they never move again.
\<close>

theorem streams_do_not_interfere:
  assumes "all_sized Rs"
  shows "\<exists>v. server_run mexp es (server_start now Rs calls) = Some v \<and> length (streams v) = length Rs \<and>
    (\<forall>i < length Rs.
      (\<exists>later. s_sent (streams v ! i) @ later = stream_replies mexp (Rs ! i)) \<and>
      (sum_list (map round_actions (Rs ! i)) \<le> count_list es (Moves i) \<longrightarrow>
        s_sent (streams v ! i) = stream_replies mexp (Rs ! i) \<and> ending (streams v ! i) = stream_stop (Rs ! i)))"
proof -
  obtain v where v: "server_run mexp es (server_start now Rs calls) = Some v"
    using server_run_ok [OF server_start_ok [OF assms, of mexp now calls], of es] by blast
  show ?thesis using v run_ok(2) [OF assms v] stream_progress [OF assms v] by blast
qed

theorem streams_do_not_interfere_witness:
  "\<exists>v. server_run sample_exp (concat (replicate 87 [Moves 1, Collects 0, Moves 0]))
      (server_start 0 [one_frame_stream [1, 2, 3] 1, one_frame_stream [9, 9, 9] 1] []) = Some v \<and>
    s_sent (streams v ! 0) = [chunk_reply sample_exp sample_env (sample_chunk [1, 2, 3] 1 1 1)] \<and>
    s_sent (streams v ! 1) = [chunk_reply sample_exp sample_env (sample_chunk [9, 9, 9] 1 1 1)]"
proof -
  define es where "es = concat (replicate 87 [Moves 1, Collects 0, Moves 0])"
  have "count_list (concat (replicate n [Moves 1, Collects 0, Moves 0])) (Moves i) = n" if "i = 0 \<or> i = 1" for i n
    using that by (induction n) auto
  then have count: "count_list es (Moves 0) = 87" "count_list es (Moves 1) = 87" by (simp_all add: es_def)
  let ?Rs = "[one_frame_stream [1, 2, 3] 1, one_frame_stream [9, 9, 9] 1]"
  have "all_sized ?Rs" by (rule one_frame_sized) simp_all
  then obtain v where v: "server_run sample_exp es (server_start 0 ?Rs []) = Some v"
    and sent: "\<And>i. i < 2 \<Longrightarrow> sum_list (map round_actions (?Rs ! i)) \<le> count_list es (Moves i) \<Longrightarrow>
      s_sent (streams v ! i) = stream_replies sample_exp (?Rs ! i)"
    using streams_do_not_interfere [of ?Rs sample_exp es 0 "[]"] by auto
  show ?thesis
    using v sent [of 0] sent [of 1] count unfolding es_def [symmetric]
    by (intro exI [of _ v]) (simp add: one_frame_stream_facts)
qed

definition blurring :: "stream \<Rightarrow> bool" where
  "blurring s \<longleftrightarrow> (case s_at s of Working call w \<Rightarrow> stage w \<in> {2..7} | _ \<Rightarrow> False)"

lemma pool_counters:
  assumes "all_sized Rs" and "server_run mexp es (server_start now Rs calls) = Some v"
  shows "totalPoolGets (sh_stats (shared_state v)) = totalPoolPuts (sh_stats (shared_state v)) +
    word_of_nat (length (filter blurring (streams v)))"
proof -
  note ok = run_ok [OF assms]
  have each: "owed 7 each_blur s = owed 1 each_blur s + (if blurring s then 1 else 0)"
    if "s \<in> set (streams v)" for s
  proof -
    obtain i where "stream_ok mexp (sh_heap (shared_state v)) (Rs ! i) s"
      using ok(1) \<open>s \<in> set (streams v)\<close> by (auto simp: server_ok_def list_all2_conv_all_nth in_set_conv_nth)
    then have w: "work_ok mexp chunk env (sh_heap (shared_state v)) w" if "s_at s = Working (chunk, env, out) w"
      for chunk env out w using that by (auto simp: stream_ok_def)
    show ?thesis
    proof (cases "s_at s")
      case (Working call w)
      obtain chunk env out where "call = (chunk, env, out)" by (cases call)
      then show ?thesis
        using w [of chunk env out w] Working
        by (cases w) (auto simp: owed_def blurring_def each_blur_def frame_rest_def)
    qed (simp_all add: owed_def blurring_def)
  qed
  have "sum_list (map (owed 7 each_blur) xs) = sum_list (map (owed 1 each_blur) xs) + word_of_nat (length (filter blurring xs))"
    if "set xs \<subseteq> set (streams v)" for xs
    using that by (induction xs) (auto simp: each)
  then have "owed_all 7 each_blur v = owed_all 1 each_blur v + word_of_nat (length (filter blurring (streams v)))"
    by (simp add: owed_all_def)
  with run_totals(4,5) [OF assms]
  have "totalPoolGets (sh_stats (shared_state v)) + owed_all 1 each_blur v =
      totalPoolPuts (sh_stats (shared_state v)) + word_of_nat (length (filter blurring (streams v))) + owed_all 1 each_blur v"
    by (simp only: ac_simps)
  then show ?thesis by (rule add_right_imp_eq)
qed




text \<open>
  C6. Serialisability: when all streams have come to rest, each has sent the answers, and
  ended the way, that it would have if the streams had been served one after the other by the
  sequential server; and all counters, the Prometheus counter and the observed times (in some order)
  are the same as after that.
\<close>

theorem streams_serialisable:
  assumes "all_sized Rs" and "server_run mexp es (server_start now Rs calls) = Some v"
    and "list_all settled (streams v)"
  shows "\<exists>st. serve_in_turn mexp Rs (initial_processor now) =
      Some (map (\<lambda>s. (s_sent s, ending s)) (streams v), st) \<and>
    stats st = sh_stats (shared_state v) \<and> framesProcessed st = sh_framesProcessed (shared_state v) \<and>
    mset (processingTime st) = mset (sh_processingTime (shared_state v))"
proof -
  note ok = run_ok [OF assms(1,2)]
  have ends: "settled (streams v ! i)" if "i < length Rs" for i
    using assms(3) ok(2) that by (simp add: list_all_length)
  have "map (\<lambda>R. (stream_replies mexp R, stream_stop R)) Rs = map (\<lambda>s. (s_sent s, ending s)) (streams v)"
  proof (rule nth_equalityI)
    fix i assume i: "i < length (map (\<lambda>R. (stream_replies mexp R, stream_stop R)) Rs)"
    then have "stream_ok mexp (sh_heap (shared_state v)) (Rs ! i) (streams v ! i)"
      using ok(1) by (simp add: server_ok_def list_all2_conv_all_nth)
    from settled_ok [OF this ends] i ok(2)
    show "map (\<lambda>R. (stream_replies mexp R, stream_stop R)) Rs ! i = map (\<lambda>s. (s_sent s, ending s)) (streams v) ! i"
      by simp
  qed (simp add: ok(2))
  moreover obtain st where st: "serve_in_turn mexp Rs (initial_processor now) =
      Some (map (\<lambda>R. (stream_replies mexp R, stream_stop R)) Rs, st)"
    "charged (concat (map stream_chunks Rs)) (initial_processor now) st"
    using serve_in_turn_spec [OF initial_processor_inv assms(1), of mexp now] by blast
  moreover have "stats st = sh_stats (shared_state v) \<and> framesProcessed st = sh_framesProcessed (shared_state v) \<and>
      mset (processingTime st) = mset (sh_processingTime (shared_state v))"
  proof -
    have none: "owed_all k f v = 0" for k and f :: "_ \<Rightarrow> _ \<Rightarrow> 'c :: comm_monoid_add"
    proof -
      have "owed k f s = 0" if "settled s" for s
        using that by (auto simp: owed_def settled_def backlog_def split: location.splits)
      then have "sum_list (map (owed k f) xs) = 0" if "list_all settled xs" for xs
        using that by (induction xs) auto
      then show ?thesis using assms(3) by (simp add: owed_all_def)
    qed
    show ?thesis
      using st(2) run_totals [OF assms(1,2)]
      by (cases "stats st"; cases "sh_stats (shared_state v)")
        (simp add: charged_def none due_def initial_processor_def)
  qed
  ultimately show ?thesis by auto
qed


theorem streams_serialisable_witness:
  "\<exists>v st. server_run sample_exp (concat (replicate 87 [Moves 1, Moves 0]))
      (server_start 0 [one_frame_stream [1, 2, 3] 1, one_frame_stream [9, 9, 9] 4] []) = Some v \<and>
    serve_in_turn sample_exp [one_frame_stream [1, 2, 3] 1, one_frame_stream [9, 9, 9] 4] (initial_processor 0) =
      Some (map (\<lambda>s. (s_sent s, ending s)) (streams v), st) \<and> stats st = sh_stats (shared_state v)"
proof -
  define es where "es = concat (replicate 87 [Moves 1, Moves 0])"
  have "count_list (concat (replicate n [Moves 1, Moves 0])) (Moves i) = n" if "i = 0 \<or> i = 1" for i n
    using that by (induction n) auto
  then have count: "count_list es (Moves 0) = 87" "count_list es (Moves 1) = 87" by (simp_all add: es_def)
  let ?Rs = "[one_frame_stream [1, 2, 3] 1, one_frame_stream [9, 9, 9] 4]"
  have sized: "all_sized ?Rs" by (rule one_frame_sized) simp_all
  obtain v where v: "server_run sample_exp es (server_start 0 ?Rs []) = Some v"
    using server_run_ok [OF server_start_ok [OF sized, of sample_exp 0 "[]"], of es] by blast
  have "settled (streams v ! 0)" "settled (streams v ! 1)" "length (streams v) = 2"
    using run_settles [OF v, of 0] run_settles [OF v, of 1] run_ok(2) [OF sized v] count
    by (simp_all add: one_frame_stream_facts)
  then have "list_all settled (streams v)" by (auto simp: list_all_length less_2_cases_iff)
  from streams_serialisable [OF sized v this] v show ?thesis unfolding es_def [symmetric] by blast
qed

section \<open>Statistics taken while streams run\<close>

lemma work_step_stage:
  assumes "work_step mexp chunk env w g = Some (w', g')"
  shows "stage w \<le> stage w'"
proof (cases "stage w \<in> {1, 7, 8, 9, 10, 12, 13}")
  case True
  then show ?thesis using assms by (cases w) auto
next
  case False
  then show ?thesis using work_step_quiet [OF assms] by auto
qed

lemma stream_action_owed:
  fixes f :: "MediaChunk \<Rightarrow> call_env \<Rightarrow> nat"
  assumes "stream_action mexp s g = Some (s', g')"
  shows "owed k f s' \<le> owed k f s"
proof (cases "s_at s")
  case AtRecv
  show ?thesis
  proof (cases "s_rounds s")
    case (Cons r rs)
    then show ?thesis
      using assms AtRecv
      by (cases r rule: receive.cases; cases "snd (snd r)")
        (auto simp: stream_action_def owed_def backlog_def)
  qed (use assms AtRecv in \<open>simp add: stream_action_def\<close>)
next
  case (Working call w)
  show ?thesis
  proof (cases "\<exists>r. w = Reply r")
    case True
    then show ?thesis
      using assms Working by (cases call; cases "snd (snd call)") (auto simp: stream_action_def owed_def backlog_def)
  next
    case False
    then obtain w' where w': "work_step mexp (fst call) (fst (snd call)) w g = Some (w', g')"
      "s' = s\<lparr>s_at := Working call w'\<rparr>"
      using assms by (cases w) (auto simp: stream_action_def Working)
    have "stage w \<le> stage w'" by (rule work_step_stage [OF w'(1)])
    then show ?thesis by (cases call) (auto simp: w'(2) Working owed_def backlog_def)
  qed
qed (use assms in \<open>simp add: stream_action_def\<close>)

lemma server_step_owed:
  fixes f :: "MediaChunk \<Rightarrow> call_env \<Rightarrow> nat"
  assumes "server_step mexp e v = Some v'"
  shows "owed_all k f v' \<le> owed_all k f v"
proof (cases e)
  case (Moves i)
  show ?thesis
  proof (cases "i < length (streams v)")
    case True
    then obtain s g where s: "stream_action mexp (streams v ! i) (shared_state v) = Some (s, g)"
      "v' = v\<lparr>shared_state := g, streams := (streams v)[i := s]\<rparr>"
      using assms Moves by auto
    have "owed_all k f v = owed k f (streams v ! i) +
        (sum_list (map (owed k f) (take i (streams v))) + sum_list (map (owed k f) (drop (Suc i) (streams v))))"
      "owed_all k f v' = owed k f s +
        (sum_list (map (owed k f) (take i (streams v))) + sum_list (map (owed k f) (drop (Suc i) (streams v))))"
      unfolding owed_all_def using total_split [OF True, of "owed k f"] s(2) by simp_all
    then show ?thesis using stream_action_owed [OF s(1), of k f] by linarith
  qed (use assms Moves in simp)
qed (use assms in \<open>auto simp: owed_all_def split: if_split_asm\<close>)

lemma server_run_append:
  "server_run mexp (es @ es') v = do { v \<leftarrow> server_run mexp es v; server_run mexp es' v }"
  by (induction es arbitrary: v) (simp_all add: bind_assoc split: Option.bind_split)

fun frames_read :: "stats_call \<Rightarrow> i64 option" where
  "frames_read (StatsCalled env up) = None"
| "frames_read (GotFrames env up frames) = Some frames"
| "frames_read (GotTime env up frames time) = Some frames"
| "frames_read (GotAllocs env up frames time allocs) = Some frames"
| "frames_read (StatsAnswered r) = Some (sr_TotalFramesProcessed r)"

lemma frames_read_between:
  assumes sized: "all_sized Rs" and start: "server_run mexp es (server_start now Rs calls) = Some v"
    and before: "frames_read (stats_calls v ! j) = None" and j: "j < length (stats_calls v)"
    and "server_run mexp es' v = Some v'"
  shows "length (stats_calls v') = length (stats_calls v) \<and> frames_counted Rs v \<le> frames_counted Rs v' \<and>
    (\<forall>F. frames_read (stats_calls v' ! j) = Some F \<longrightarrow>
      (\<exists>n. F = word_of_nat n \<and> frames_counted Rs v \<le> n \<and> n \<le> frames_counted Rs v'))"
  using assms(5)
proof (induction es' arbitrary: v' rule: rev_induct)
  case Nil
  then show ?case using before by simp
next
  case (snoc e es')
  obtain v1 where v1: "server_run mexp es' v = Some v1" "server_step mexp e v1 = Some v'"
    using snoc.prems by (auto simp: server_run_append bind_eq_Some_conv)
  note IH = snoc.IH [OF v1(1)]
  have "server_run mexp (es @ es') (server_start now Rs calls) = Some v1"
    using start v1(1) by (simp add: server_run_append)
  note counted = totalFrames_counted [OF sized this]
  have mono: "frames_counted Rs v1 \<le> frames_counted Rs v'"
    using server_step_owed [OF v1(2), of 8 each_frame] by (simp add: frames_counted_def diff_le_mono2)
  have step: "length (stats_calls v') = length (stats_calls v1) \<and>
      (frames_read (stats_calls v' ! j) = frames_read (stats_calls v1 ! j) \<or>
       frames_read (stats_calls v1 ! j) = None \<and>
       frames_read (stats_calls v' ! j) = Some (totalFrames (sh_stats (shared_state v1))))"
    using v1(2) j IH
    by (cases e; cases "stats_calls v1 ! j") (auto simp: nth_list_update split: if_split_asm)
  have "\<exists>n. F = word_of_nat n \<and> frames_counted Rs v \<le> n \<and> n \<le> frames_counted Rs v'"
    if F: "frames_read (stats_calls v' ! j) = Some F" for F
  proof (cases "frames_read (stats_calls v1 ! j) = Some F")
    case True
    then obtain n where "F = word_of_nat n" "frames_counted Rs v \<le> n" "n \<le> frames_counted Rs v1"
      using IH by blast
    then show ?thesis using mono by (intro exI [of _ n]) simp
  next
    case False
    then have "F = word_of_nat (frames_counted Rs v1)" using step F counted(1) by auto
    then show ?thesis using IH mono by (intro exI [of _ "frames_counted Rs v1"]) simp
  qed
  then show ?case using IH mono step by simp
qed


text \<open>Without interference, the four loads are the sequential \<open>GetStats\<close>.\<close>

lemma stats_actions_GetStats:
  "stats st = sh_stats g \<Longrightarrow>
     stats_action (stats_action (stats_action (stats_action (StatsCalled env up) g) g) g) g =
       StatsAnswered (GetStats env up st)"
  by (simp add: GetStats_def Let_def)

text \<open>
  C19. \<open>GetStats\<close> while streams run: the number of frames it reports is at least the number of frames
  already answered successfully when it was called, and at most the number of acceptable chunks that
  have been received when it returns, for every interleaving and as long as the 64-bit
  counter does not wrap.
\<close>

theorem GetStats_concurrent:
  assumes "all_sized Rs" and "frames_due Rs < 2 ^ 63"
    and "server_run mexp es (server_start now Rs calls) = Some v"
    and "j < length (stats_calls v)" and "stats_calls v ! j = StatsCalled env up"
    and "server_run mexp es' v = Some v'" and "stats_calls v' ! j = StatsAnswered r"
  shows "int (frames_answered v) \<le> sint (sr_TotalFramesProcessed r) \<and>
    sint (sr_TotalFramesProcessed r) \<le> int (frames_received Rs v')"
proof -
  obtain n where n: "sr_TotalFramesProcessed r = word_of_nat n" "frames_counted Rs v \<le> n" "n \<le> frames_counted Rs v'"
    using frames_read_between [OF assms(1,3) _ assms(4,6)] assms(5,7) by auto
  have "server_run mexp (es @ es') (server_start now Rs calls) = Some v'"
    using assms(3,6) by (simp add: server_run_append)
  note counted = totalFrames_counted [OF assms(1,3)] totalFrames_counted [OF assms(1) this]
  have "n < 2 ^ 63" using n(3) assms(2) by (simp add: frames_counted_def)
  then have "sint (word_of_nat n :: i64) = int n"
    by (simp add: signed_of_nat signed_take_bit_int_eq_self)
  then show ?thesis using n counted(3,8) by simp
qed

lemma one_sharpen_run:
  "\<exists>v. server_run sample_exp [Moves 0, Moves 0, Moves 0, Moves 0, Moves 0, Moves 0, Moves 0, Moves 0]
      (server_start 0 [one_frame_stream [9, 9, 9] FILTER_TYPE_SHARPEN] [(sample_env, 10 ^ 9)]) = Some v \<and>
    stats_calls v = [StatsCalled sample_env (10 ^ 9)] \<and> frames_answered v = 1"
  by (simp add: server_start_def one_frame_stream_def stream_action_def admit_def sample_chunk_def chunk_params_def
      initial_shared_def initial_processor_def Let_def wrap64_def Sharpen_def add_stats_def
      frames_answered_def)

theorem GetStats_concurrent_witness:
  "\<exists>v v' r. server_run sample_exp [Moves 0, Moves 0, Moves 0, Moves 0, Moves 0, Moves 0, Moves 0, Moves 0]
      (server_start 0 [one_frame_stream [9, 9, 9] FILTER_TYPE_SHARPEN] [(sample_env, 10 ^ 9)]) = Some v \<and>
    server_run sample_exp [Reads 0, Reads 0, Reads 0, Reads 0] v = Some v' \<and>
    stats_calls v' = [StatsAnswered r] \<and> frames_answered v = 1 \<and> 1 \<le> sint (sr_TotalFramesProcessed r)"
proof -
  let ?Rs = "[one_frame_stream [9, 9, 9] FILTER_TYPE_SHARPEN]"
  obtain v where v: "server_run sample_exp [Moves 0, Moves 0, Moves 0, Moves 0, Moves 0, Moves 0, Moves 0, Moves 0]
      (server_start 0 ?Rs [(sample_env, 10 ^ 9)]) = Some v"
    "stats_calls v = [StatsCalled sample_env (10 ^ 9)]" "frames_answered v = 1"
    using one_sharpen_run by blast
  obtain v' r where v': "server_run sample_exp [Reads 0, Reads 0, Reads 0, Reads 0] v = Some v'"
    "stats_calls v' = [StatsAnswered r]"
    using v(2) by simp
  have "all_sized ?Rs" "frames_due ?Rs < 2 ^ 63"
    by (simp_all add: all_sized_def one_frame_stream_def sized_def sample_chunk_def frames_due_def valid_times_def)
  from GetStats_concurrent [OF this v(1) _ _ v'(1), of 0 sample_env "10 ^ 9" r] v v'
  show ?thesis by auto
qed

text \<open>
  The loads of \<open>GetStats\<close> are not one snapshot: a call between the two \<open>AddInt64\<close> of a
  frame counts the frame but not its time, and reports a mean of 0 ms although the only frame
  ever processed took 1.5 ms.
\<close>

theorem GetStats_torn:
  "\<exists>v r. server_run sample_exp [Moves 0, Moves 0, Reads 0, Reads 0, Moves 0, Reads 0, Reads 0]
      (server_start 0 [one_frame_stream [9, 9, 9] FILTER_TYPE_SHARPEN] [(sample_env, 10 ^ 9)]) = Some v \<and>
    stats_calls v = [StatsAnswered r] \<and> sr_TotalFramesProcessed r = 1 \<and> sr_TotalProcessingTimeNs r = 0 \<and>
    sr_AvgProcessingTimeMs r = Fin 0 \<and> totalTimeNs (sh_stats (shared_state v)) = 1500000"
proof -
  have "average_ms 0 1 = Fin 0"
    using fl_round_int64 [of 0] by (simp add: average_ms_def float64_of_exact)
  then show ?thesis
    by (simp add: server_start_def one_frame_stream_def stream_action_def admit_def sample_chunk_def chunk_params_def
        sample_env_def initial_shared_def initial_processor_def Let_def wrap64_def Sharpen_def add_stats_def)
qed

end
