(* ===== verification/Processor_Main.thy ===== *)
theory Processor_Main
  imports Processor_Server
begin

text \<open>
  The metrics server that \<open>processor-go/cmd/server/main.go\<close> starts beside the gRPC service: the pages
  \<open>/runtime\<close> and \<open>/stats\<close>. What \<open>fmt.Fprintf\<close> prints is given by the list of its arguments; the runtime's
  own figures (goroutines, heap, garbage collector) are inputs.
\<close>

section \<open>Pages\<close>

record runtime_stats =
  ms_goroutines :: int
  ms_cgo_calls :: int
  ms_HeapAlloc :: "64 word"
  ms_HeapSys :: "64 word"
  ms_HeapIdle :: "64 word"
  ms_HeapInuse :: "64 word"
  ms_HeapObjects :: "64 word"
  ms_StackInuse :: "64 word"
  ms_TotalAlloc :: "64 word"
  ms_NumGC :: "32 word"
  ms_PauseTotalNs :: "64 word"
  ms_PauseNs :: "64 word list"
  ms_NextGC :: "64 word"
  ms_GCCPUFraction :: fl

datatype printed = PInt int | PFloat nat fl

text \<open>The last pause: the index is computed in \<open>uint32\<close>, and the array has 256 entries.\<close>

definition last_pause :: "runtime_stats \<Rightarrow> 64 word" where
  "last_pause m = ms_PauseNs m ! unat ((ms_NumGC m + 255) mod 256)"

definition runtime_page :: "runtime_stats \<Rightarrow> i64 \<Rightarrow> processor_state \<Rightarrow> (string \<times> printed) list" where
  "runtime_page m uptime st = (let s = stats st in
     [(''uptime_seconds'', PFloat 1 (duration_seconds uptime)),
      (''goroutines'', PInt (ms_goroutines m)), (''cgo_calls'', PInt (ms_cgo_calls m)),
      (''heap_alloc_bytes'', PInt (uint (ms_HeapAlloc m))), (''heap_sys_bytes'', PInt (uint (ms_HeapSys m))),
      (''heap_idle_bytes'', PInt (uint (ms_HeapIdle m))), (''heap_inuse_bytes'', PInt (uint (ms_HeapInuse m))),
      (''heap_objects'', PInt (uint (ms_HeapObjects m))), (''stack_inuse_bytes'', PInt (uint (ms_StackInuse m))),
      (''total_alloc_bytes'', PInt (uint (ms_TotalAlloc m))), (''num_gc'', PInt (uint (ms_NumGC m))),
      (''pause_total_ns'', PInt (uint (ms_PauseTotalNs m))), (''last_pause_ns'', PInt (uint (last_pause m))),
      (''next_gc_bytes'', PInt (uint (ms_NextGC m))), (''gc_cpu_percent'', PFloat 4 (ms_GCCPUFraction m)),
      (''gets'', PInt (sint (totalPoolGets s))), (''puts'', PInt (sint (totalPoolPuts s))),
      (''reuse_ratio'', PFloat 2 (reuse_ratio s)), (''total_frames'', PInt (sint (totalFrames s))),
      (''fps'', PFloat 1 (frame_rate (totalFrames s) uptime)),
      (''avg_latency_ms'', PFloat 2 (average_ms (totalTimeNs s) (totalFrames s))),
      (''total_time_ns'', PInt (sint (totalTimeNs s)))])"

text \<open>\<open>/stats\<close> asks a service of its own, which reads the same global counters.\<close>

definition stats_page :: "call_env \<Rightarrow> i64 \<Rightarrow> processor_state \<Rightarrow> (string \<times> printed) list" where
  "stats_page env uptime st = (let r = GetStats env uptime st in
     [(''totalFramesProcessed'', PInt (sint (sr_TotalFramesProcessed r))),
      (''avgProcessingTimeMs'', PFloat 2 (sr_AvgProcessingTimeMs r)),
      (''framesPerSecond'', PFloat 1 (sr_FramesPerSecond r)),
      (''heapBytes'', PInt (sint (sr_CurrentArenaSizeBytes r)))])"

section \<open>What the pages report\<close>

text \<open>The index of the last pause is always one of the 256 entries.\<close>

lemma last_pause_index: "unat ((n + 255) mod 256 :: 32 word) < 256"
  by (simp add: unat_mod_distrib)

text \<open>
  Between calls the three views of the counters agree: \<open>/runtime\<close>, \<open>/stats\<close> and
  the gRPC call report the same frames, mean and rate, and the page shows as many gets as puts.
\<close>

lemma pages_agree:
  assumes "server_inv st"
  shows "map_of (runtime_page m uptime st) ''total_frames'' = map_of (stats_page env uptime st) ''totalFramesProcessed''"
    and "map_of (runtime_page m uptime st) ''avg_latency_ms'' = map_of (stats_page env uptime st) ''avgProcessingTimeMs''"
    and "map_of (runtime_page m uptime st) ''fps'' = map_of (stats_page env uptime st) ''framesPerSecond''"
    and "map_of (runtime_page m uptime st) ''gets'' = map_of (runtime_page m uptime st) ''puts''"
  using assms by (simp_all add: runtime_page_def stats_page_def GetStats_def server_inv_def Let_def)

end
