(* ===== verification/Processor_Process.thy ===== *)
theory Processor_Process
  imports Concurrent_Facts Processor_Main Go_Scan
begin

text \<open>
  The process of the Go processor: \<open>main\<close> of \<open>processor-go/cmd/server/main.go\<close>: the port from flag and
  environment, the gRPC server whose goroutines are those of \<open>Processor_Concurrent\<close>, the metrics
  server, the ticker that copies the heap size into a gauge, and the graceful stop after a signal.
\<close>

section \<open>The process\<close>

datatype process_phase = Serving | Stopping | Exited nat

record go_process =
  gp_phase :: process_phase
  gp_addr :: string
  gp_server :: server
  gp_heapAlloc :: fl
  gp_metrics_up :: bool

text \<open>\<open>listens\<close> tells whether \<open>net.Listen\<close> gets the address; otherwise \<open>log.Fatalf\<close> ends the process.\<close>

definition processor_start :: "(string \<Rightarrow> bool) \<Rightarrow> int \<Rightarrow> string \<Rightarrow> int \<Rightarrow> go_process" where
  "processor_start listens flag env_port now = (
     let addr = CHR '':'' # show_int (port_from flag env_port)
     in \<lparr>gp_phase = (if listens addr then Serving else Exited 1), gp_addr = addr,
         gp_server = server_start now [] [], gp_heapAlloc = Fin 0, gp_metrics_up = True\<rparr>)"

text \<open>
  What happens to the process: a client opens a stream or asks for statistics, a goroutine acts, the
  ticker fires, a server fails, a signal arrives, \<open>GracefulStop\<close> tries to return.
\<close>

datatype process_input =
    OpenStream "round list"
  | AskStats call_env i64
  | Acts server_event
  | GaugeTick "64 word"
  | MetricsServerFails
  | ServeFails
  | SignalReceived
  | StopReturns

definition stream_ended :: "stream \<Rightarrow> bool" where
  "stream_ended s \<longleftrightarrow> (case s_at s of Ended stop \<Rightarrow> True | _ \<Rightarrow> False)"

definition stats_answered :: "stats_call \<Rightarrow> bool" where
  "stats_answered c \<longleftrightarrow> (case c of StatsAnswered r \<Rightarrow> True | _ \<Rightarrow> False)"

text \<open>
  \<open>GracefulStop\<close> accepts nothing new and waits for the calls that run, without a limit. After
  it \<open>Serve\<close> returns nil, so that only a failure before the signal is fatal. \<open>None\<close> is a panic.
\<close>

fun process_step :: "(fl \<Rightarrow> fl) \<Rightarrow> process_input \<Rightarrow> go_process \<Rightarrow> go_process option" where
  "process_step mexp (OpenStream R) p = Some (if gp_phase p = Serving
     then p\<lparr>gp_server := (gp_server p)\<lparr>streams := streams (gp_server p) @ [\<lparr>s_at = AtRecv, s_rounds = R, s_sent = []\<rparr>]\<rparr>\<rparr>
     else p)"
| "process_step mexp (AskStats env up) p = Some (if gp_phase p = Serving
     then p\<lparr>gp_server := (gp_server p)\<lparr>stats_calls := stats_calls (gp_server p) @ [StatsCalled env up]\<rparr>\<rparr>
     else p)"
| "process_step mexp (Acts e) p = (case gp_phase p of
     Exited code \<Rightarrow> Some p
   | _ \<Rightarrow> map_option (\<lambda>v. p\<lparr>gp_server := v\<rparr>) (server_step mexp e (gp_server p)))"
| "process_step mexp (GaugeTick heap) p = Some (case gp_phase p of
     Exited code \<Rightarrow> p
   | _ \<Rightarrow> p\<lparr>gp_heapAlloc := fl_round F64 (of_int (uint heap))\<rparr>)"
| "process_step mexp MetricsServerFails p = Some (p\<lparr>gp_metrics_up := False\<rparr>)"
| "process_step mexp ServeFails p = Some (if gp_phase p = Serving then p\<lparr>gp_phase := Exited 1\<rparr> else p)"
| "process_step mexp SignalReceived p = Some (if gp_phase p = Serving then p\<lparr>gp_phase := Stopping\<rparr> else p)"
| "process_step mexp StopReturns p = Some (
     if gp_phase p = Stopping \<and> list_all stream_ended (streams (gp_server p)) \<and>
       list_all stats_answered (stats_calls (gp_server p))
     then p\<lparr>gp_phase := Exited 0\<rparr> else p)"

fun process_run :: "(fl \<Rightarrow> fl) \<Rightarrow> process_input list \<Rightarrow> go_process \<Rightarrow> go_process option" where
  "process_run mexp [] p = Some p"
| "process_run mexp (i # is) p = do { p \<leftarrow> process_step mexp i p; process_run mexp is p }"

section \<open>What a run keeps\<close>

text \<open>The streams that were accepted: those opened before the process stopped accepting.\<close>

fun accepted :: "process_input list \<Rightarrow> round list list" where
  "accepted [] = []"
| "accepted (OpenStream R # is) = R # accepted is"
| "accepted (SignalReceived # is) = []"
| "accepted (ServeFails # is) = []"
| "accepted (i # is) = accepted is"

lemma server_ok_open:
  assumes "server_ok mexp Rs v" and "\<forall>(chunk, env) \<in> set (stream_chunks R). sized chunk"
  shows "server_ok mexp (Rs @ [R]) (v\<lparr>streams := streams v @ [\<lparr>s_at = AtRecv, s_rounds = R, s_sent = []\<rparr>]\<rparr>)"
  using assms
  by (auto simp: server_ok_def held_buffers_def held_def stream_ok_def open_rounds_def ending_def
      intro!: list_all2_appendI)

text \<open>One step: the streams of the process are those accepted so far, with the invariant of the server.\<close>

definition process_ok :: "(fl \<Rightarrow> fl) \<Rightarrow> round list list \<Rightarrow> go_process \<Rightarrow> bool" where
  "process_ok mexp Rs p \<longleftrightarrow> server_ok mexp Rs (gp_server p) \<and>
     (gp_phase p = Exited 0 \<longrightarrow> list_all stream_ended (streams (gp_server p)))"

lemma process_step_ok:
  assumes ok: "process_ok mexp Rs p"
    and sized: "gp_phase p = Serving \<Longrightarrow> all_sized (accepted [i])"
  shows "\<exists>p'. process_step mexp i p = Some p' \<and>
    process_ok mexp (Rs @ (if gp_phase p = Serving then accepted [i] else [])) p' \<and>
    (gp_phase p' = Serving \<longleftrightarrow> gp_phase p = Serving \<and> i \<notin> {SignalReceived, ServeFails})"
proof (cases i)
  case (OpenStream R)
  show ?thesis
  proof (cases "gp_phase p = Serving")
    case True
    have "server_ok mexp (Rs @ [R])
        ((gp_server p)\<lparr>streams := streams (gp_server p) @ [\<lparr>s_at = AtRecv, s_rounds = R, s_sent = []\<rparr>]\<rparr>)"
      by (rule server_ok_open) (use ok sized True OpenStream in \<open>simp_all add: process_ok_def all_sized_def\<close>)
    then show ?thesis using True OpenStream by (simp add: process_ok_def)
  qed (use ok OpenStream in simp)
next
  case (AskStats env up)
  then show ?thesis using ok by (auto simp: process_ok_def server_ok_def held_buffers_def)
next
  case (Acts e)
  obtain v where "server_step mexp e (gp_server p) = Some v" "server_ok mexp Rs v"
    using server_step_ok [of mexp Rs "gp_server p" e] ok by (auto simp: process_ok_def)
  then show ?thesis using ok Acts by (cases "gp_phase p") (auto simp: process_ok_def)
next
  case (GaugeTick heap)
  then show ?thesis using ok by (cases "gp_phase p") (auto simp: process_ok_def)
qed (use ok in \<open>auto simp: process_ok_def\<close>)

lemma process_run_ok:
  assumes "process_ok mexp Rs p" and "gp_phase p = Serving \<Longrightarrow> all_sized (accepted is)"
  shows "\<exists>p'. process_run mexp is p = Some p' \<and>
    process_ok mexp (Rs @ (if gp_phase p = Serving then accepted is else [])) p'"
  using assms
proof (induction "is" arbitrary: p Rs)
  case (Cons i "is")
  have first: "accepted (i # is) = accepted [i] @ (if i \<in> {SignalReceived, ServeFails} then [] else accepted is)"
    by (cases i) simp_all
  have sized: "gp_phase p = Serving \<Longrightarrow> all_sized (accepted [i])"
    using Cons.prems(2) unfolding first by (auto simp: all_sized_def)
  obtain p1 where p1: "process_step mexp i p = Some p1"
    "process_ok mexp (Rs @ (if gp_phase p = Serving then accepted [i] else [])) p1"
    "gp_phase p1 = Serving \<longleftrightarrow> gp_phase p = Serving \<and> i \<notin> {SignalReceived, ServeFails}"
    using process_step_ok [OF Cons.prems(1) sized] by blast
  have "gp_phase p1 = Serving \<Longrightarrow> all_sized (accepted is)"
    using Cons.prems(2) p1(3) unfolding first by (auto simp: all_sized_def)
  moreover have "(Rs @ (if gp_phase p = Serving then accepted [i] else [])) @ (if gp_phase p1 = Serving then accepted is else []) =
      Rs @ (if gp_phase p = Serving then accepted (i # is) else [])"
    unfolding first p1(3) by auto
  ultimately show ?case using Cons.IH [OF p1(2)] p1(1) by simp
qed simp

lemma processor_start_ok: "process_ok mexp [] (processor_start listens flag env_port now)"
  using server_start_ok [of "[]" mexp now "[]"] by (simp add: process_ok_def processor_start_def all_sized_def Let_def)

section \<open>Properties\<close>

lemma ended_ok:
  assumes "stream_ok mexp hp R s" "stream_ended s"
  shows "s_sent s = stream_replies mexp R" "ending s = stream_stop R" "stream_stop R \<noteq> Waiting"
  using assms by (auto simp: stream_ok_def stream_ended_def open_rounds_def ending_def split: location.splits)

text \<open>
  C20. The graceful stop: whatever happens to a process that could listen (streams opened and
  scheduled in any order, failures of the metrics server, ticks, signals at any moment), it never
  panics; and if it has ended with status 0, every stream it had accepted was closed by its client or its
  transport and had got all the answers of the sequential server. So a signal loses no frame that
  was sent; but a single stream that a client keeps open keeps the process from ending.
\<close>

theorem graceful_stop:
  assumes "listens (CHR '':'' # show_int (port_from flag env_port))" and "all_sized (accepted is)"
  shows "\<exists>p. process_run mexp is (processor_start listens flag env_port now) = Some p \<and>
    (gp_phase p = Exited 0 \<longrightarrow>
      map s_sent (streams (gp_server p)) = map (stream_replies mexp) (accepted is) \<and>
      map ending (streams (gp_server p)) = map stream_stop (accepted is) \<and>
      Waiting \<notin> set (map stream_stop (accepted is)))"
proof -
  let ?p0 = "processor_start listens flag env_port now"
  have "gp_phase ?p0 = Serving" using assms(1) by (simp add: processor_start_def Let_def)
  then obtain p where p: "process_run mexp is ?p0 = Some p" "process_ok mexp (accepted is) p"
    using process_run_ok [OF processor_start_ok, of listens flag env_port now "is" mexp] assms(2) by auto
  have "map s_sent (streams (gp_server p)) = map (stream_replies mexp) (accepted is) \<and>
      map ending (streams (gp_server p)) = map stream_stop (accepted is) \<and>
      Waiting \<notin> set (map stream_stop (accepted is))" if "gp_phase p = Exited 0"
  proof -
    have all: "list_all2 (stream_ok mexp (sh_heap (shared_state (gp_server p)))) (accepted is) (streams (gp_server p))"
      and ended: "list_all stream_ended (streams (gp_server p))"
      using p(2) that by (simp_all add: process_ok_def server_ok_def)
    from all ended show ?thesis
      by (induction rule: list_all2_induct) (auto dest: ended_ok)
  qed
  then show ?thesis using p(1) by blast
qed

text \<open>A run with one stream and a signal in the middle of its chunk.\<close>

definition stop_run :: "process_input list" where
  "stop_run = [OpenStream (one_frame_stream [9, 9, 9] FILTER_TYPE_SHARPEN), MetricsServerFails, Acts (Moves 0),
     Acts (Moves 0), Acts (Moves 0), SignalReceived, StopReturns, Acts (Moves 0), Acts (Moves 0), GaugeTick 4096,
     Acts (Moves 0), Acts (Moves 0), Acts (Moves 0), Acts (Moves 0), StopReturns]"

lemma stop_run_ends:
  "\<exists>p. process_run sample_exp stop_run (processor_start (\<lambda>a. True) 9090 ''50051'' 0) = Some p \<and> gp_phase p = Exited 0"
  by (simp add: stop_run_def processor_start_def server_start_def one_frame_stream_def stream_action_def admit_def
      sample_chunk_def chunk_params_def initial_shared_def initial_processor_def Let_def wrap64_def Sharpen_def
      add_stats_def stream_ended_def)

theorem graceful_stop_witness:
  "\<exists>p. process_run sample_exp stop_run (processor_start (\<lambda>a. True) 9090 ''50051'' 0) = Some p \<and>
    gp_phase p = Exited 0 \<and>
    map s_sent (streams (gp_server p)) =
      [[chunk_reply sample_exp sample_env (sample_chunk [9, 9, 9] FILTER_TYPE_SHARPEN 1 1)]]"
proof -
  have acc: "accepted stop_run = [one_frame_stream [9, 9, 9] FILTER_TYPE_SHARPEN]" by (simp add: stop_run_def)
  have "all_sized (accepted stop_run)"
    by (simp add: acc all_sized_def one_frame_stream_def sized_def sample_chunk_def)
  from graceful_stop [of "\<lambda>a. True" 9090 "''50051''" stop_run sample_exp 0, OF _ this] stop_run_ends
  show ?thesis by (auto simp: acc one_frame_stream_facts)
qed

end
