(* ===== verification/Processor_Load.thy ===== *)
theory Processor_Load
  imports Concurrent_Facts Processor_Pool
begin

text \<open>
  A call of the gateway to a Go processor under load: the stream of the call is one of many that the concurrent
  processor of \<open>Processor_Concurrent\<close> serves, scheduled in any way. The contract \<open>processor_service\<close> of the gateway
  holds of it as it does of the sequential processor, and with enough turns the answer is the same.
\<close>

section \<open>A call among others\<close>

text \<open>What the other streams receive: messages too long for the transport do not get to the handler.\<close>

definition deliverable :: "round list \<Rightarrow> round list" where
  "deliverable R = filter (\<lambda>(message, env, lost). case message of Received c \<Rightarrow> sized c | _ \<Rightarrow> True) R"

lemma stream_chunks_sized:
  "(\<And>c env lost. (Received c, env, lost) \<in> set R \<Longrightarrow> sized c) \<Longrightarrow> (c, env) \<in> set (stream_chunks R) \<Longrightarrow> sized c"
  by (induction R rule: stream_chunks.induct) auto

lemma deliverable_sized: "(c, env) \<in> set (stream_chunks (deliverable R)) \<Longrightarrow> sized c"
  by (rule stream_chunks_sized) (auto simp: deliverable_def)

text \<open>
  The processor after the events \<open>es\<close>: stream 0 belongs to the call, the streams \<open>Rs\<close> and the statistics calls to
  others. Every stream is idle until the schedule moves it, so calls may start at any time.
\<close>

definition loaded_run ::
  "(fl \<Rightarrow> fl) \<Rightarrow> call_env \<Rightarrow> int \<Rightarrow> round list list \<Rightarrow> (call_env \<times> i64) list \<Rightarrow> server_event list \<Rightarrow> MediaChunk \<Rightarrow> server option" where
  "loaded_run mexp env now Rs calls es c =
     server_run mexp es (server_start now (clean_stream [(c, env)] env # map deliverable Rs) calls)"

text \<open>A panic of the processor breaks the connection; without an answer in time, the context of the call expires.\<close>

definition loaded_call ::
  "transport \<Rightarrow> (fl \<Rightarrow> fl) \<Rightarrow> call_env \<Rightarrow> int \<Rightarrow> round list list \<Rightarrow> (call_env \<times> i64) list \<Rightarrow> server_event list \<Rightarrow>
     MediaChunk \<Rightarrow> string \<Rightarrow> error + ProcessedChunk" where
  "loaded_call tr mexp env now Rs calls es c m =
     (if \<not> sized c then Inl ''message too large''
      else case loaded_run mexp env now Rs calls es c of
        None \<Rightarrow> Inl ''connection closed''
      | Some v \<Rightarrow> if s_sent (streams v ! 0) = [] then Inl ''deadline exceeded''
          else ProcessSingleChunk tr (\<lambda>mode chunks. s_sent (streams v ! 0)) c m)"

lemma loaded_run_facts:
  assumes "sized c"
  obtains v where "loaded_run mexp env now Rs calls es c = Some v"
    and "s_sent (streams v ! 0) \<in> {[], [chunk_reply mexp env c]}"
    and "79 + 2 * pixels_left c 0 0 \<le> count_list es (Moves 0) \<Longrightarrow> s_sent (streams v ! 0) = [chunk_reply mexp env c]"
proof -
  let ?Rs = "clean_stream [(c, env)] env # map deliverable Rs"
  have sized: "all_sized ?Rs"
    using assms deliverable_sized by (auto simp: all_sized_def clean_stream_facts)
  obtain v where v: "server_run mexp es (server_start now ?Rs calls) = Some v"
    using server_run_ok [OF server_start_ok [OF sized, of mexp now calls], of es] by blast
  note progress = stream_progress [OF sized v, of 0]
  have actions: "sum_list (map round_actions (?Rs ! 0)) = 79 + 2 * pixels_left c 0 0" by (simp add: clean_stream_def)
  have "s_sent (streams v ! 0) \<in> {[], [chunk_reply mexp env c]}"
    using progress(1) by (auto simp: clean_stream_facts append_eq_Cons_conv)
  then show thesis using that [of v] v progress(2) actions by (simp add: loaded_run_def clean_stream_facts)
qed

lemma loaded_call_reply:
  assumes "loaded_call tr mexp env now Rs calls es c m = Inr r"
  shows "sized c \<and> r = chunk_reply mexp env c"
proof -
  have sized: "sized c" using assms by (auto simp: loaded_call_def split: if_splits)
  obtain v where "loaded_run mexp env now Rs calls es c = Some v"
    "s_sent (streams v ! 0) \<in> {[], [chunk_reply mexp env c]}"
    using loaded_run_facts [OF sized, of mexp env now Rs calls es] by blast
  then show ?thesis
    using assms sized by (auto simp: loaded_call_def split: if_splits dest!: ProcessSingleChunk_Inr)
qed

interpretation loaded: processor_service "loaded_call tr mexp env now Rs calls es" for tr mexp env now Rs calls es
  by unfold_locales (auto dest!: loaded_call_reply simp: chunk_reply_facts chunk_frame_length)

text \<open>Given turns enough for its pixels, a call over a faultless connection is answered, whatever the others do.\<close>

lemma loaded_call_answers:
  assumes "open_error tr = None" "send_error tr = None" "close_error tr = None" "recv_error tr = None"
    and "sized c" and "79 + 2 * pixels_left c 0 0 \<le> count_list es (Moves 0)"
  shows "loaded_call tr mexp env now Rs calls es c m = Inr (chunk_reply mexp env c)"
proof -
  obtain v where "loaded_run mexp env now Rs calls es c = Some v" "s_sent (streams v ! 0) = [chunk_reply mexp env c]"
    using loaded_run_facts [OF assms(5), of mexp env now Rs calls es] assms(6) by blast
  then show ?thesis using assms(1-5) by (simp add: loaded_call_def ProcessSingleChunk_def recv_first_def Let_def)
qed

end
