(* ===== verification/Blur_Accuracy.thy ===== *)
theory Blur_Accuracy
  imports Image_Processor
begin

text \<open>
  How far the \<open>float32\<close> arithmetic of the filters of \<open>processor-go/cmd/server/main.go\<close> is from
  exact arithmetic: the blur from the convolution over the rational numbers with the same
  weights, the sum of the weights from 1, and the gray level from the ITU-R 601 luma.
\<close>

section \<open>Sums\<close>

fun fl_val :: "fl \<Rightarrow> rat" where
  "fl_val (Fin q) = q"
| "fl_val x = 0"

lemma unit_fl_val: "unit_fl x \<Longrightarrow> x = Fin (fl_val x) \<and> 0 \<le> fl_val x \<and> fl_val x \<le> 1"
  by (auto simp: unit_fl_def)

lemma map_indices: "map (\<lambda>k. f (ws ! nat k)) [0..int (length ws) - 1] = map f ws"
  by (rule nth_equalityI) simp_all

lemma sum_list_close:
  fixes f g e :: "'a \<Rightarrow> rat"
  assumes "\<And>k. k \<in> set ks \<Longrightarrow> g k - e k \<le> f k \<and> f k \<le> g k + e k"
  shows "sum_list (map g ks) - sum_list (map e ks) \<le> sum_list (map f ks) \<and>
    sum_list (map f ks) \<le> sum_list (map g ks) + sum_list (map e ks)"
  using assms
proof (induction ks)
  case (Cons k ks)
  have "g k - e k \<le> f k \<and> f k \<le> g k + e k" using Cons.prems by simp
  moreover have "sum_list (map g ks) - sum_list (map e ks) \<le> sum_list (map f ks) \<and>
      sum_list (map f ks) \<le> sum_list (map g ks) + sum_list (map e ks)"
    using Cons by simp
  ultimately show ?case by simp
qed simp

lemma sum_list_nonneg_rat: "(\<And>k. k \<in> set ks \<Longrightarrow> (0::rat) \<le> f k) \<Longrightarrow> 0 \<le> sum_list (map f ks)"
  by (induction ks) auto

section \<open>One pass of the blur\<close>

text \<open>Each of the two roundings of a step moves a sum below 256 by at most \<open>2\<^sup>-\<^sup>1\<^sup>7\<close>.\<close>

lemma fold_mac_error:
  assumes "\<And>k. k \<in> set ks \<Longrightarrow> v k = Fin (x k) \<and> w k = Fin (q k) \<and> 0 \<le> x k \<and> 0 \<le> q k"
    and "0 \<le> a" "A - d \<le> a" "a \<le> A + d"
    and "A + d + sum_list (map (\<lambda>k. x k * q k) ks) + of_nat (length ks) * (2 / 131072) < 256"
  shows "\<exists>r. fold (\<lambda>k s. mac s (v k) (w k)) ks (Fin a) = Fin r \<and> 0 \<le> r \<and>
    A + sum_list (map (\<lambda>k. x k * q k) ks) - (d + of_nat (length ks) * (2 / 131072)) \<le> r \<and>
    r \<le> A + sum_list (map (\<lambda>k. x k * q k) ks) + (d + of_nat (length ks) * (2 / 131072))"
  using assms
proof (induction ks arbitrary: a A d)
  case (Cons k ks)
  let ?p = "x k * q k" and ?S = "sum_list (map (\<lambda>k. x k * q k) ks)" and ?e = "1 / 131072 :: rat"
  let ?L = "of_nat (length ks) * (2 / 131072) :: rat"
  have k: "v k = Fin (x k)" "w k = Fin (q k)" "0 \<le> ?p" using Cons.prems(1) [of k] by simp_all
  have S: "0 \<le> ?S" using Cons.prems(1) by (intro sum_list_nonneg_rat) simp
  have L: "0 \<le> ?L" by simp
  have len: "of_nat (length (k # ks)) * (2 / 131072) = ?L + 2 * ?e" by (simp add: algebra_simps)
  have lim: "A + d + ?p + ?S + ?L + 2 * ?e < 256"
    using Cons.prems(5) unfolding len by simp
  have "?p < 256" using lim S L Cons.prems(2,4) by linarith
  then obtain m where m: "fl_round F32 ?p = Fin m" "0 \<le> m" "?p - ?e \<le> m" "m \<le> ?p + ?e"
    using round32_below_256 [OF k(3)] by blast
  have "a + m < 256" using lim S L m Cons.prems(4) by linarith
  moreover have "0 \<le> a + m" using m(2) Cons.prems(2) by simp
  ultimately obtain b where b: "fl_round F32 (a + m) = Fin b" "0 \<le> b" "a + m - ?e \<le> b" "b \<le> a + m + ?e"
    using round32_below_256 by blast
  have "mac (Fin a) (v k) (w k) = Fin b" by (simp add: mac_def k m(1) b(1))
  moreover have "\<exists>r. fold (\<lambda>k s. mac s (v k) (w k)) ks (Fin b) = Fin r \<and> 0 \<le> r \<and>
      (A + ?p) + ?S - ((d + 2 * ?e) + ?L) \<le> r \<and> r \<le> (A + ?p) + ?S + ((d + 2 * ?e) + ?L)"
  proof (rule Cons.IH)
    show "0 \<le> b" by (rule b(2))
    show "A + ?p - (d + 2 * ?e) \<le> b" using b m Cons.prems(3) by linarith
    show "b \<le> A + ?p + (d + 2 * ?e)" using b m Cons.prems(4) by linarith
    show "A + ?p + (d + 2 * ?e) + ?S + ?L < 256" using lim by linarith
  qed (use Cons.prems(1) in simp)
  ultimately show ?case
    unfolding len by (simp add: algebra_simps)
qed simp

lemma tap_sum_error:
  assumes "\<And>k. 0 \<le> k \<Longrightarrow> k < int (length ws) \<Longrightarrow> v k = Fin (x k) \<and> 0 \<le> x k \<and> x k \<le> B"
    and "\<forall>u \<in> set ws. unit_fl u" and "length ws \<le> 31" and "0 \<le> B"
    and "B * sum_list (map fl_val ws) + 62 / 131072 < 256"
  shows "\<exists>r. tap_sum v ws = Fin r \<and> 0 \<le> r \<and>
    sum_list (map (\<lambda>k. x k * fl_val (ws ! nat k)) [0..int (length ws) - 1]) - 62 / 131072 \<le> r \<and>
    r \<le> sum_list (map (\<lambda>k. x k * fl_val (ws ! nat k)) [0..int (length ws) - 1]) + 62 / 131072 \<and>
    sum_list (map (\<lambda>k. x k * fl_val (ws ! nat k)) [0..int (length ws) - 1]) \<le> B * sum_list (map fl_val ws)"
proof -
  let ?ks = "[0..int (length ws) - 1]" and ?q = "\<lambda>k. fl_val (ws ! nat k)"
  let ?S = "sum_list (map (\<lambda>k. x k * ?q k) ?ks)"
  have q: "ws ! nat k = Fin (?q k) \<and> 0 \<le> ?q k" if "k \<in> set ?ks" for k
    using unit_fl_val [of "ws ! nat k"] assms(2) that by (simp add: nat_less_iff)
  have le: "?S \<le> sum_list (map (\<lambda>k. B * ?q k) ?ks)"
    using assms(1) q by (intro sum_list_mono) (simp add: mult_right_mono)
  also have "\<dots> = B * sum_list (map fl_val ws)"
    unfolding sum_list_const_mult by (simp only: map_indices)
  finally have S: "?S \<le> B * sum_list (map fl_val ws)" .
  have len: "of_nat (length ?ks) * (2 / 131072) \<le> (62 / 131072 :: rat)"
  proof -
    have "of_nat (length ?ks) \<le> (31 :: rat)" using assms(3) by (simp add: of_nat_le_iff [of _ 31, simplified])
    then show ?thesis by linarith
  qed
  have "0 + 0 + ?S + of_nat (length ?ks) * (2 / 131072) < 256" using S len assms(5) by linarith
  then obtain r where "fold (\<lambda>k s. mac s (v k) (ws ! nat k)) ?ks (Fin 0) = Fin r" "0 \<le> r"
      "0 + ?S - (0 + of_nat (length ?ks) * (2 / 131072)) \<le> r" "r \<le> 0 + ?S + (0 + of_nat (length ?ks) * (2 / 131072))"
    using fold_mac_error [of ?ks v x "\<lambda>k. ws ! nat k" ?q 0 0 0] assms(1) q by auto
  then show ?thesis using S len unfolding tap_sum_def by (intro exI [of _ r]) auto
qed


section \<open>The sum of the weights\<close>

lemma unit_sum_error:
  assumes "\<forall>x \<in> set xs. unit_fl x" and "0 \<le> a" "a \<le> of_int m" "m + int (length xs) \<le> 31"
  shows "\<exists>s. foldl (fl_add F32) (Fin a) xs = Fin s \<and>
    a + sum_list (map fl_val xs) - of_nat (length xs) / 1048576 \<le> s \<and>
    s \<le> a + sum_list (map fl_val xs) + of_nat (length xs) / 1048576"
  using assms
proof (induction xs arbitrary: a m)
  case (Cons x xs)
  have x: "x = Fin (fl_val x)" "0 \<le> fl_val x" "fl_val x \<le> 1"
    using unit_fl_val [of x] Cons.prems(1) by simp_all
  have m: "m + 1 \<le> 31" using Cons.prems(4) by simp
  then have "(of_int (m + 1) :: rat) \<le> of_int 31" by (simp only: of_int_le_iff)
  then have lim: "a + fl_val x < 32" using Cons.prems(3) x by simp
  obtain r where r: "fl_round F32 (a + fl_val x) = Fin r" "0 \<le> r" "r \<le> of_int (m + 1)"
    using round32_bounded [of "a + fl_val x" "m + 1"] Cons.prems x m by auto
  have "a + fl_val x < pow2 (4 + 1)" using lim by (simp add: pow2_def)
  then have "\<bar>r - (a + fl_val x)\<bar> \<le> 1 / 1048576"
    using fl_round_error [of "a + fl_val x" 4 F32] Cons.prems(2) x r(1) by (auto simp: pow2_def)
  then have e: "r - (a + fl_val x) \<le> 1 / 1048576" "- (r - (a + fl_val x)) \<le> 1 / 1048576"
    by (simp_all only: abs_le_iff)
  have "m + 1 + int (length xs) \<le> 31" using Cons.prems(4) by simp
  then obtain s where s: "foldl (fl_add F32) (Fin r) xs = Fin s"
      "r + sum_list (map fl_val xs) - of_nat (length xs) / 1048576 \<le> s"
      "s \<le> r + sum_list (map fl_val xs) + of_nat (length xs) / 1048576"
    using Cons.IH [of r "m + 1"] Cons.prems(1) r by auto
  have "foldl (fl_add F32) (Fin a) (x # xs) = Fin s"
    using s(1) r(1) x(1) by (metis fl_add.simps(1) foldl_Cons)
  moreover have "of_nat (length (x # xs)) / 1048576 = of_nat (length xs) / 1048576 + (1 / 1048576 :: rat)"
    by (simp add: add_divide_distrib)
  moreover have "sum_list (map fl_val (x # xs)) = fl_val x + sum_list (map fl_val xs)" by simp
  ultimately show ?case using s(2,3) e by (intro exI [of _ s] conjI) linarith+
qed auto

text \<open>
  The normalised weights add up to 1, but for at most \<open>1/30000\<close>: the running sum of at most 31
  exponentials is off by \<open>2\<^sup>-\<^sup>2\<^sup>0\<close> each, each quotient by \<open>2\<^sup>-\<^sup>2\<^sup>4\<close>.
\<close>

lemma weights_sum:
  assumes "exp_contract mexp" and n: "odd n" "3 \<le> n" "n \<le> 31"
    and reg: "regular_sigma2 (fl_mul F32 (fl_mul F32 (Fin 2) sigma) sigma)"
  shows "1 - 1 / 30000 \<le> sum_list (map fl_val (gaussian_weights mexp n sigma)) \<and>
    sum_list (map fl_val (gaussian_weights mexp n sigma)) \<le> 1 + 1 / 30000"
proof -
  define s2 where "s2 = fl_mul F32 (fl_mul F32 (Fin 2) sigma) sigma"
  let ?e = "kernel_exp mexp (n div 2) s2"
  let ?es = "map ?e [0..n - 1]"
  have idx: "\<bar>i - n div 2\<bar> \<le> 15" if "i \<in> {0..n - 1}" for i
    using that n(3) by (auto simp: abs_le_iff)
  have u: "\<forall>x \<in> set ?es. unit_fl x"
    using kernel_exp_unit(1) [OF assms(1) reg [folded s2_def]] idx by simp
  have "?e (n div 2) = Fin 1" by (rule kernel_exp_unit(2) [OF assms(1) reg [folded s2_def]]) simp_all
  moreover have "n div 2 \<in> {0..n - 1}" using n(2) by auto
  then have "?e (n div 2) \<in> ?e ` {0..n - 1}" by (rule imageI)
  ultimately have mem: "Fin 1 \<in> set ?es" by (simp only: set_map set_upto)
  have len: "0 + int (length ?es) \<le> 31" and nlen: "length ?es \<le> 31" using n by simp_all
  let ?E = "sum_list (map fl_val ?es)"
  obtain t where t: "foldl (fl_add F32) (Fin 0) ?es = Fin t" "1 \<le> t"
    using unit_sum [OF u, of 0 0] mem len by auto
  have t_close: "?E - 31 / 1048576 \<le> t" "t \<le> ?E + 31 / 1048576"
  proof -
    have "of_nat (length ?es) \<le> (31 :: rat)" using nlen by (simp add: of_nat_le_iff [of _ 31, simplified])
    then show "?E - 31 / 1048576 \<le> t" "t \<le> ?E + 31 / 1048576"
      using unit_sum_error [OF u _ _ len, of 0] t(1) by auto
  qed
  have quotient: "fl_val x / t - 1 / 16777216 \<le> fl_val (fl_div F32 x (Fin t)) \<and>
      fl_val (fl_div F32 x (Fin t)) \<le> fl_val x / t + 1 / 16777216" if "x \<in> set ?es" for x
  proof -
    have x: "x = Fin (fl_val x)" "0 \<le> fl_val x" "fl_val x \<le> 1" using unit_fl_val u that by blast+
    have "0 \<le> fl_val x / t" "fl_val x / t \<le> 1" using x t(2) by (simp_all add: divide_le_eq)
    then obtain r where r: "fl_round F32 (fl_val x / t) = Fin r" "\<bar>r - fl_val x / t\<bar> \<le> 1 / 16777216"
      using fl_round_error [of "fl_val x / t" 0 F32] by (auto simp: pow2_def)
    have "fl_div F32 x (Fin t) = Fin r" using x(1) r(1) t(2) by (metis fl_div.simps(1) not_one_le_zero)
    moreover have "r - fl_val x / t \<le> 1 / 16777216" "- (r - fl_val x / t) \<le> 1 / 16777216"
      using r(2) by (simp_all only: abs_le_iff)
    ultimately show ?thesis by (simp only: fl_val.simps) linarith
  qed
  have "sum_list (map (\<lambda>x. fl_val x / t) xs) = sum_list (map fl_val xs) / t" for xs
    by (induction xs) (simp_all add: add_divide_distrib)
  note div = this [of ?es]
  have const: "sum_list (map (\<lambda>x. 1 / 16777216) xs) = of_nat (length xs) * (1 / 16777216 :: rat)" for xs :: "fl list"
    by (simp add: sum_list_triv)
  have sums: "?E / t - of_nat (length ?es) * (1 / 16777216) \<le> sum_list (map (\<lambda>x. fl_val (fl_div F32 x (Fin t))) ?es)"
    "sum_list (map (\<lambda>x. fl_val (fl_div F32 x (Fin t))) ?es) \<le> ?E / t + of_nat (length ?es) * (1 / 16777216)"
  proof -
    have "sum_list (map (\<lambda>x. fl_val x / t) ?es) - sum_list (map (\<lambda>x. 1 / 16777216) ?es) \<le>
        sum_list (map (\<lambda>x. fl_val (fl_div F32 x (Fin t))) ?es) \<and>
      sum_list (map (\<lambda>x. fl_val (fl_div F32 x (Fin t))) ?es) \<le>
        sum_list (map (\<lambda>x. fl_val x / t) ?es) + sum_list (map (\<lambda>x. 1 / 16777216) ?es)"
      by (rule sum_list_close) (rule quotient)
    note close = this [unfolded div const]
    show "?E / t - of_nat (length ?es) * (1 / 16777216) \<le> sum_list (map (\<lambda>x. fl_val (fl_div F32 x (Fin t))) ?es)"
      by (rule conjunct1 [OF close])
    show "sum_list (map (\<lambda>x. fl_val (fl_div F32 x (Fin t))) ?es) \<le> ?E / t + of_nat (length ?es) * (1 / 16777216)"
      by (rule conjunct2 [OF close])
  qed
  have ratio: "1 - 31 / 1048576 \<le> ?E / t" "?E / t \<le> 1 + 31 / 1048576"
  proof -
    have "31 / 1048576 \<le> 31 / 1048576 * t" using t(2) by linarith
    then have "(1 - 31 / 1048576) * t \<le> ?E" "?E \<le> (1 + 31 / 1048576) * t"
      using t_close by (simp_all add: algebra_simps)
    then show "1 - 31 / 1048576 \<le> ?E / t" "?E / t \<le> 1 + 31 / 1048576"
      using t(2) by (simp_all add: pos_le_divide_eq pos_divide_le_eq)
  qed
  have "of_nat (length ?es) * (1 / 16777216) \<le> (31 / 16777216 :: rat)"
    using nlen by (simp add: of_nat_le_iff [of _ 31, simplified])
  moreover have "map fl_val (gaussian_weights mexp n sigma) = map (\<lambda>x. fl_val (fl_div F32 x (Fin t))) ?es"
    by (simp add: gaussian_weights_def Let_def t(1) flip: s2_def)
  ultimately show ?thesis using sums ratio by simp
qed


section \<open>The blur\<close>

text \<open>The convolution with the weights \<open>ws\<close> over the rational numbers: one row, and both directions.\<close>

definition exact_h :: "bytes \<Rightarrow> fl list \<Rightarrow> int \<Rightarrow> int \<Rightarrow> int \<Rightarrow> int \<Rightarrow> rat" where
  "exact_h input ws w y x c = sum_list (map (\<lambda>k.
     of_int (uint (pixel input w y (clamp_ix w (x - int (length ws) div 2 + k)) c)) * fl_val (ws ! nat k))
     [0..int (length ws) - 1])"

definition exact_blur :: "bytes \<Rightarrow> fl list \<Rightarrow> int \<Rightarrow> int \<Rightarrow> int \<Rightarrow> int \<Rightarrow> int \<Rightarrow> rat" where
  "exact_blur input ws w h y x c = sum_list (map (\<lambda>k.
     exact_h input ws w (clamp_ix h (y - int (length ws) div 2 + k)) x c * fl_val (ws ! nat k))
     [0..int (length ws) - 1])"

lemma clampToByte_close:
  assumes "0 \<le> q" "q < 256"
  shows "q - 1 < of_int (uint (clampToByte (Fin q)))" and "of_int (uint (clampToByte (Fin q))) \<le> q"
proof -
  have u: "uint (clampToByte (Fin q)) = (if 255 < q then 255 else \<lfloor>q\<rfloor>)"
    using assms fl_to_byte_Fin [of q] by (simp add: clampToByte_def not_less del: fl_to_byte.simps)
  show "q - 1 < of_int (uint (clampToByte (Fin q)))" "of_int (uint (clampToByte (Fin q))) \<le> q"
    using assms unfolding u by (auto simp del: of_int_uint) linarith+
qed

lemma blur_v_close:
  assumes ws: "\<forall>u \<in> set ws. unit_fl u" "length ws \<le> 31"
    and W: "sum_list (map fl_val ws) \<le> 1 + 1 / 30000"
  shows "exact_blur input ws w h y x c - 1 - 1 / 1000 < of_int (uint (blur_v input ws w h y x c)) \<and>
    of_int (uint (blur_v input ws w h y x c)) \<le> exact_blur input ws w h y x c + 1 / 1000"
proof -
  let ?W = "sum_list (map fl_val ws)"
  have row: "\<exists>r. blur_h input ws w y x c = Fin r \<and> 0 \<le> r \<and> r \<le> 255 + 10 / 1000 \<and>
      exact_h input ws w y x c - 62 / 131072 \<le> r \<and> r \<le> exact_h input ws w y x c + 62 / 131072" for y
  proof -
    have "255 * ?W + 62 / 131072 < 256" using W by simp
    then obtain r where "blur_h input ws w y x c = Fin r" "0 \<le> r"
      "exact_h input ws w y x c - 62 / 131072 \<le> r" "r \<le> exact_h input ws w y x c + 62 / 131072"
      "exact_h input ws w y x c \<le> 255 * ?W"
      using tap_sum_error [of ws "\<lambda>k. fl_of_byte (pixel input w y (clamp_ix w (x - int (length ws) div 2 + k)) c)"
          "\<lambda>k. of_int (uint (pixel input w y (clamp_ix w (x - int (length ws) div 2 + k)) c))" 255] ws u8_rat
      unfolding blur_h_def exact_h_def fl_of_byte_def by auto
    then show ?thesis using W by auto
  qed
  then obtain R where R: "\<And>y. blur_h input ws w y x c = Fin (R y) \<and> 0 \<le> R y \<and> R y \<le> 255 + 10 / 1000 \<and>
      exact_h input ws w y x c - 62 / 131072 \<le> R y \<and> R y \<le> exact_h input ws w y x c + 62 / 131072"
    by metis
  define ky where "ky k = clamp_ix h (y - int (length ws) div 2 + k)" for k
  let ?ks = "[0..int (length ws) - 1]" and ?q = "\<lambda>k. fl_val (ws ! nat k)"
  have q: "0 \<le> ?q k" if "k \<in> set ?ks" for k
    using unit_fl_val [of "ws ! nat k"] ws(1) that by (simp add: nat_less_iff)
  have "(255 + 10 / 1000) * ?W + 62 / 131072 < 256" using W by simp
  then obtain s where s: "tap_sum (\<lambda>k. blur_h input ws w (ky k) x c) ws = Fin s" "0 \<le> s"
    "sum_list (map (\<lambda>k. R (ky k) * ?q k) ?ks) - 62 / 131072 \<le> s"
    "s \<le> sum_list (map (\<lambda>k. R (ky k) * ?q k) ?ks) + 62 / 131072"
    "sum_list (map (\<lambda>k. R (ky k) * ?q k) ?ks) \<le> (255 + 10 / 1000) * ?W"
    using tap_sum_error [of ws "\<lambda>k. blur_h input ws w (ky k) x c" "\<lambda>k. R (ky k)" "255 + 10 / 1000"] ws R by auto
  have pass: "exact_h input ws w (ky k) x c * ?q k - 62 / 131072 * ?q k \<le> R (ky k) * ?q k \<and>
      R (ky k) * ?q k \<le> exact_h input ws w (ky k) x c * ?q k + 62 / 131072 * ?q k" if "k \<in> set ?ks" for k
    using mult_right_mono [OF _ q [OF that], of "exact_h input ws w (ky k) x c - 62 / 131072" "R (ky k)"]
      mult_right_mono [OF _ q [OF that], of "R (ky k)" "exact_h input ws w (ky k) x c + 62 / 131072"] R [of "ky k"]
    by (simp add: algebra_simps)
  have slack: "sum_list (map (\<lambda>k. 62 / 131072 * ?q k) ?ks) = 62 / 131072 * ?W"
    unfolding sum_list_const_mult by (simp only: map_indices)
  have both: "exact_blur input ws w h y x c = sum_list (map (\<lambda>k. exact_h input ws w (ky k) x c * ?q k) ?ks)"
    by (simp add: exact_blur_def ky_def)
  have rows: "exact_blur input ws w h y x c - 62 / 131072 * ?W \<le> sum_list (map (\<lambda>k. R (ky k) * ?q k) ?ks)"
    "sum_list (map (\<lambda>k. R (ky k) * ?q k) ?ks) \<le> exact_blur input ws w h y x c + 62 / 131072 * ?W"
  proof -
    have "sum_list (map (\<lambda>k. exact_h input ws w (ky k) x c * ?q k) ?ks) - sum_list (map (\<lambda>k. 62 / 131072 * ?q k) ?ks) \<le>
        sum_list (map (\<lambda>k. R (ky k) * ?q k) ?ks) \<and>
      sum_list (map (\<lambda>k. R (ky k) * ?q k) ?ks) \<le>
        sum_list (map (\<lambda>k. exact_h input ws w (ky k) x c * ?q k) ?ks) + sum_list (map (\<lambda>k. 62 / 131072 * ?q k) ?ks)"
      by (rule sum_list_close) (rule pass)
    note close = this [unfolded slack both [symmetric]]
    show "exact_blur input ws w h y x c - 62 / 131072 * ?W \<le> sum_list (map (\<lambda>k. R (ky k) * ?q k) ?ks)"
      by (rule conjunct1 [OF close])
    show "sum_list (map (\<lambda>k. R (ky k) * ?q k) ?ks) \<le> exact_blur input ws w h y x c + 62 / 131072 * ?W"
      by (rule conjunct2 [OF close])
  qed
  have "(255 + 10 / 1000) * ?W < 255 + 1 / 2" using W by simp
  then have "s < 256" using s(4,5) by linarith
  note byte = clampToByte_close [OF s(2) this]
  have "blur_v input ws w h y x c = clampToByte (Fin s)"
    using s(1) by (simp add: blur_v_def ky_def)
  then show ?thesis using byte s(3,4) rows W by simp
qed


lemma exact_blur_flat:
  assumes "\<And>y x. 0 \<le> y \<Longrightarrow> y < h \<Longrightarrow> 0 \<le> x \<Longrightarrow> x < w \<Longrightarrow> pixel input w y x c = v" and "0 < w" "0 < h"
  shows "exact_blur input ws w h y x c = of_int (uint v) * sum_list (map fl_val ws) * sum_list (map fl_val ws)"
proof -
  have row: "exact_h input ws w y x c = of_int (uint v) * sum_list (map fl_val ws)" if "0 \<le> y" "y < h" for y
  proof -
    have "exact_h input ws w y x c =
        sum_list (map (\<lambda>k. of_int (uint v) * fl_val (ws ! nat k)) [0..int (length ws) - 1])"
      unfolding exact_h_def using assms(1) that clamp_ix_range [OF assms(2)] by simp
    also have "\<dots> = of_int (uint v) * sum_list (map fl_val ws)"
      unfolding sum_list_const_mult by (simp only: map_indices)
    finally show ?thesis .
  qed
  have "exact_blur input ws w h y x c =
      sum_list (map (\<lambda>k. (of_int (uint v) * sum_list (map fl_val ws)) * fl_val (ws ! nat k)) [0..int (length ws) - 1])"
    unfolding exact_blur_def using row clamp_ix_range [OF assms(3)] by simp
  also have "\<dots> = (of_int (uint v) * sum_list (map fl_val ws)) * sum_list (map fl_val ws)"
    unfolding sum_list_const_mult by (simp only: map_indices)
  finally show ?thesis .
qed

section \<open>Properties\<close>

text \<open>
  C7. Accuracy of the blur: with \<open>math.Exp\<close> within its contract and a radius whose \<open>sigma2\<close> does not
  vanish, the \<open>float32\<close> weights of \<open>generateGaussianKernel\<close> add up to 1 within \<open>1/30000\<close>, and every
  byte of the blurred frame is the exact two-dimensional convolution with these weights, cut to an
  integer, but for a rounding error of at most one thousandth: no sum overflows, no byte wraps, and the
  clamp at 255 never hides more than that.
\<close>

theorem GaussianBlur_accurate:
  assumes "exp_contract mexp" and "regular_sigma2 (fl_mul F32 (fl_mul F32 (Fin 2) radius) radius)"
    and "frame_fits input w h" and "length buf = 31"
    and "0 \<le> y" "y < h" "0 \<le> x" "x < w" "0 \<le> c" "c < 3"
  shows "\<exists>out buf' ws. GaussianBlur mexp buf input w h radius = Some (out, buf') \<and>
    generateGaussianKernel mexp (take (nat (kernel_size radius)) buf) radius = Some ws \<and>
    1 - 1 / 30000 \<le> sum_list (map fl_val ws) \<and> sum_list (map fl_val ws) \<le> 1 + 1 / 30000 \<and>
    exact_blur input ws w h y x c - 1 - 1 / 1000 < of_int (uint (pixel out w y x c)) \<and>
    of_int (uint (pixel out w y x c)) \<le> exact_blur input ws w h y x c + 1 / 1000"
proof -
  let ?ws = "gaussian_weights mexp (kernel_size radius) radius"
  have len: "int (length input) = w * h * 3" and i64: "in_i64 (w * h * 3)"
    using assms(3) by (simp_all add: frame_fits_def)
  have unit: "\<forall>x \<in> set ?ws. unit_fl x"
    by (rule weights_unit [OF assms(1) kernel_size_odd kernel_size_bounds assms(2)])
  have short: "length ?ws \<le> 31" using kernel_size_bounds [of radius] by simp
  have W: "1 - 1 / 30000 \<le> sum_list (map fl_val ?ws)" "sum_list (map fl_val ?ws) \<le> 1 + 1 / 30000"
    using weights_sum [OF assms(1) kernel_size_odd kernel_size_bounds assms(2)] by simp_all
  have "int (length (take (nat (kernel_size radius)) buf)) = kernel_size radius"
    using kernel_size_bounds [of radius] assms(4) by simp
  then have gen: "generateGaussianKernel mexp (take (nat (kernel_size radius)) buf) radius = Some ?ws"
    by (simp only: generateGaussianKernel_eq)
  show ?thesis
    using GaussianBlur_eq [OF len i64 assms(4), of mexp radius] gen W blur_v_close [OF unit short W(2)] assms(5-10)
    by fastforce
qed

theorem GaussianBlur_accurate_witness:
  "\<exists>out buf' ws. GaussianBlur sample_exp (replicate 31 NaN) [10, 20, 30, 40, 50, 60] 2 1 (Fin 1) = Some (out, buf') \<and>
    exact_blur [10, 20, 30, 40, 50, 60] ws 2 1 0 1 2 - 1 - 1 / 1000 < of_int (uint (pixel out 2 0 1 2)) \<and>
    sum_list (map fl_val ws) \<le> 1 + 1 / 30000"
  using GaussianBlur_accurate [OF sample_exp_contract sigma2_one, of "[10, 20, 30, 40, 50, 60]" 2 1 "replicate 31 NaN" 0 1 2]
  by (auto simp: frame_fits_def in_i64_def)

text \<open>
  A flat channel keeps its level to within one: where a channel has the same value in every pixel of a
  frame, the bytes of the blurred channel are that value or one less, borders included.
\<close>

theorem GaussianBlur_flat_level:
  assumes "exp_contract mexp" and "regular_sigma2 (fl_mul F32 (fl_mul F32 (Fin 2) radius) radius)"
    and "frame_fits input w h" and "length buf = 31"
    and "\<And>y x. 0 \<le> y \<Longrightarrow> y < h \<Longrightarrow> 0 \<le> x \<Longrightarrow> x < w \<Longrightarrow> pixel input w y x c = v"
    and "GaussianBlur mexp buf input w h radius = Some (out, buf')"
    and "0 \<le> y" "y < h" "0 \<le> x" "x < w" "0 \<le> c" "c < 3"
  shows "uint (pixel out w y x c) \<in> {uint v - 1, uint v}"
proof -
  let ?ws = "gaussian_weights mexp (kernel_size radius) radius"
  let ?W = "sum_list (map fl_val ?ws)" and ?v = "of_int (uint v) :: rat" and ?b = "uint (pixel out w y x c)"
  have len: "int (length input) = w * h * 3" and i64: "in_i64 (w * h * 3)"
    using assms(3) by (simp_all add: frame_fits_def)
  have unit: "\<forall>x \<in> set ?ws. unit_fl x"
    by (rule weights_unit [OF assms(1) kernel_size_odd kernel_size_bounds assms(2)])
  have short: "length ?ws \<le> 31" using kernel_size_bounds [of radius] by simp
  have W: "1 - 1 / 30000 \<le> ?W" "?W \<le> 1 + 1 / 30000"
    using weights_sum [OF assms(1) kernel_size_odd kernel_size_bounds assms(2)] by simp_all
  have E: "exact_blur input ?ws w h y x c = ?v * (?W * ?W)"
    using exact_blur_flat [of h w input c v ?ws y x, OF assms(5)] assms(7-10) by (simp add: mult.assoc)
  have b: "pixel out w y x c = blur_v input ?ws w h y x c"
    using GaussianBlur_eq [OF len i64 assms(4), of mexp radius] assms(6-12) by auto
  have sq: "(1 - 1 / 30000) * (1 - 1 / 30000) \<le> ?W * ?W" "?W * ?W \<le> (1 + 1 / 30000) * (1 + 1 / 30000)"
    using W by (intro mult_mono; simp)+
  have v: "0 \<le> ?v" "?v \<le> 255" by (rule u8_rat)+
  have "?v * ((1 - 1 / 30000) * (1 - 1 / 30000)) \<le> ?v * (?W * ?W)"
    "?v * (?W * ?W) \<le> ?v * ((1 + 1 / 30000) * (1 + 1 / 30000))"
    using sq v(1) by (intro mult_left_mono; simp)+
  then have near: "?v - 1 / 50 \<le> ?v * (?W * ?W)" "?v * (?W * ?W) \<le> ?v + 1 / 50"
    using v by (simp_all add: algebra_simps)
  have "of_int ?b < ?v + 1" "?v - 2 < of_int ?b"
    using blur_v_close [OF unit short W(2), of input w h y x c] near unfolding b E by linarith+
  then have "of_int ?b < (of_int (uint v + 1) :: rat)" "(of_int (uint v - 2) :: rat) < of_int ?b"
    by (simp_all only: of_int_add of_int_diff of_int_1 of_int_numeral)
  then have "?b < uint v + 1" "uint v - 2 < ?b" by (simp_all only: of_int_less_iff)
  then show ?thesis by auto
qed

theorem GaussianBlur_flat_level_witness:
  "\<exists>out b. GaussianBlur sample_exp (replicate 31 NaN) [9, 1, 2, 9, 3, 4] 2 1 (Fin 1) = Some (out, b) \<and>
    uint (pixel out 2 0 1 0) \<in> {8, 9}"
proof -
  have fits: "frame_fits [9, 1, 2, 9, 3, 4] 2 1" by (simp add: frame_fits_def in_i64_def)
  obtain out b where o: "GaussianBlur sample_exp (replicate 31 NaN) [9, 1, 2, 9, 3, 4] 2 1 (Fin 1) = Some (out, b)"
    using GaussianBlur_defined [OF fits, of "replicate 31 NaN" sample_exp "Fin 1"] by auto
  have px: "pixel [9, 1, 2, 9, 3, 4 :: u8] 2 y x 0 = 9" if "0 \<le> y" "y < 1" "0 \<le> x" "x < 2" for y x
  proof -
    have "y = 0" "x = 0 \<or> x = 1" using that by linarith+
    then show ?thesis by (auto simp: pixel_def)
  qed
  show ?thesis
    using GaussianBlur_flat_level [OF sample_exp_contract sigma2_one fits _ px o, of 0 1] o by auto
qed

text \<open>
  C12. Grayscale is the luma of ITU-R 601, in exact integer terms and without any rounding error showing:
  for a frame whose size fits its dimensions, even two negative ones, the filter returns a frame of the same
  size; the three channels of a pixel agree, and a thousand times the level lies at most 1000 below
  \<open>299 R + 587 G + 114 B\<close> and never above it.
\<close>

theorem Grayscale_luma:
  assumes "frame_fits input w h"
  shows "\<exists>out. Grayscale input w h = Some out \<and> length out = length input \<and>
    (\<forall>i. 0 \<le> i \<longrightarrow> i < w * h \<longrightarrow>
      cell out i 0 = cell out i 1 \<and> cell out i 1 = cell out i 2 \<and>
      1000 * uint (cell out i 0) \<le> 299 * uint (cell input i 0) + 587 * uint (cell input i 1) + 114 * uint (cell input i 2) \<and>
      299 * uint (cell input i 0) + 587 * uint (cell input i 1) + 114 * uint (cell input i 2) \<le>
        1000 * (uint (cell out i 0) + 1))"
proof -
  obtain out where out: "Grayscale input w h = Some out" "length out = length input"
    and cells: "\<And>i c. 0 \<le> i \<Longrightarrow> i < w * h \<Longrightarrow> 0 \<le> c \<Longrightarrow> c < 3 \<Longrightarrow> cell out i c = gray_at input i"
    using Grayscale_eq [of input w h] assms by (auto simp: frame_fits_def)
  show ?thesis
    using out cells by (intro exI [of _ out]) (auto simp: gray_at_def gray_of_luma intro: order_trans [OF gray_of_luma(2)])
qed

theorem Grayscale_luma_witness:
  "\<exists>out. Grayscale [37, 200, 5] 1 1 = Some out \<and> 1000 * uint (cell out 0 0) \<le> 129033"
  using Grayscale_luma [of "[37, 200, 5]" 1 1]
  by (auto simp: frame_fits_def in_i64_def cell_def)

end
