(* ===== verification/Spec2Isabelle.thy ===== *)
theory Spec2Isabelle
  imports Gateway_Serial Gateway_Process Processor_Process Processor_Load Blur_Accuracy
begin

text \<open>
  A verification development for the streaming frame processor: the gateway (\<open>gateway/\<close>, Go) and the Go
  processor (\<open>processor-go/\<close>).

  \<^bold>\<open>The program.\<close> Clients talk HTTP or WebSocket to the gateway. A request passes CORS, logging and the rate
  limiter and reaches a handler, which authenticates it by a signed token, picks a processor from the pool, sends
  frames as chunks over a gRPC stream, and logs the run in PostgreSQL. The processor applies one of four filters to
  each chunk and keeps global statistics.

  \<^bold>\<open>The theories\<close>, in import order.

  \<^item> \<open>Go_Prelude\<close>: machine integers of Go, bytes, counting loops with their invariant rule, slices, panics as
    \<open>None\<close>. \<open>Go_Float\<close>: \<open>float32\<close> and \<open>float64\<close> with rounding to nearest even, overflow, NaN, conversions.
    \<open>Go_Text\<close>, \<open>Go_Encoding\<close>, \<open>Go_Sha256\<close>: decimal numbers, splitting, base64, hex, SHA-256 and HMAC of the
    standard library.
  \<^item> \<open>Image_Processor\<close>: the filters of \<open>processor-go/cmd/server/main.go\<close> as the loops over the buffers, and their
    equivalence with per-pixel references (convolution, integer Laplacian, Sobel). \<open>Blur_Accuracy\<close>: how far the
    \<open>float32\<close> results are from exact arithmetic (the rational convolution, the integer luma).
  \<^item> \<open>Proto\<close>: the messages of \<open>streaming.pb.go\<close>. \<open>Processor_Server\<close>: \<open>processChunk\<close>, \<open>ProcessMediaStream\<close>,
    \<open>GetStats\<close> over the global counters and the pool of kernel buffers, and the contract \<open>chunk_reply\<close>, which
    does not mention the server's state. \<open>Processor_Main\<close>: the pages of its metrics server.
  \<^item> \<open>Processor_Concurrent\<close>: the same service with any number of streams and \<open>GetStats\<close> calls at once: one goroutine per
    call, interleaved at each atomic addition, pool call and loop iteration over a pooled buffer; buffers live on a
    heap, the pool holds addresses (locale \<open>buffer_pool\<close>, interpreted by the model of \<open>sync.Pool\<close>). The invariant of a blur in
    progress is that its rest, run alone, gives the sequential result (\<open>rest_of\<close>, \<open>work_ok\<close>). \<open>Concurrent_Facts\<close>:
    non-interference, serialisability by an account per counter (\<open>server_accounts\<close>), the actions a stream needs
    (\<open>stream_left\<close>), what \<open>GetStats\<close> can observe. \<open>Processor_Process\<close>: \<open>main\<close> of the processor with its graceful stop.
  \<^item> \<open>Processor_Pool\<close>: \<open>gateway/internal/grpc/client.go\<close> but for \<open>ProcessStream\<close>: round robin and sticky routing
    under interleaving, dialling, health, the single-chunk call, and the locale \<open>processor_service\<close>, the laws the
    gateway relies on, interpreted by the Go processor behind the transport.
  \<^item> \<open>Stream_Client\<close>: \<open>ProcessStream\<close> and the two ends of \<open>HandleProcessStream\<close>: four goroutines and their
    channels as one step relation, with order, completeness, termination and absence of deadlock.
  \<^item> \<open>Auth_Token\<close>: \<open>auth/token.go\<close>, with the locale \<open>signer\<close> interpreted by HMAC. \<open>Storage\<close>:
    \<open>storage/postgres.go\<close> on tables as lists of rows, with the locale \<open>credentials\<close>. \<open>Gateway_Metrics\<close>:
    \<open>metrics/metrics.go\<close>, the instruments and the limiter.
  \<^item> \<open>Http_Handlers\<close>: every handler of \<open>http/handlers.go\<close> and \<open>http/pages.go\<close> as a function of request,
    environment and gateway state. \<open>Handler_Facts\<close>: what they guarantee.
  \<^item> \<open>Gateway_Main\<close>: \<open>gateway/cmd/server/main.go\<close>: start-up, routes, middleware. \<open>Gateway_Facts\<close>: the invariant of
    the running gateway (through the locale \<open>run_invariant\<close>), well-formed answers, the gate before the protected paths.
    \<open>Gateway_Accounts\<close>: what every request keeps of the accounts. \<open>Gateway_Process\<close>: \<open>main\<close> around the server: listening,
    the signal, the deferred closes. \<open>Go_Scan\<close>: how both programs read their port.
  \<^item> \<open>Gateway_Concurrent\<close>: the gateway with many requests at once. A handler is the tree (\<open>thread\<close>) of its accesses to
    what requests share: instruments, pool, database and bucket; \<open>front_step\<close> lets any request take its next access.
    A thread alone is the handler of \<open>Http_Handlers\<close> (\<open>alone_mux\<close>), and every sequential history is one of its runs.
    \<open>Gateway_Interleaved\<close>: the invariant of server and threads (locales \<open>front_invariant\<close> and \<open>thread_invariant\<close>), answers
    within a bounded number of turns, accounts that survive every interleaving. \<open>Gateway_Serial\<close>: the accesses that only add
    commute, so an order of whole requests explains every interleaving of requests that read neither accounts nor the log.
  \<^item> \<open>Processor_Load\<close>: a call of the gateway to the concurrent processor, one stream among many; it satisfies
    \<open>processor_service\<close> too, and is answered when it gets turns enough.
  \<^item> this theory: a frame and a stream from the HTTP request to the filter and back, the frame with gateway and
    processor both under load.

  \<^bold>\<open>Correspondence.\<close> Structs are records and enums datatypes with the names of the source (suffixed where a
  name clashes: \<open>normalizeMemoryMode_grpc\<close>, \<open>_http\<close>, \<open>_db\<close> are three functions of the same name in three
  packages). \<open>int32\<close>, \<open>int64\<close> and \<open>uint64\<close> fields are words; \<open>int\<close> expressions are integers with
  \<open>wrap64\<close> where the code computes a product that can overflow. A function that can panic returns an option, one
  that returns an error a sum. Handlers return the response and the new gateway; a stream or WebSocket request also
  returns what the exchange that follows will do.

  \<^bold>\<open>Parameters.\<close> \<open>math.Exp\<close>; clocks and random salt; the faults of the gRPC transport, of the database server and of
  the peer of a WebSocket; JSON decoding; \<open>strconv.ParseFloat\<close>; the memory figures of the runtime. Hypotheses on them
  are stated where a theorem uses them. The float model rounds after each operation, as Go does on amd64; a compiler that
  fuses multiplication and addition (other architectures) may round once instead.

  \<^bold>\<open>Bounds and termination.\<close> No theorem relies on fuel. Counting loops have a measure; \<open>read_frames\<close> may not end and is
  an option, and \<open>stream_feed_terminates\<close> says exactly when it ends. Runs of the concurrent processor are lists of
  events of any length; \<open>round_actions\<close> bounds the actions a chunk needs, and \<open>streams_do_not_interfere\<close> shows that they are
  enough. Lengths of chunks are below \<open>2^62\<close> and pools hold
  at most \<open>2^31\<close> addresses; both exceed what a message or a command line can carry.

  \<^bold>\<open>Not modelled.\<close> The C++ processor (another language; it is behind the same interface). Generated gRPC stubs and
  the reflection code of the messages. Flag parsing, timeouts, log output. HTML texts. The Prometheus exposition format
  and the buckets of its histograms. The redirection of unclean paths by \<open>net/http\<close>. In the interleaved
  gateway each method of pool, store and instruments is one access (\<open>SetSticky\<close> two, one per atomic operation), a call of a
  processor answers as \<open>he_call\<close> says, at one moment (the processors share no state with the gateway; that the answer
  does not depend on their load is \<open>loaded_call_answers\<close>), and the instruments that the goroutines of a stream touch are
  summed up by \<open>stream_metrics\<close>. In the concurrent processor, memory is
  sequentially consistent: the shared words are accessed by \<open>sync/atomic\<close> only, and the proof shows the buffers free of
  races. The load test and the benchmark are clients.
\<close>

section \<open>Across the components\<close>

lemma valid_chunk_frame:
  assumes "valid_chunk c" "sized c"
  shows "\<exists>out. chunk_frame mexp c = Some out \<and> length out = length (mc_Data c)"
  using chosen.total [OF valid_chunk_fits [OF assms], of mexp "chunk_params (mc_Params c)"]
  by (auto simp: chunk_frame_def)

lemma arrives_admitted:
  assumes "admitted r (ss_limiter (server b))" "rq_method r \<noteq> ''OPTIONS''"
  shows "conversations (arrives me r b) = conversations b @ [Running r (mux_thread me r (ss_gateway (server b)))]"
  using assms by (auto simp: arrives_def limit_middleware_def admitted_def Allow_def)

lemma currentUser_clock: "he_now env = he_now env' \<Longrightarrow> currentUser env g r = currentUser env' g r"
  unfolding currentUser_def userFromRequest_def by (elim ssubst) (rule refl)

text \<open>What a frame that was answered without an error looks like to the client.\<close>

definition frame_answer :: "(fl \<Rightarrow> fl) \<Rightarrow> MediaChunk \<Rightarrow> outcome \<Rightarrow> bool" where
  "frame_answer mexp c out \<longleftrightarrow> (\<exists>fp px. out = Done (json_response 200 (FrameBody fp)) \<and> fp_Success fp \<and> fp_Error fp = [] \<and>
     std_decode (fp_Data fp) = Some px \<and> chunk_frame mexp c = Some px \<and> length px = length (mc_Data c))"

lemma frame_answer_reply:
  assumes "valid_chunk c" "sized c" "r = chunk_reply mexp env c"
  shows "frame_answer mexp c (Done (json_response 200 (FrameBody (frame_response m r))))"
proof -
  obtain px where "chunk_frame mexp c = Some px" "length px = length (mc_Data c)"
    using valid_chunk_frame [OF assms(1,2)] by blast
  then show ?thesis
    using assms unfolding frame_answer_def
    by (intro exI [of _ "frame_response m r"] exI [of _ px]) (simp add: frame_response_def chunk_reply_facts b64std.dec_enc)
qed

lemma concat_same_length: "(\<forall>x \<in> set xs. length x = n) \<Longrightarrow> length (concat xs) = n * length xs"
  by (induction xs) auto

text \<open>
  C1. One frame, end to end and under load: whatever requests came before, a POST to \<open>/api/process\<close> or its alias
  with a valid token and a frame of the announced size that the limiter lets in is answered 200 with exactly the frame
  the chosen filter computes, of the size that was sent, once it was scheduled seven times (and twice more per message
  if it were a WebSocket), however the accesses of all other requests interleave with its own, whichever
  processor it is routed to and however that processor interleaves its stream with those of others, as long as
  the connection has no fault and the processor gives the stream turns enough for its pixels.
\<close>

theorem frame_under_load:
  assumes "server_state_inv s" and b: "b = front_run es0 \<lparr>server = s, conversations = []\<rparr>"
    and "admitted r (ss_limiter (server b))" and "rq_path r \<in> {''/api/process'', ''/process''}"
    and "userFromRequest (me_http me) (ss_gateway s) r = Inr u" and "frame_request r req data"
    and "c = frame_chunk (me_http me) req data MEDIA_TYPE_IMAGE 1"
    and call: "he_call (me_http me) = (\<lambda>client. loaded_call (tr client) mexp (penv client) (start_time client)
      (others client) (calls client) (schedule client))"
    and "\<And>client. faultless (tr client)"
    and "\<And>client. 79 + 2 * pixels_left c 0 0 \<le> count_list (schedule client) (Moves 0)"
    and turns: "6 + 2 * length (me_messages me) < count_list es (front_event.Acts (length (conversations b)))"
  shows "\<exists>out. conversations (front_run (front_event.Arrives me r # es) b) ! length (conversations b) = Answered (behind_cors out) \<and>
    frame_answer mexp c out"
proof -
  let ?g = "ss_gateway (server b)" and ?i = "length (conversations b)" and ?b = "arrives me r b"
  let ?n = "length (addrs (g_pool (ss_gateway s)))" and ?st = "g_store (ss_gateway s) \<noteq> None"
  have "sound_front.holds ?n ?st \<lparr>server = s, conversations = []\<rparr>"
    using assms(1) by (simp add: sound_front.holds_def front_inv_def)
  then have holds: "sound_front.holds ?n ?st b" unfolding b by (rule sound_front.run_holds)
  then have st: "(g_store ?g \<noteq> None) = ?st" by (simp only: sound_front.holds_def front_inv_def)
  have "g_tokens ?g = g_tokens (ss_gateway s)" using front_run_grows [of s es0] by (simp add: b grows_def)
  then have user: "currentUser (me_http me) ?g r = Inr u"
    using assms(5) currentUser_tokens [of ?g "ss_gateway s"] by (simp add: currentUser_Inr)
  have "valid_chunk c" unfolding assms(7) using assms(6) by (intro frame_chunk_valid) (simp_all add: frame_request_def)
  moreover have "sized c" using assms(6) by (simp add: frame_request_def sized_def frame_chunk_def assms(7))
  ultimately have c: "valid_chunk c" "sized c" by simp_all
  have reply: "\<exists>reply. he_call (me_http me) client c m = Inr reply \<and> (\<exists>env. reply = chunk_reply mexp env c)" for client m
    using loaded_call_answers [OF _ _ _ _ c(2) assms(10) [of client]] assms(9) [of client]
    by (auto simp: call faultless_def)
  have post: "rq_method r \<noteq> ''OPTIONS''" using assms(6) by (simp add: frame_request_def)
  have thread: "mux_thread me r ?g = HandleProcessFrame_thread (me_http me) r ?g"
    using assms(4) by (auto simp: mux_thread_def Let_def)
  note conv = arrives_admitted [OF assms(3) post, of me]
  obtain out where out: "conversations (front_run es ?b) ! ?i = Answered out"
    using arrival_answered [OF turns] by blast
  let ?P = "\<lambda>o'. \<exists>reply. (\<exists>env. reply = chunk_reply mexp env c) \<and>
    o' = Done (json_response 200 (FrameBody (frame_response (normalizeMemoryMode_http (fr_MemoryMode req)) reply)))"
  have "\<exists>o'. ?P o' \<and> out = behind_cors o'"
  proof (rule thread_ends_so [OF sound_front.arrives_holds [OF holds] _ _ _ post out])
    show "?i < length (conversations ?b)" and "conversations ?b ! ?i = Running r (HandleProcessFrame_thread (me_http me) r ?g)"
      by (simp_all add: conv thread)
    show "thread_ends ?P ?n ?st (HandleProcessFrame_thread (me_http me) r ?g)"
      using frame_thread_ends [OF user assms(6), of "\<lambda>reply. \<exists>env. reply = chunk_reply mexp env c"] reply
      unfolding assms(7) st by blast
  qed
  then show ?thesis using out frame_answer_reply [OF c refl] by auto
qed

text \<open>Two such requests at once, at a processor that serves another stream in between.\<close>

definition sample_loaded_env :: main_env where
  "sample_loaded_env = sample_main_env\<lparr>me_http := sample_http_env\<lparr>he_call := \<lambda>_. loaded_call sample_transport sample_exp
     sample_env 0 [one_frame_stream [9, 9, 9] 1] [] (concat (replicate 87 [Moves 1, Collects 0, Moves 0]))\<rparr>\<rparr>"

theorem frame_under_load_witness:
  "let q = front_event.Arrives sample_loaded_env (bearer sample_token (sample_request\<lparr>rq_frame_json := Some sample_frame\<rparr>));
       b = front_run (q # q # concat (replicate 7 [front_event.Acts 0, front_event.Acts 1]))
             \<lparr>server = sample_server, conversations = []\<rparr>
   in \<exists>out. conversations b ! 1 = Answered (behind_cors out) \<and>
     frame_answer sample_exp (frame_chunk sample_http_env sample_frame [10, 20, 30] MEDIA_TYPE_IMAGE 1) out"
proof -
  let ?me = sample_loaded_env and ?r = "bearer sample_token (sample_request\<lparr>rq_frame_json := Some sample_frame\<rparr>)"
  let ?q = "front_event.Arrives ?me ?r" and ?es = "concat (replicate 7 [front_event.Acts 0, front_event.Acts 1])"
  let ?start = "\<lparr>server = sample_server, conversations = []\<rparr>"
  let ?schedule = "concat (replicate 87 [Moves 1, Collects 0, Moves 0])"
  let ?c = "frame_chunk sample_http_env sample_frame [10, 20, 30] MEDIA_TYPE_IMAGE 1"
  have env: "frame_chunk (me_http ?me) = frame_chunk sample_http_env"
    by (intro ext) (simp add: sample_loaded_env_def frame_chunk_def)
  have path: "rq_path ?r = ''/api/process''" "rq_method ?r = ''POST''" by (simp_all add: bearer_def sample_request_def)
  have one: "length (conversations (front_run [?q] ?start)) = 1"
    using arrives_conversations [of ?me ?r ?start] by auto
  have "tokens (ss_limiter (server (front_run [?q] ?start))) = 999"
    by (simp add: arrives_def path limit_middleware_def exempt_path_def Allow_def sample_server_def)
  then have adm: "admitted ?r (ss_limiter (server (front_run [?q] ?start)))" by (simp add: admitted_def)
  have "g_tokens (ss_gateway sample_server) = g_tokens sample_gateway"
    by (simp add: sample_server_def sample_gateway_def sample_manager_def)
  then have user: "userFromRequest (me_http ?me) (ss_gateway sample_server) ?r = Inr sample_user"
    unfolding currentUser_Inr [symmetric]
    using sample_currentUser currentUser_tokens [of "ss_gateway sample_server" sample_gateway]
      currentUser_clock [of "me_http ?me" sample_http_env] by (simp add: sample_loaded_env_def)
  have "count_list (concat (replicate n [Moves 1, Collects 0, Moves 0])) (Moves 0) = n" for n by (induction n) auto
  then have actions: "79 + 2 * pixels_left ?c 0 0 \<le> count_list ?schedule (Moves 0)"
    by (simp add: pixels_left_def frame_chunk_def sample_frame_def)
  have turns: "6 + 2 * length (me_messages ?me) < count_list ?es (front_event.Acts (length (conversations (front_run [?q] ?start))))"
    unfolding one by (simp add: sample_loaded_env_def sample_main_env_def numeral_eq_Suc)
  have "\<exists>out. conversations (front_run (?q # ?es) (front_run [?q] ?start)) ! length (conversations (front_run [?q] ?start)) =
      Answered (behind_cors out) \<and> frame_answer sample_exp ?c out"
    by (rule frame_under_load [OF sample_server_sound refl adm _ user sample_frame_request _ _ _ actions turns, unfolded env,
          where tr = "\<lambda>_. sample_transport" and penv = "\<lambda>_. sample_env" and start_time = "\<lambda>_. 0" and
            others = "\<lambda>_. [one_frame_stream [9, 9, 9] 1]" and calls = "\<lambda>_. []"])
      (simp_all add: path sample_loaded_env_def faultless_def sample_transport_def)
  then show ?thesis unfolding one by (simp add: Let_def)
qed

text \<open>
  C2. A stream, end to end: for an authenticated stream request whose frames fit, whichever way the
  goroutines are scheduled, if the handler leaves its loop by draining the answers, no gRPC call failed and
  the client stayed until the feeder was done, the body of the response is the sequence of the processed
  frames, in the order they were sent, as many bytes as the whole frames of the request.
\<close>

theorem stream_end_to_end:
  assumes "HandleProcessStream env pf r g = (Inr (client, mode, Frames cs), g')"
    and "0 < wrap64 (w * h * 3)" and "in_i64 (w * h * 3)"
    and "w = sp_width (stream_query pf r)" and "h = sp_height (stream_query pf r)"
    and "stream_reach (\<lambda>c. chunk_reply mexp (penv c) c) cs s"
    and "consumer s = CDrained" and "\<not> failed s" and "todo s = []"
  shows "\<exists>outs. map (chunk_frame mexp) cs = map Some outs \<and> body (stream_response s) = RawBody (concat outs) \<and>
    int (length (concat outs)) = w * h * 3 * (int (length (rq_raw r)) div (w * h * 3))"
proof -
  let ?sp = "stream_query pf r" and ?n = "nat (w * h * 3)"
  have wrap: "wrap64 (w * h * 3) = w * h * 3" using assms(3) by (rule wrap64_id)
  have feed: "stream_feed env ?sp (rq_raw r) = Frames cs"
    using assms(1) by (auto simp: HandleProcessStream_def Let_def split: if_splits sum.splits prod.splits)
  then have "w * h * 3 \<le> stream_buffer_size"
    using wrap by (auto simp: stream_feed_def Let_def assms(4,5) split: if_splits)
  then obtain "length cs = length (rq_raw r) div ?n" and cs: "\<forall>c \<in> set cs. valid_chunk c \<and> sized c \<and> length (mc_Data c) = ?n"
    using stream_feed_fits [of ?sp env "rq_raw r"] assms(2) feed unfolding wrap by (auto simp: assms(4,5))
  note len = \<open>length cs = length (rq_raw r) div ?n\<close>
  define outs where "outs = map (\<lambda>c. the (chunk_frame mexp c)) cs"
  have frames: "chunk_frame mexp c = Some (the (chunk_frame mexp c)) \<and> length (the (chunk_frame mexp c)) = ?n"
    if "c \<in> set cs" for c using valid_chunk_frame [of c mexp] cs that by force
  have e: "end_inv (\<lambda>c. chunk_reply mexp (penv c) c) cs s" using stream_reach_inv [OF assms(6)] by simp
  then have "reader s = RDone" "results s = []" using assms(7) by (simp_all add: end_inv_def)
  with e have "written s = map (\<lambda>c. chunk_reply mexp (penv c) c) cs"
    using assms(8,9) by (simp add: end_inv_def)
  then have "map pc_Data (written s) = outs" unfolding outs_def using cs by (simp add: chunk_reply_facts)
  moreover have "map (chunk_frame mexp) cs = map Some outs" unfolding outs_def using frames by simp
  moreover have "length (concat outs) = ?n * (length (rq_raw r) div ?n)"
    using concat_same_length [of outs ?n] frames len by (auto simp: outs_def)
  ultimately show ?thesis
    using assms(2) unfolding wrap by (intro exI [of _ outs]) (simp add: stream_response_def zdiv_int)
qed

theorem stream_end_to_end_witness:
  "\<exists>client mode c g' outs s. HandleProcessStream sample_http_env (\<lambda>_. Fin 5)
     (bearer sample_token (sample_request\<lparr>rq_query := (\<lambda>k. if k = ''width'' then show_int 2 else show_int 1),
        rq_raw := replicate 7 9\<rparr>)) sample_gateway = (Inr (client, mode, Frames [c]), g') \<and>
   body (stream_response s) = RawBody (concat outs) \<and> length (concat outs) = 6"
proof -
  let ?r = "bearer sample_token (sample_request\<lparr>rq_query := (\<lambda>k. if k = ''width'' then show_int 2 else show_int 1),
      rq_raw := replicate 7 9\<rparr>)"
  let ?sp = "stream_query (\<lambda>_. Fin 5) ?r" and ?reply = "\<lambda>c. chunk_reply sample_exp sample_env c"
  have sp: "sp_width ?sp = 2" "sp_height ?sp = 1"
    by (simp_all add: stream_query_def Let_def bearer_def sample_request_def ParseInt_show_int in_i64_def)
  have raw: "length (rq_raw ?r) = 7" by (simp add: bearer_def sample_request_def)
  obtain cs where cs: "stream_feed sample_http_env ?sp (rq_raw ?r) = Frames cs" "length cs = 1"
    using stream_feed_fits [of ?sp sample_http_env "rq_raw ?r"] unfolding sp raw by (auto simp: stream_buffer_size_def)
  then obtain c where c: "cs = [c]" by (cases cs) auto
  obtain client p where get: "Get (g_pool sample_gateway) = (Inr client, p)" using Get_Inr [OF sample_clients] by blast
  have post: "rq_method ?r = ''POST''" by (simp add: bearer_def sample_request_def)
  have run: "\<exists>mode g'. HandleProcessStream sample_http_env (\<lambda>_. Fin 5) ?r sample_gateway = (Inr (client, mode, Frames [c]), g')"
    using sample_currentUser get cs(1) post unfolding c by (simp add: HandleProcessStream_def Let_def)
  then obtain mode g' where h: "HandleProcessStream sample_http_env (\<lambda>_. Fin 5) ?r sample_gateway = (Inr (client, mode, Frames [c]), g')"
    by blast
  have size: "0 < wrap64 (2 * 1 * 3)" "in_i64 (2 * 1 * 3)" by (simp_all add: wrap64_id in_i64_def)
  from stream_end_to_end [OF h size sp [symmetric] one_frame_drained [of ?reply c]]
  show ?thesis using h raw by (simp add: stream_init_def) blast
qed

end
